theory Spec2Isabelle
  imports Complex_Main "HOL-Library.AList"
begin

section \<open>The LRU engine: KLruCache (KLruCache.h)\<close>

text \<open>
  The class keeps a hash index \<open>nodeMap_\<close> (key to node) and an intrusive doubly linked
  list of the same nodes between two sentinels; a new or refreshed node is linked in
  front of \<open>dummyTail_\<close>, the eviction candidate is \<open>dummyHead_->next_\<close>. Every member
  function changes index and list together, so the model keeps one sequence of
  (key, value) nodes in list order (least recent first, most recent last) and reads
  the index off it: \<open>nodeMap_.find(key)\<close> is \<open>map_of\<close>, \<open>nodeMap_.size()\<close> is the length.
  The field \<open>accessCount_\<close> of \<open>LruNode\<close> is never read or written by \<open>KLruCache\<close> and is
  left out. \<open>capacity_\<close> is a C++ \<open>int\<close>.
\<close>

record ('k, 'v) lru_state =
  lru_capacity :: int
  lru_nodes :: "('k \<times> 'v) list"

definition KLruCache :: "int \<Rightarrow> ('k, 'v) lru_state" where
  "KLruCache capacity = \<lparr>lru_capacity = capacity, lru_nodes = []\<rparr>"

text \<open>\<open>insertNode\<close>: link the node in front of the tail sentinel.\<close>

definition insertNode :: "'k \<times> 'v \<Rightarrow> ('k \<times> 'v) list \<Rightarrow> ('k \<times> 'v) list" where
  "insertNode node ns = ns @ [node]"

text \<open>\<open>removeNode\<close>: unlink the node (named by its key) from the list.\<close>

definition removeNode :: "'k \<Rightarrow> ('k \<times> 'v) list \<Rightarrow> ('k \<times> 'v) list" where
  "removeNode k ns = AList.delete k ns"

definition moveToMostRecent :: "'k \<Rightarrow> ('k \<times> 'v) list \<Rightarrow> ('k \<times> 'v) list" where
  "moveToMostRecent k ns =
     (case map_of ns k of
        None \<Rightarrow> ns
      | Some v \<Rightarrow> insertNode (k, v) (removeNode k ns))"

text \<open>\<open>updateExistingNode\<close>: \<open>setValue\<close>, then \<open>moveToMostRecent\<close>.\<close>

definition updateExistingNode :: "'k \<Rightarrow> 'v \<Rightarrow> ('k \<times> 'v) list \<Rightarrow> ('k \<times> 'v) list" where
  "updateExistingNode k v ns = insertNode (k, v) (removeNode k ns)"

text \<open>
  \<open>evictLeastRecent\<close>: unlink \<open>dummyHead_->next_\<close> and erase its key from the index. It is
  only called from \<open>addNewNode\<close> when \<open>nodeMap_.size() >= capacity_\<close> with a positive
  capacity, so the list is not empty there.
\<close>

definition evictLeastRecent :: "('k \<times> 'v) list \<Rightarrow> ('k \<times> 'v) list" where
  "evictLeastRecent ns = (case ns of [] \<Rightarrow> [] | leastRecent # rest \<Rightarrow> rest)"

definition addNewNode :: "'k \<Rightarrow> 'v \<Rightarrow> ('k, 'v) lru_state \<Rightarrow> ('k, 'v) lru_state" where
  "addNewNode k v s =
     (let ns = (if int (length (lru_nodes s)) \<ge> lru_capacity s
                then evictLeastRecent (lru_nodes s) else lru_nodes s)
      in s\<lparr>lru_nodes := insertNode (k, v) ns\<rparr>)"

definition lru_put :: "'k \<Rightarrow> 'v \<Rightarrow> ('k, 'v) lru_state \<Rightarrow> ('k, 'v) lru_state" where
  "lru_put k v s =
     (if lru_capacity s \<le> 0 then s
      else (case map_of (lru_nodes s) k of
              Some old \<Rightarrow> s\<lparr>lru_nodes := updateExistingNode k v (lru_nodes s)\<rparr>
            | None \<Rightarrow> addNewNode k v s))"

text \<open>
  \<open>bool get(Key key, Value& value)\<close>: the caller's \<open>value\<close> is an in/out parameter; the
  model returns the hit flag, the content of \<open>value\<close> after the call and the new state.
\<close>

definition lru_get :: "'k \<Rightarrow> 'v \<Rightarrow> ('k, 'v) lru_state \<Rightarrow> bool \<times> 'v \<times> ('k, 'v) lru_state" where
  "lru_get k value s =
     (case map_of (lru_nodes s) k of
        Some v \<Rightarrow> (True, v, s\<lparr>lru_nodes := moveToMostRecent k (lru_nodes s)\<rparr>)
      | None \<Rightarrow> (False, value, s))"

text \<open>\<open>Value get(Key key)\<close>: a value-initialised \<open>Value value{}\<close> (here \<open>dflt\<close>) is passed on.\<close>

definition lru_get_value :: "'v \<Rightarrow> 'k \<Rightarrow> ('k, 'v) lru_state \<Rightarrow> 'v \<times> ('k, 'v) lru_state" where
  "lru_get_value dflt k s = snd (lru_get k dflt s)"

definition lru_remove :: "'k \<Rightarrow> ('k, 'v) lru_state \<Rightarrow> ('k, 'v) lru_state" where
  "lru_remove k s =
     (case map_of (lru_nodes s) k of
        Some v \<Rightarrow> s\<lparr>lru_nodes := removeNode k (lru_nodes s)\<rparr>
      | None \<Rightarrow> s)"

definition lru_contains :: "'k \<Rightarrow> ('k, 'v) lru_state \<Rightarrow> bool" where
  "lru_contains k s = (map_of (lru_nodes s) k \<noteq> None)"

text \<open>
  The two operations of the interface \<open>KICachePolicy\<close>, which every policy has:
  \<open>put(key, value)\<close> and \<open>get(key, value)\<close> (with the content of the caller's buffer).
\<close>

datatype ('k, 'v) cache_op = CachePut 'k 'v | CacheGet 'k 'v

text \<open>A caller's operations on one LRU engine, and the state after a sequence of them.\<close>

datatype ('k, 'v) lru_op = LruPut 'k 'v | LruGet 'k 'v | LruRemove 'k | LruContains 'k

fun lru_step :: "('k, 'v) lru_state \<Rightarrow> ('k, 'v) lru_op \<Rightarrow> ('k, 'v) lru_state" where
  "lru_step s (LruPut k v) = lru_put k v s"
| "lru_step s (LruGet k value) = snd (snd (lru_get k value s))"
| "lru_step s (LruRemove k) = lru_remove k s"
| "lru_step s (LruContains k) = s"

definition lru_run :: "int \<Rightarrow> ('k, 'v) lru_op list \<Rightarrow> ('k, 'v) lru_state" where
  "lru_run capacity ops = foldl lru_step (KLruCache capacity) ops"

text \<open>What every reachable state of the engine satisfies.\<close>

definition lru_inv :: "('k, 'v) lru_state \<Rightarrow> bool" where
  "lru_inv s \<longleftrightarrow>
     distinct (map fst (lru_nodes s)) \<and>
     (lru_capacity s \<le> 0 \<longrightarrow> lru_nodes s = []) \<and>
     (0 < lru_capacity s \<longrightarrow> int (length (lru_nodes s)) \<le> lru_capacity s)"

section \<open>The LRU-K cache: KLruKCache (KLruCache.h)\<close>

text \<open>
  \<open>KLruKCache\<close> derives from \<open>KLruCache<Key, Value>\<close> (the main cache, reached through
  \<open>KLruCache<Key, Value>::put/get/contains\<close>) and owns \<open>historyList_\<close>, a
  \<open>KLruCache<Key, size_t>\<close> that counts the accesses of keys not yet admitted, and the
  threshold \<open>k_\<close>. The history is read with \<open>Value get(Key)\<close>, whose value-initialised
  result is 0 for a key it does not hold; the \<open>size_t\<close> it returns is stored in an
  \<open>int historyCount\<close>, and \<open>historyCount + 1\<close> goes back as a \<open>size_t\<close>.
\<close>

record ('k, 'v) lruk_state =
  lruk_main :: "('k, 'v) lru_state"
  lruk_historyList :: "('k, nat) lru_state"
  lruk_k :: int

definition KLruKCache :: "int \<Rightarrow> int \<Rightarrow> int \<Rightarrow> ('k, 'v) lruk_state" where
  "KLruKCache capacity historyCapacity k =
     \<lparr>lruk_main = KLruCache capacity,
      lruk_historyList = KLruCache historyCapacity,
      lruk_k = k\<rparr>"

text \<open>
  \<open>bool get(Key key, Value& value)\<close>. On the access that reaches \<open>k_\<close> the key leaves
  the history and the caller's \<open>value\<close>, as it stands on entry, is put into the main
  cache; the closing \<open>KLruCache::get\<close> then reads the main cache.
\<close>

definition lruk_get ::
  "'k \<Rightarrow> 'v \<Rightarrow> ('k, 'v) lruk_state \<Rightarrow> bool \<times> 'v \<times> ('k, 'v) lruk_state" where
  "lruk_get key value s =
     (if lru_contains key (lruk_main s) then
        (case lru_get key value (lruk_main s) of
           (hit, value', m) \<Rightarrow> (hit, value', s\<lparr>lruk_main := m\<rparr>))
      else
        (case lru_get_value 0 key (lruk_historyList s) of
           (stored, h1) \<Rightarrow>
             (let historyCount = int stored;
                  h2 = lru_put key (nat (historyCount + 1)) h1
              in if historyCount + 1 \<ge> lruk_k s then
                   (let h3 = lru_remove key h2;
                        m1 = lru_put key value (lruk_main s)
                    in case lru_get key value m1 of
                         (hit, value', m2) \<Rightarrow>
                           (hit, value', s\<lparr>lruk_main := m2, lruk_historyList := h3\<rparr>))
                 else
                   (case lru_get key value (lruk_main s) of
                      (hit, value', m2) \<Rightarrow>
                        (hit, value', s\<lparr>lruk_main := m2, lruk_historyList := h2\<rparr>)))))"

definition lruk_put :: "'k \<Rightarrow> 'v \<Rightarrow> ('k, 'v) lruk_state \<Rightarrow> ('k, 'v) lruk_state" where
  "lruk_put key value s =
     (if lru_contains key (lruk_main s) then
        s\<lparr>lruk_main := lru_put key value (lruk_main s)\<rparr>
      else
        (case lru_get_value 0 key (lruk_historyList s) of
           (stored, h1) \<Rightarrow>
             (let historyCount = int stored;
                  h2 = lru_put key (nat (historyCount + 1)) h1
              in if historyCount + 1 \<ge> lruk_k s then
                   s\<lparr>lruk_main := lru_put key value (lruk_main s),
                     lruk_historyList := lru_remove key h2\<rparr>
                 else s\<lparr>lruk_historyList := h2\<rparr>)))"

text \<open>
  One access to a key: a \<open>get\<close> (with the content of the caller's value buffer) or a
  \<open>put\<close> (with the value to store).
\<close>

datatype 'v access = AccessGet 'v | AccessPut 'v

fun lruk_access :: "'k \<Rightarrow> 'v access \<Rightarrow> ('k, 'v) lruk_state \<Rightarrow> ('k, 'v) lruk_state" where
  "lruk_access key (AccessGet buf) s = snd (snd (lruk_get key buf s))"
| "lruk_access key (AccessPut v) s = lruk_put key v s"

text \<open>The count the history holds for a key, as \<open>historyList_->get(key)\<close> returns it.\<close>

definition lruk_historyCount :: "'k \<Rightarrow> ('k, 'v) lruk_state \<Rightarrow> int" where
  "lruk_historyCount key s = int (fst (lru_get_value 0 key (lruk_historyList s)))"

section \<open>The LFU engine: KLfuCache (KLfuCache.h)\<close>

text \<open>
  \<open>KLfuCache\<close> keeps \<open>nodeMap_\<close> (key to node) and \<open>freqToFreqList_\<close>, an
  \<open>unordered_map\<close> from a frequency to a \<open>FreqList\<close>: an intrusive list of the nodes of
  that frequency between two sentinels, appended at the tail and evicted from the
  head. A node is created only for a key the index does not hold, so a key names its
  node. The model stores each node's \<open>freq\<close> and \<open>value\<close> under its key in \<open>lfu_nodeMap\<close>
  and each bucket as the keys of its nodes from head to tail. Both maps are
  association lists with distinct keys, so \<open>size()\<close> is the length; the iteration order
  of an \<open>unordered_map\<close> is not specified, the model iterates in list order.
  \<open>capacity_\<close>, \<open>minFreq_\<close> and \<open>freq\<close> are C++ \<open>int\<close>s, modelled as integers without a
  bound (a run would need 2^31 accesses to one key to overflow them).
\<close>

record 'v lfu_node =
  node_freq :: int
  node_value :: 'v

record ('k, 'v) lfu_state =
  lfu_capacity :: int
  lfu_minFreq :: int
  lfu_nodeMap :: "('k \<times> 'v lfu_node) list"
  lfu_freqToFreqList :: "(int \<times> 'k list) list"

definition INT8_MAX :: int where
  "INT8_MAX = 127"

definition KLfuCache :: "int \<Rightarrow> ('k, 'v) lfu_state" where
  "KLfuCache capacity =
     \<lparr>lfu_capacity = capacity, lfu_minFreq = INT8_MAX,
      lfu_nodeMap = [], lfu_freqToFreqList = []\<rparr>"

text \<open>
  \<open>addToFreqList\<close> for a node of frequency \<open>f\<close>: create the bucket if the map has none,
  then \<open>addNode\<close> at the tail.
\<close>

definition addToFreqList :: "'k \<Rightarrow> int \<Rightarrow> (int \<times> 'k list) list \<Rightarrow> (int \<times> 'k list) list" where
  "addToFreqList key f ftl =
     (case map_of ftl f of
        None \<Rightarrow> AList.update f [key] ftl
      | Some bucket \<Rightarrow> AList.update f (bucket @ [key]) ftl)"

text \<open>
  \<open>removeFromFreqList\<close> is \<open>freqToFreqList_[node->freq]->removeNode(node)\<close>. The bucket
  of a resident node exists (\<open>lfu_inv\<close> below); for a frequency without a bucket the
  source's \<open>operator[]\<close> yields a null pointer and the call is undefined, the model
  leaves the map alone. An emptied bucket stays in the map.
\<close>

definition removeFromFreqList ::
  "'k \<Rightarrow> int \<Rightarrow> (int \<times> 'k list) list \<Rightarrow> (int \<times> 'k list) list" where
  "removeFromFreqList key f ftl =
     (case map_of ftl f of
        None \<Rightarrow> ftl
      | Some bucket \<Rightarrow> AList.update f (removeAll key bucket) ftl)"

text \<open>\<open>freqToFreqList_[f]->isEmpty()\<close>.\<close>

definition isEmpty :: "int \<Rightarrow> (int \<times> 'k list) list \<Rightarrow> bool" where
  "isEmpty f ftl = (case map_of ftl f of None \<Rightarrow> True | Some bucket \<Rightarrow> bucket = [])"

text \<open>
  \<open>KLfuCache::kickOut\<close>: take the first node of the \<open>minFreq_\<close> bucket out of its bucket
  and out of the index. \<open>minFreq_\<close> is not touched. It is called when the cache is full,
  where \<open>lfu_inv\<close> makes that bucket non-empty; on an empty or missing bucket the
  source would work on a sentinel or a null pointer, the model leaves the state alone.
\<close>

definition kickOut :: "('k, 'v, 'z) lfu_state_scheme \<Rightarrow> ('k, 'v, 'z) lfu_state_scheme" where
  "kickOut s =
     (case map_of (lfu_freqToFreqList s) (lfu_minFreq s) of
        Some (key # rest) \<Rightarrow>
          (case map_of (lfu_nodeMap s) key of
             Some node \<Rightarrow>
               s\<lparr>lfu_freqToFreqList :=
                    removeFromFreqList key (node_freq node) (lfu_freqToFreqList s),
                  lfu_nodeMap := AList.delete key (lfu_nodeMap s)\<rparr>
           | None \<Rightarrow> s)
      | _ \<Rightarrow> s)"

text \<open>
  \<open>KLfuCache::getInternal(node, value)\<close>, the node named by its key: copy the value out,
  move the node from the bucket of \<open>freq\<close> to the tail of the bucket of \<open>freq + 1\<close>, and
  advance \<open>minFreq_\<close> when the node left the \<open>minFreq_\<close> bucket empty.
\<close>

definition getInternal ::
  "'k \<Rightarrow> 'v \<Rightarrow> ('k, 'v, 'z) lfu_state_scheme \<Rightarrow> 'v \<times> ('k, 'v, 'z) lfu_state_scheme" where
  "getInternal key value s =
     (case map_of (lfu_nodeMap s) key of
        None \<Rightarrow> (value, s)
      | Some node \<Rightarrow>
          (let ftl1 = removeFromFreqList key (node_freq node) (lfu_freqToFreqList s);
               freq = node_freq node + 1;
               ftl2 = addToFreqList key freq ftl1;
               minFreq = (if freq - 1 = lfu_minFreq s \<and> isEmpty (freq - 1) ftl2
                          then lfu_minFreq s + 1 else lfu_minFreq s)
           in (node_value node,
               s\<lparr>lfu_nodeMap := AList.update key (node\<lparr>node_freq := freq\<rparr>) (lfu_nodeMap s),
                 lfu_freqToFreqList := ftl2,
                 lfu_minFreq := minFreq\<rparr>)))"

text \<open>
  \<open>KLfuCache::putInternal\<close>. \<open>kickOut\<close> is virtual, so the eviction is a parameter.
  \<open>nodeMap_.size() == capacity_\<close> compares a \<open>size_t\<close> with an \<open>int\<close>; for a negative
  capacity no size a cache can have is equal to it, as in the model.
\<close>

definition putInternal ::
  "(('k, 'v, 'z) lfu_state_scheme \<Rightarrow> ('k, 'v, 'z) lfu_state_scheme) \<Rightarrow>
   'k \<Rightarrow> 'v \<Rightarrow> ('k, 'v, 'z) lfu_state_scheme \<Rightarrow> ('k, 'v, 'z) lfu_state_scheme" where
  "putInternal evict key value s =
     (let s1 = (if int (length (lfu_nodeMap s)) = lfu_capacity s then evict s else s)
      in s1\<lparr>lfu_nodeMap :=
              AList.update key \<lparr>node_freq = 1, node_value = value\<rparr> (lfu_nodeMap s1),
            lfu_freqToFreqList := addToFreqList key 1 (lfu_freqToFreqList s1),
            lfu_minFreq := min (lfu_minFreq s1) 1\<rparr>)"

text \<open>
  \<open>KLfuCache::put\<close> and \<open>KLfuCache::get(key, value)\<close> call the virtual \<open>getInternal\<close> and
  \<open>putInternal\<close>, which are parameters here: \<open>lfu_put\<close> and \<open>lfu_get\<close> are the calls on a
  \<open>KLfuCache\<close> object.
\<close>

definition KLfuCache_put ::
  "('k \<Rightarrow> 'v \<Rightarrow> ('k, 'v, 'z) lfu_state_scheme \<Rightarrow> 'v \<times> ('k, 'v, 'z) lfu_state_scheme) \<Rightarrow>
   ('k \<Rightarrow> 'v \<Rightarrow> ('k, 'v, 'z) lfu_state_scheme \<Rightarrow> ('k, 'v, 'z) lfu_state_scheme) \<Rightarrow>
   'k \<Rightarrow> 'v \<Rightarrow> ('k, 'v, 'z) lfu_state_scheme \<Rightarrow> ('k, 'v, 'z) lfu_state_scheme" where
  "KLfuCache_put getI putI key value s =
     (if lfu_capacity s = 0 then s
      else (case map_of (lfu_nodeMap s) key of
              Some node \<Rightarrow>
                snd (getI key value
                  (s\<lparr>lfu_nodeMap :=
                       AList.update key (node\<lparr>node_value := value\<rparr>) (lfu_nodeMap s)\<rparr>))
            | None \<Rightarrow> putI key value s))"

definition KLfuCache_get ::
  "('k \<Rightarrow> 'v \<Rightarrow> ('k, 'v, 'z) lfu_state_scheme \<Rightarrow> 'v \<times> ('k, 'v, 'z) lfu_state_scheme) \<Rightarrow>
   'k \<Rightarrow> 'v \<Rightarrow> ('k, 'v, 'z) lfu_state_scheme \<Rightarrow> bool \<times> 'v \<times> ('k, 'v, 'z) lfu_state_scheme" where
  "KLfuCache_get getI key value s =
     (case map_of (lfu_nodeMap s) key of
        Some node \<Rightarrow> (case getI key value s of (value', s') \<Rightarrow> (True, value', s'))
      | None \<Rightarrow> (False, value, s))"

definition lfu_put :: "'k \<Rightarrow> 'v \<Rightarrow> ('k, 'v) lfu_state \<Rightarrow> ('k, 'v) lfu_state" where
  "lfu_put = KLfuCache_put getInternal (putInternal kickOut)"

definition lfu_get :: "'k \<Rightarrow> 'v \<Rightarrow> ('k, 'v) lfu_state \<Rightarrow> bool \<times> 'v \<times> ('k, 'v) lfu_state" where
  "lfu_get = KLfuCache_get getInternal"

fun lfu_step :: "('k, 'v) lfu_state \<Rightarrow> ('k, 'v) cache_op \<Rightarrow> ('k, 'v) lfu_state" where
  "lfu_step s (CachePut k v) = lfu_put k v s"
| "lfu_step s (CacheGet k value) = snd (snd (lfu_get k value s))"

definition lfu_run :: "int \<Rightarrow> ('k, 'v) cache_op list \<Rightarrow> ('k, 'v) lfu_state" where
  "lfu_run capacity ops = foldl lfu_step (KLfuCache capacity) ops"

text \<open>The keys of the bucket of frequency \<open>f\<close>, head first; none if the map has no such bucket.\<close>

definition lfu_bucket :: "int \<Rightarrow> (int \<times> 'k list) list \<Rightarrow> 'k list" where
  "lfu_bucket f ftl = (case map_of ftl f of None \<Rightarrow> [] | Some bucket \<Rightarrow> bucket)"

text \<open>
  The structure of a state: index and buckets hold the same nodes, each node in the
  bucket of its frequency and only once, and every frequency is at least 1.
\<close>

definition lfu_struct :: "('k, 'v, 'z) lfu_state_scheme \<Rightarrow> bool" where
  "lfu_struct s \<longleftrightarrow>
     distinct (map fst (lfu_nodeMap s)) \<and>
     distinct (map fst (lfu_freqToFreqList s)) \<and>
     (\<forall>f key. key \<in> set (lfu_bucket f (lfu_freqToFreqList s)) \<longleftrightarrow>
        (\<exists>node. map_of (lfu_nodeMap s) key = Some node \<and> node_freq node = f)) \<and>
     (\<forall>f. distinct (lfu_bucket f (lfu_freqToFreqList s))) \<and>
     (\<forall>key node. map_of (lfu_nodeMap s) key = Some node \<longrightarrow> 1 \<le> node_freq node)"

text \<open>
  \<open>minFreq_\<close> is the smallest frequency whose bucket is not empty (there is one as soon
  as the cache holds a node).
\<close>

definition lfu_minFreq_ok :: "('k, 'v, 'z) lfu_state_scheme \<Rightarrow> bool" where
  "lfu_minFreq_ok s \<longleftrightarrow>
     lfu_bucket (lfu_minFreq s) (lfu_freqToFreqList s) \<noteq> [] \<and>
     (\<forall>f. lfu_bucket f (lfu_freqToFreqList s) \<noteq> [] \<longrightarrow> lfu_minFreq s \<le> f)"

text \<open>What every state has that a \<open>KLfuCache\<close> reaches from its constructor.\<close>

definition lfu_inv :: "('k, 'v, 'z) lfu_state_scheme \<Rightarrow> bool" where
  "lfu_inv s \<longleftrightarrow>
     lfu_struct s \<and> 1 \<le> lfu_minFreq s \<and> (lfu_nodeMap s \<noteq> [] \<longrightarrow> lfu_minFreq_ok s)"

section \<open>The LFU aging engine: KLfuAgingCache (KLfuCache.h)\<close>

text \<open>
  Two conversions of C++: an \<open>int\<close> operand meeting a \<open>size_t\<close> operand is converted to
  \<open>size_t\<close> (64 bit, modulo 2^64), and a \<open>size_t\<close> stored into an \<open>int\<close> keeps its low 32
  bits as a two's complement number. \<open>int_div\<close> is the division of two \<open>int\<close>s, which
  truncates towards zero.
\<close>

definition size_t_of_int :: "int \<Rightarrow> nat" where
  "size_t_of_int i = nat (i mod 2 ^ 64)"

definition int_of_size_t :: "nat \<Rightarrow> int" where
  "int_of_size_t n = (let m = int n mod 2 ^ 32 in if m < 2 ^ 31 then m else m - 2 ^ 32)"

definition int_div :: "int \<Rightarrow> int \<Rightarrow> int" where
  "int_div a b = sgn a * sgn b * (\<bar>a\<bar> div \<bar>b\<bar>)"

text \<open>
  \<open>KLfuAgingCache\<close> derives from \<open>KLfuCache\<close> and adds the ceiling \<open>maxAverageNum_\<close>, the
  running total \<open>curTotalNum_\<close> and the average \<open>curAverageNum_\<close>. It overrides
  \<open>getInternal\<close>, \<open>putInternal\<close> and \<open>kickOut\<close>.
\<close>

record ('k, 'v) lfu_aging_state = "('k, 'v) lfu_state" +
  aging_maxAverageNum :: int
  aging_curTotalNum :: int
  aging_curAverageNum :: int

definition KLfuAgingCache :: "int \<Rightarrow> int \<Rightarrow> ('k, 'v) lfu_aging_state" where
  "KLfuAgingCache capacity maxAverageNum =
     \<lparr>lfu_capacity = capacity, lfu_minFreq = INT8_MAX,
      lfu_nodeMap = [], lfu_freqToFreqList = [],
      aging_maxAverageNum = maxAverageNum, aging_curTotalNum = 0, aging_curAverageNum = 0\<rparr>"

text \<open>\<open>curTotalNum_ / nodeMap_.size()\<close>, an \<open>int\<close> by a \<open>size_t\<close>, stored into an \<open>int\<close>.\<close>

definition averageNum :: "int \<Rightarrow> nat \<Rightarrow> int" where
  "averageNum totalNum n = int_of_size_t (size_t_of_int totalNum div n)"

text \<open>
  The counters of the aging cache (\<open>freq\<close>, \<open>curTotalNum_\<close>, \<open>maxAverageNum_\<close>) are C++ \<open>int\<close>s
  of 32 bits. An \<open>int\<close> addition or subtraction whose result leaves the range is undefined:
  \<open>as_int\<close> is \<open>None\<close> there, and every operation of the aging cache that computes one
  returns \<open>None\<close> with it. (In the plain \<open>KLfuCache\<close> a frequency only grows by one per
  access; here a negative ceiling raises every frequency by half its size at each aging
  pass, and the limits are within reach of a few calls.)
\<close>

definition INT_MAX :: int where
  "INT_MAX = 2147483647"

definition INT_MIN :: int where
  "INT_MIN = - 2147483648"

definition as_int :: "int \<Rightarrow> int option" where
  "as_int x = (if INT_MIN \<le> x \<and> x \<le> INT_MAX then Some x else None)"

text \<open>
  \<open>updateMinFreq\<close>: start from \<open>INT8_MAX\<close>, take the minimum with the frequency of every
  bucket that is not empty, and fall back to 1 when the result is \<open>INT8_MAX\<close>.
\<close>

definition updateMinFreq :: "('k, 'v) lfu_aging_state \<Rightarrow> ('k, 'v) lfu_aging_state" where
  "updateMinFreq s =
     (let m = foldl (\<lambda>m (f, bucket). if bucket \<noteq> [] then min m f else m)
                INT8_MAX (lfu_freqToFreqList s)
      in s\<lparr>lfu_minFreq := (if m = INT8_MAX then 1 else m)\<rparr>)"

text \<open>
  The body of the loop of \<open>handleOverMaxAverageNum\<close>, for the node of one key:
  \<open>node->freq -= maxAverageNum_ / 2\<close>, then the floor of 1.
\<close>

definition lowerFreq :: "'k \<Rightarrow> ('k, 'v) lfu_aging_state \<Rightarrow> ('k, 'v) lfu_aging_state option" where
  "lowerFreq key s =
     (case map_of (lfu_nodeMap s) key of
        None \<Rightarrow> Some s
      | Some node \<Rightarrow>
          (case as_int (node_freq node - int_div (aging_maxAverageNum s) 2) of
             None \<Rightarrow> None
           | Some lowered \<Rightarrow>
               (let ftl1 = removeFromFreqList key (node_freq node) (lfu_freqToFreqList s);
                    freq = (if lowered < 1 then 1 else lowered)
                in Some (s\<lparr>lfu_nodeMap :=
                              AList.update key (node\<lparr>node_freq := freq\<rparr>) (lfu_nodeMap s),
                            lfu_freqToFreqList := addToFreqList key freq ftl1\<rparr>))))"

text \<open>The loop itself, over the keys in the order they are visited.\<close>

fun lowerAll ::
  "'k list \<Rightarrow> ('k, 'v) lfu_aging_state \<Rightarrow> ('k, 'v) lfu_aging_state option" where
  "lowerAll [] s = Some s"
| "lowerAll (key # keys) s =
     (case lowerFreq key s of None \<Rightarrow> None | Some s' \<Rightarrow> lowerAll keys s')"

text \<open>
  \<open>handleOverMaxAverageNum\<close> walks \<open>nodeMap_\<close> from \<open>begin()\<close> to \<open>end()\<close>. The order in which
  an \<open>unordered_map\<close> is walked is not specified; it decides the order of the nodes inside
  their new buckets, and so the next node to be evicted. The model takes it as the
  parameter \<open>walk\<close>, which gives for the content of the index the keys in the order of
  the walk.
\<close>

definition handleOverMaxAverageNum ::
  "(('k \<times> 'v lfu_node) list \<Rightarrow> 'k list) \<Rightarrow>
   ('k, 'v) lfu_aging_state \<Rightarrow> ('k, 'v) lfu_aging_state option" where
  "handleOverMaxAverageNum walk s =
     (if lfu_nodeMap s = [] then Some s
      else (case lowerAll (walk (lfu_nodeMap s)) s of
              None \<Rightarrow> None
            | Some s' \<Rightarrow> Some (updateMinFreq s')))"

definition addFreqNum ::
  "(('k \<times> 'v lfu_node) list \<Rightarrow> 'k list) \<Rightarrow>
   ('k, 'v) lfu_aging_state \<Rightarrow> ('k, 'v) lfu_aging_state option" where
  "addFreqNum walk s =
     (case as_int (aging_curTotalNum s + 1) of
        None \<Rightarrow> None
      | Some totalNum \<Rightarrow>
          (let average = (if lfu_nodeMap s = [] then 0
                          else averageNum totalNum (length (lfu_nodeMap s)));
               s1 = s\<lparr>aging_curTotalNum := totalNum, aging_curAverageNum := average\<rparr>
           in if average > aging_maxAverageNum s then handleOverMaxAverageNum walk s1
              else Some s1))"

definition decreaseFreqNum ::
  "int \<Rightarrow> ('k, 'v) lfu_aging_state \<Rightarrow> ('k, 'v) lfu_aging_state option" where
  "decreaseFreqNum num s =
     (case as_int (aging_curTotalNum s - num) of
        None \<Rightarrow> None
      | Some totalNum \<Rightarrow>
          Some (s\<lparr>aging_curTotalNum := totalNum,
                  aging_curAverageNum := (if lfu_nodeMap s = [] then 0
                                          else averageNum totalNum (length (lfu_nodeMap s)))\<rparr>))"

text \<open>
  The overriding \<open>kickOut\<close> reads the first node of the \<open>minFreq_\<close> bucket, calls
  \<open>KLfuCache::kickOut\<close> and takes the node's frequency off the total. When the map has no
  bucket for \<open>minFreq_\<close>, \<open>operator[]\<close> yields a null pointer and the call through it is
  undefined. When the bucket is there and empty, \<open>getFirstNode\<close> returns the tail sentinel:
  \<open>nodeMap_.erase(node->key)\<close> then reads the sentinel's key, which \<open>Node()\<close> never
  initialises, and whatever entry it erases stays linked in its bucket, a state this
  model cannot hold (its buckets name the nodes by the keys of the index). Both cases are
  \<open>None\<close>. The aging cache reaches them from its constructor: \<open>updateMinFreq\<close> sets
  \<open>minFreq_\<close> to 1 when no bucket below \<open>INT8_MAX\<close> has a node.
\<close>

definition aging_kickOut :: "('k, 'v) lfu_aging_state \<Rightarrow> ('k, 'v) lfu_aging_state option" where
  "aging_kickOut s =
     (case map_of (lfu_freqToFreqList s) (lfu_minFreq s) of
        Some (key # rest) \<Rightarrow>
          (case map_of (lfu_nodeMap s) key of
             Some node \<Rightarrow> decreaseFreqNum (node_freq node) (kickOut s)
           | None \<Rightarrow> None)
      | _ \<Rightarrow> None)"

text \<open>
  The overriding \<open>getInternal\<close> and \<open>putInternal\<close>: the base body, then \<open>addFreqNum\<close>. The
  increment \<open>node->freq++\<close> of the base body is undefined at \<open>INT_MAX\<close>.
\<close>

definition aging_getInternal ::
  "(('k \<times> 'v lfu_node) list \<Rightarrow> 'k list) \<Rightarrow> 'k \<Rightarrow> 'v \<Rightarrow>
   ('k, 'v) lfu_aging_state \<Rightarrow> ('v \<times> ('k, 'v) lfu_aging_state) option" where
  "aging_getInternal walk key value s =
     (case map_of (lfu_nodeMap s) key of
        None \<Rightarrow> None
      | Some node \<Rightarrow>
          (case as_int (node_freq node + 1) of
             None \<Rightarrow> None
           | Some freq \<Rightarrow>
               (case getInternal key value s of
                  (value', s') \<Rightarrow>
                    (case addFreqNum walk s' of
                       None \<Rightarrow> None
                     | Some s'' \<Rightarrow> Some (value', s'')))))"

definition aging_putInternal ::
  "(('k \<times> 'v lfu_node) list \<Rightarrow> 'k list) \<Rightarrow> 'k \<Rightarrow> 'v \<Rightarrow>
   ('k, 'v) lfu_aging_state \<Rightarrow> ('k, 'v) lfu_aging_state option" where
  "aging_putInternal walk key value s =
     (case (if int (length (lfu_nodeMap s)) = lfu_capacity s then aging_kickOut s else Some s) of
        None \<Rightarrow> None
      | Some s1 \<Rightarrow>
          addFreqNum walk
            (s1\<lparr>lfu_nodeMap :=
                   AList.update key \<lparr>node_freq = 1, node_value = value\<rparr> (lfu_nodeMap s1),
                 lfu_freqToFreqList := addToFreqList key 1 (lfu_freqToFreqList s1),
                 lfu_minFreq := min (lfu_minFreq s1) 1\<rparr>))"

text \<open>
  \<open>put\<close> and \<open>get(key, value)\<close> of the aging cache are the inherited \<open>KLfuCache::put\<close> and
  \<open>KLfuCache::get\<close>, whose calls of \<open>getInternal\<close> and \<open>putInternal\<close> reach the overriding
  functions.
\<close>

definition aging_put ::
  "(('k \<times> 'v lfu_node) list \<Rightarrow> 'k list) \<Rightarrow> 'k \<Rightarrow> 'v \<Rightarrow>
   ('k, 'v) lfu_aging_state \<Rightarrow> ('k, 'v) lfu_aging_state option" where
  "aging_put walk key value s =
     (if lfu_capacity s = 0 then Some s
      else (case map_of (lfu_nodeMap s) key of
              Some node \<Rightarrow>
                (case aging_getInternal walk key value
                        (s\<lparr>lfu_nodeMap :=
                             AList.update key (node\<lparr>node_value := value\<rparr>) (lfu_nodeMap s)\<rparr>) of
                   None \<Rightarrow> None
                 | Some (value', s') \<Rightarrow> Some s')
            | None \<Rightarrow> aging_putInternal walk key value s))"

definition aging_get ::
  "(('k \<times> 'v lfu_node) list \<Rightarrow> 'k list) \<Rightarrow> 'k \<Rightarrow> 'v \<Rightarrow>
   ('k, 'v) lfu_aging_state \<Rightarrow> (bool \<times> 'v \<times> ('k, 'v) lfu_aging_state) option" where
  "aging_get walk key value s =
     (case map_of (lfu_nodeMap s) key of
        Some node \<Rightarrow>
          (case aging_getInternal walk key value s of
             None \<Rightarrow> None
           | Some (value', s') \<Rightarrow> Some (True, value', s'))
      | None \<Rightarrow> Some (False, value, s))"

text \<open>Sequences of operations on an aging cache; \<open>None\<close> when an operation is undefined.\<close>

fun aging_step ::
  "(('k \<times> 'v lfu_node) list \<Rightarrow> 'k list) \<Rightarrow> ('k, 'v) lfu_aging_state \<Rightarrow>
   ('k, 'v) cache_op \<Rightarrow> ('k, 'v) lfu_aging_state option" where
  "aging_step walk s (CachePut k v) = aging_put walk k v s"
| "aging_step walk s (CacheGet k value) =
     (case aging_get walk k value s of None \<Rightarrow> None | Some (hit, value', s') \<Rightarrow> Some s')"

fun aging_run ::
  "(('k \<times> 'v lfu_node) list \<Rightarrow> 'k list) \<Rightarrow> ('k, 'v) lfu_aging_state \<Rightarrow>
   ('k, 'v) cache_op list \<Rightarrow> ('k, 'v) lfu_aging_state option" where
  "aging_run walk s [] = Some s"
| "aging_run walk s (op # ops) =
     (case aging_step walk s op of None \<Rightarrow> None | Some s' \<Rightarrow> aging_run walk s' ops)"

text \<open>
  States whose counters are away from the limits of \<open>int\<close>: a ceiling that is not
  negative, the running total between \<open>tlo\<close> and \<open>thi\<close>, and every frequency between 1 and
  \<open>hi\<close>. \<open>aging_small\<close> leaves room for two more accesses.
\<close>

definition aging_range :: "int \<Rightarrow> int \<Rightarrow> int \<Rightarrow> ('k, 'v) lfu_aging_state \<Rightarrow> bool" where
  "aging_range hi tlo thi s \<longleftrightarrow>
     0 \<le> aging_maxAverageNum s \<and> aging_maxAverageNum s \<le> INT_MAX \<and>
     tlo \<le> aging_curTotalNum s \<and> aging_curTotalNum s \<le> thi \<and>
     (\<forall>(key, node) \<in> set (lfu_nodeMap s). 1 \<le> node_freq node \<and> node_freq node \<le> hi)"

definition aging_small :: "('k, 'v) lfu_aging_state \<Rightarrow> bool" where
  "aging_small s \<longleftrightarrow> aging_range (INT_MAX - 2) 0 (INT_MAX - 2) s"

section \<open>The sharded caches: KHashLruCaches and KHashLfuCache\<close>

text \<open>
  Both constructors take the total capacity as a \<open>size_t\<close> and the shard count as an
  \<open>int\<close>; a count that is not positive is replaced by
  \<open>std::thread::hardware_concurrency()\<close>, a parameter of the model. The shard capacity
  is \<open>std::ceil(capacity / static_cast<double>(sliceNum_))\<close>, modelled with exact
  division (the \<open>double\<close> quotient rounds to a different integer only for capacities
  beyond 2^53), stored in a \<open>size_t\<close> and passed to a constructor that takes an \<open>int\<close>.
  \<open>std::hash<Key>\<close> is a parameter as well. \<open>Hash(key) % sliceNum_\<close> is undefined for a
  shard count of 0 (the hardware concurrency may be reported as 0), and the vector of
  shards is indexed without a check, which is undefined for an index that is not below
  its size (the count is negative when the hardware concurrency does not fit an \<open>int\<close>, and
  no shard is built then): \<open>put\<close> and \<open>get\<close> return \<open>None\<close> in both cases, and the sharded LFU
  cache also when its shard does.
\<close>

definition sliceSize :: "nat \<Rightarrow> int \<Rightarrow> nat" where
  "sliceSize capacity sliceNum = nat \<lceil>real capacity / real_of_int sliceNum\<rceil>"

record ('k, 'v) hash_lru_state =
  hlru_capacity :: nat
  hlru_sliceNum :: int
  hlru_lruSliceCaches :: "('k, 'v) lru_state list"

definition KHashLruCaches :: "nat \<Rightarrow> nat \<Rightarrow> int \<Rightarrow> ('k, 'v) hash_lru_state" where
  "KHashLruCaches hardware_concurrency capacity sliceNum =
     (let n = (if sliceNum > 0 then sliceNum else int_of_size_t hardware_concurrency)
      in \<lparr>hlru_capacity = capacity, hlru_sliceNum = n,
          hlru_lruSliceCaches =
            replicate (nat n) (KLruCache (int_of_size_t (sliceSize capacity n)))\<rparr>)"

definition hlru_put ::
  "('k \<Rightarrow> nat) \<Rightarrow> 'k \<Rightarrow> 'v \<Rightarrow> ('k, 'v) hash_lru_state \<Rightarrow> ('k, 'v) hash_lru_state option" where
  "hlru_put Hash key value s =
     (if hlru_sliceNum s = 0 then None
      else (let sliceIndex = Hash key mod size_t_of_int (hlru_sliceNum s)
            in if sliceIndex < length (hlru_lruSliceCaches s)
               then Some (s\<lparr>hlru_lruSliceCaches :=
                      (hlru_lruSliceCaches s)
                        [sliceIndex := lru_put key value (hlru_lruSliceCaches s ! sliceIndex)]\<rparr>)
               else None))"

definition hlru_get ::
  "('k \<Rightarrow> nat) \<Rightarrow> 'k \<Rightarrow> 'v \<Rightarrow> ('k, 'v) hash_lru_state \<Rightarrow>
   (bool \<times> 'v \<times> ('k, 'v) hash_lru_state) option" where
  "hlru_get Hash key value s =
     (if hlru_sliceNum s = 0 then None
      else (let sliceIndex = Hash key mod size_t_of_int (hlru_sliceNum s)
            in if sliceIndex < length (hlru_lruSliceCaches s)
               then (case lru_get key value (hlru_lruSliceCaches s ! sliceIndex) of
                       (hit, value', slice) \<Rightarrow>
                         Some (hit, value',
                               s\<lparr>hlru_lruSliceCaches :=
                                   (hlru_lruSliceCaches s)[sliceIndex := slice]\<rparr>))
               else None))"

record ('k, 'v) hash_lfu_state =
  hlfu_capacity :: nat
  hlfu_sliceNum :: int
  hlfu_lfuSliceCaches :: "('k, 'v) lfu_aging_state list"

definition KHashLfuCache :: "nat \<Rightarrow> nat \<Rightarrow> int \<Rightarrow> int \<Rightarrow> ('k, 'v) hash_lfu_state" where
  "KHashLfuCache hardware_concurrency capacity sliceNum maxAverageNum =
     (let n = (if sliceNum > 0 then sliceNum else int_of_size_t hardware_concurrency)
      in \<lparr>hlfu_capacity = capacity, hlfu_sliceNum = n,
          hlfu_lfuSliceCaches =
            replicate (nat n)
              (KLfuAgingCache (int_of_size_t (sliceSize capacity n)) maxAverageNum)\<rparr>)"

definition hlfu_put ::
  "(('k \<times> 'v lfu_node) list \<Rightarrow> 'k list) \<Rightarrow> ('k \<Rightarrow> nat) \<Rightarrow> 'k \<Rightarrow> 'v \<Rightarrow>
   ('k, 'v) hash_lfu_state \<Rightarrow> ('k, 'v) hash_lfu_state option" where
  "hlfu_put walk Hash key value s =
     (if hlfu_sliceNum s = 0 then None
      else (let sliceIndex = Hash key mod size_t_of_int (hlfu_sliceNum s)
            in if sliceIndex < length (hlfu_lfuSliceCaches s)
               then (case aging_put walk key value (hlfu_lfuSliceCaches s ! sliceIndex) of
                       None \<Rightarrow> None
                     | Some slice \<Rightarrow>
                         Some (s\<lparr>hlfu_lfuSliceCaches :=
                                 (hlfu_lfuSliceCaches s)[sliceIndex := slice]\<rparr>))
               else None))"

definition hlfu_get ::
  "(('k \<times> 'v lfu_node) list \<Rightarrow> 'k list) \<Rightarrow> ('k \<Rightarrow> nat) \<Rightarrow> 'k \<Rightarrow> 'v \<Rightarrow>
   ('k, 'v) hash_lfu_state \<Rightarrow> (bool \<times> 'v \<times> ('k, 'v) hash_lfu_state) option" where
  "hlfu_get walk Hash key value s =
     (if hlfu_sliceNum s = 0 then None
      else (let sliceIndex = Hash key mod size_t_of_int (hlfu_sliceNum s)
            in if sliceIndex < length (hlfu_lfuSliceCaches s)
               then (case aging_get walk key value (hlfu_lfuSliceCaches s ! sliceIndex) of
                       None \<Rightarrow> None
                     | Some (hit, value', slice) \<Rightarrow>
                         Some (hit, value',
                               s\<lparr>hlfu_lfuSliceCaches :=
                                   (hlfu_lfuSliceCaches s)[sliceIndex := slice]\<rparr>))
               else None))"

text \<open>
  Sequences of operations on the sharded LRU cache; \<open>None\<close> when an operation is undefined.
\<close>

fun hlru_step ::
  "('k \<Rightarrow> nat) \<Rightarrow> ('k, 'v) hash_lru_state \<Rightarrow> ('k, 'v) cache_op \<Rightarrow>
   ('k, 'v) hash_lru_state option" where
  "hlru_step Hash s (CachePut k v) = hlru_put Hash k v s"
| "hlru_step Hash s (CacheGet k value) = map_option (\<lambda>r. snd (snd r)) (hlru_get Hash k value s)"

fun hlru_run ::
  "('k \<Rightarrow> nat) \<Rightarrow> ('k, 'v) hash_lru_state \<Rightarrow> ('k, 'v) cache_op list \<Rightarrow>
   ('k, 'v) hash_lru_state option" where
  "hlru_run Hash s [] = Some s"
| "hlru_run Hash s (op # ops) =
     (case hlru_step Hash s op of None \<Rightarrow> None | Some s' \<Rightarrow> hlru_run Hash s' ops)"

text \<open>
  What the constructor sets up and no operation changes: the shard count, the number
  of shards and the capacity of each shard.
\<close>

definition hlru_shape :: "int \<Rightarrow> int \<Rightarrow> ('k, 'v) hash_lru_state \<Rightarrow> bool" where
  "hlru_shape n c s \<longleftrightarrow>
     hlru_sliceNum s = n \<and> length (hlru_lruSliceCaches s) = nat n \<and>
     (\<forall>slice \<in> set (hlru_lruSliceCaches s). lru_capacity slice = c)"

definition hlfu_shape :: "int \<Rightarrow> int \<Rightarrow> ('k, 'v) hash_lfu_state \<Rightarrow> bool" where
  "hlfu_shape n c s \<longleftrightarrow>
     hlfu_sliceNum s = n \<and> length (hlfu_lfuSliceCaches s) = nat n \<and>
     (\<forall>slice \<in> set (hlfu_lfuSliceCaches s). lfu_capacity slice = c)"

section \<open>The ARC cache: ArcLruPart, ArcLfuPart and KArcCache\<close>

text \<open>
  An \<open>ArcNode\<close> holds a key, a value and an access counter (1 on construction). As
  for the other engines a node is stored under its key. All capacities, thresholds
  and counters of the ARC classes are \<open>size_t\<close>, modelled as natural numbers: every
  decrement in the source is guarded by a test for 0, and the increments stay far
  below 2^64 (the two capacities add up to at most the constructor's argument, see
  \<open>arc_capacity_conserved\<close>).
\<close>

record 'v arc_node =
  an_value :: 'v
  an_accessCount :: nat

subsection \<open>ArcLruPart\<close>

text \<open>
  \<open>mainCache_\<close> and \<open>ghostCache_\<close> index two intrusive lists. New and refreshed nodes go
  to the front (behind \<open>mainHead_\<close>, \<open>ghostHead_\<close>), the victims are taken from the back
  (\<open>mainTail_->prev_\<close>, \<open>ghostTail_->prev_\<close>). The model keeps each list from head to
  tail and reads the index off it (\<open>find\<close> is \<open>map_of\<close>, \<open>size()\<close> the length); index and
  list agree as long as a list holds no key twice, which \<open>KArcCache\<close> sees to by
  clearing a key from both ghost lists before it touches the main lists.
\<close>

record ('k, 'v) arc_lru_part =
  alru_capacity :: nat
  alru_ghostCapacity :: nat
  alru_transformThreshold :: nat
  alru_main :: "('k \<times> 'v arc_node) list"
  alru_ghost :: "('k \<times> 'v arc_node) list"

definition ArcLruPart :: "nat \<Rightarrow> nat \<Rightarrow> ('k, 'v) arc_lru_part" where
  "ArcLruPart capacity transformThreshold =
     \<lparr>alru_capacity = capacity, alru_ghostCapacity = capacity,
      alru_transformThreshold = transformThreshold, alru_main = [], alru_ghost = []\<rparr>"

text \<open>\<open>removeOldestGhost\<close>: unlink \<open>ghostTail_->prev_\<close>, if there is one.\<close>

definition alru_removeOldestGhost :: "('k \<times> 'v arc_node) list \<Rightarrow> ('k \<times> 'v arc_node) list" where
  "alru_removeOldestGhost ghost = butlast ghost"

text \<open>
  \<open>evictLeastRecent\<close>: nothing on an empty main list; else the last main node leaves
  the main list, the oldest ghost makes room if the ghost list is full, and the node
  enters the ghost list at the front with its counter reset to 1.
\<close>

definition alru_evictLeastRecent :: "('k, 'v) arc_lru_part \<Rightarrow> ('k, 'v) arc_lru_part" where
  "alru_evictLeastRecent p =
     (if alru_main p = [] then p
      else (let leastRecent = last (alru_main p);
                ghost = (if length (alru_ghost p) \<ge> alru_ghostCapacity p
                         then alru_removeOldestGhost (alru_ghost p) else alru_ghost p)
            in p\<lparr>alru_main := butlast (alru_main p),
                 alru_ghost :=
                   (fst leastRecent, (snd leastRecent)\<lparr>an_accessCount := 1\<rparr>) # ghost\<rparr>))"

definition alru_addNewNode ::
  "'k \<Rightarrow> 'v \<Rightarrow> ('k, 'v) arc_lru_part \<Rightarrow> bool \<times> ('k, 'v) arc_lru_part" where
  "alru_addNewNode key value p =
     (let p1 = (if length (alru_main p) \<ge> alru_capacity p then alru_evictLeastRecent p else p)
      in (True, p1\<lparr>alru_main :=
                     (key, \<lparr>an_value = value, an_accessCount = 1\<rparr>) # alru_main p1\<rparr>))"

text \<open>
  \<open>updateNodeAccess\<close>: move the node to the front, count the access, and report
  whether the counter has reached the threshold. The node is returned with it.
\<close>

definition alru_updateNodeAccess ::
  "'k \<Rightarrow> 'v arc_node \<Rightarrow> ('k, 'v) arc_lru_part \<Rightarrow> bool \<times> ('k, 'v) arc_lru_part" where
  "alru_updateNodeAccess key node p =
     (let node' = node\<lparr>an_accessCount := an_accessCount node + 1\<rparr>
      in (an_accessCount node' \<ge> alru_transformThreshold p,
          p\<lparr>alru_main := (key, node') # AList.delete key (alru_main p)\<rparr>))"

text \<open>
  \<open>bool put(Key, Value)\<close>: for a key in the main list \<open>updateNodeAccess\<close>, then
  \<open>setValue\<close> on its node; the result says whether the node should move to the LFU
  part. For a new key the result of \<open>addNewNode\<close>, which is true.
\<close>

definition alru_put :: "'k \<Rightarrow> 'v \<Rightarrow> ('k, 'v) arc_lru_part \<Rightarrow> bool \<times> ('k, 'v) arc_lru_part" where
  "alru_put key value p =
     (if alru_capacity p = 0 then (False, p)
      else (case map_of (alru_main p) key of
              Some node \<Rightarrow>
                (case alru_updateNodeAccess key node p of
                   (shouldPromote, p1) \<Rightarrow>
                     (shouldPromote,
                      p1\<lparr>alru_main :=
                           AList.map_entry key (\<lambda>n. n\<lparr>an_value := value\<rparr>) (alru_main p1)\<rparr>))
            | None \<Rightarrow> alru_addNewNode key value p))"

text \<open>
  \<open>bool get(Key, Value& value, bool& shouldTransform)\<close>: hit flag, the two reference
  parameters after the call, and the new state.
\<close>

definition alru_get ::
  "'k \<Rightarrow> 'v \<Rightarrow> bool \<Rightarrow> ('k, 'v) arc_lru_part \<Rightarrow> bool \<times> 'v \<times> bool \<times> ('k, 'v) arc_lru_part" where
  "alru_get key value shouldTransform p =
     (case map_of (alru_main p) key of
        Some node \<Rightarrow>
          (case alru_updateNodeAccess key node p of
             (shouldTransform', p1) \<Rightarrow> (True, an_value node, shouldTransform', p1))
      | None \<Rightarrow> (False, value, shouldTransform, p))"

text \<open>
  \<open>bool checkGhost(Key, Value& ghostValue)\<close>: \<open>Some\<close> of the ghost's value when the key
  is in the ghost list (the source returns true and has assigned \<open>ghostValue\<close>), and
  the ghost entry is removed.
\<close>

definition alru_checkGhost :: "'k \<Rightarrow> ('k, 'v) arc_lru_part \<Rightarrow> 'v option \<times> ('k, 'v) arc_lru_part" where
  "alru_checkGhost key p =
     (case map_of (alru_ghost p) key of
        Some node \<Rightarrow> (Some (an_value node), p\<lparr>alru_ghost := AList.delete key (alru_ghost p)\<rparr>)
      | None \<Rightarrow> (None, p))"

definition alru_increaseCapacity :: "('k, 'v) arc_lru_part \<Rightarrow> ('k, 'v) arc_lru_part" where
  "alru_increaseCapacity p = p\<lparr>alru_capacity := alru_capacity p + 1\<rparr>"

definition alru_decreaseCapacity :: "('k, 'v) arc_lru_part \<Rightarrow> bool \<times> ('k, 'v) arc_lru_part" where
  "alru_decreaseCapacity p =
     (if alru_capacity p \<le> 0 then (False, p)
      else (let p1 = (if length (alru_main p) = alru_capacity p
                      then alru_evictLeastRecent p else p)
            in (True, p1\<lparr>alru_capacity := alru_capacity p1 - 1\<rparr>)))"

definition alru_remove :: "'k \<Rightarrow> ('k, 'v) arc_lru_part \<Rightarrow> ('k, 'v) arc_lru_part" where
  "alru_remove key p =
     (case map_of (alru_main p) key of
        Some node \<Rightarrow> p\<lparr>alru_main := AList.delete key (alru_main p)\<rparr>
      | None \<Rightarrow> p)"

definition alru_existsInMain :: "'k \<Rightarrow> ('k, 'v) arc_lru_part \<Rightarrow> bool" where
  "alru_existsInMain key p = (map_of (alru_main p) key \<noteq> None)"

subsection \<open>ArcLfuPart\<close>

text \<open>
  \<open>mainCache_\<close> is the index (key to node); \<open>freqMap_\<close> is a \<open>std::map\<close> from a frequency
  to the \<open>std::list\<close> of the nodes with that access count, appended at the back and
  evicted from the front; a bucket that becomes empty is erased. The model keeps
  each bucket as the keys of its nodes. The ghost list grows at the tail
  (\<open>ghostTail_\<close>) and loses its oldest entry at the head; it is kept from head to tail
  with the index read off it.
\<close>

record ('k, 'v) arc_lfu_part =
  alfu_capacity :: nat
  alfu_ghostCapacity :: nat
  alfu_transformThreshold :: nat
  alfu_minFreq :: nat
  alfu_mainCache :: "('k \<times> 'v arc_node) list"
  alfu_freqMap :: "(nat \<times> 'k list) list"
  alfu_ghost :: "('k \<times> 'v arc_node) list"

definition ArcLfuPart :: "nat \<Rightarrow> nat \<Rightarrow> ('k, 'v) arc_lfu_part" where
  "ArcLfuPart capacity transformThreshold =
     \<lparr>alfu_capacity = capacity, alfu_ghostCapacity = capacity,
      alfu_transformThreshold = transformThreshold, alfu_minFreq = 0,
      alfu_mainCache = [], alfu_freqMap = [], alfu_ghost = []\<rparr>"

text \<open>The list \<open>freqMap_[f]\<close> would give, without creating it.\<close>

definition alfu_bucket :: "nat \<Rightarrow> (nat \<times> 'k list) list \<Rightarrow> 'k list" where
  "alfu_bucket f fm = (case map_of fm f of None \<Rightarrow> [] | Some bucket \<Rightarrow> bucket)"

text \<open>\<open>removeOldestGhost\<close>: unlink \<open>ghostHead_->next_\<close>, if there is one.\<close>

definition alfu_removeOldestGhost :: "('k \<times> 'v arc_node) list \<Rightarrow> ('k \<times> 'v arc_node) list" where
  "alfu_removeOldestGhost ghost = (case ghost of [] \<Rightarrow> [] | oldest # rest \<Rightarrow> rest)"

text \<open>
  \<open>evictLeastFrequent\<close>. \<open>freqMap_[minFreq_]\<close> creates an empty bucket when the map has
  none. \<open>freqMap_.begin()->first\<close> is the smallest frequency in the map.
\<close>

definition alfu_evictLeastFrequent :: "('k, 'v) arc_lfu_part \<Rightarrow> ('k, 'v) arc_lfu_part" where
  "alfu_evictLeastFrequent p =
     (if alfu_freqMap p = [] then p
      else (case map_of (alfu_freqMap p) (alfu_minFreq p) of
              None \<Rightarrow> p\<lparr>alfu_freqMap := AList.update (alfu_minFreq p) [] (alfu_freqMap p)\<rparr>
            | Some [] \<Rightarrow> p
            | Some (leastKey # rest) \<Rightarrow>
                (case map_of (alfu_mainCache p) leastKey of
                   None \<Rightarrow> p
                 | Some leastNode \<Rightarrow>
                     (let fm = (if rest = [] then AList.delete (alfu_minFreq p) (alfu_freqMap p)
                                else AList.update (alfu_minFreq p) rest (alfu_freqMap p));
                          minFreq = (if rest = [] \<and> fm \<noteq> [] then Min (fst ` set fm)
                                     else alfu_minFreq p);
                          ghost = (if length (alfu_ghost p) \<ge> alfu_ghostCapacity p
                                   then alfu_removeOldestGhost (alfu_ghost p) else alfu_ghost p)
                      in p\<lparr>alfu_freqMap := fm, alfu_minFreq := minFreq,
                           alfu_ghost := ghost @ [(leastKey, leastNode)],
                           alfu_mainCache := AList.delete leastKey (alfu_mainCache p)\<rparr>))))"

text \<open>
  \<open>updateNodeFrequency\<close>: count the access, take the node out of the bucket of its old
  count (erasing the bucket, and advancing \<open>minFreq_\<close>, when it was the last one) and
  append it to the bucket of the new count.
\<close>

definition alfu_updateNodeFrequency ::
  "'k \<Rightarrow> 'v arc_node \<Rightarrow> ('k, 'v) arc_lfu_part \<Rightarrow> ('k, 'v) arc_lfu_part" where
  "alfu_updateNodeFrequency key node p =
     (let oldFreq = an_accessCount node;
          newFreq = oldFreq + 1;
          oldList = removeAll key (alfu_bucket oldFreq (alfu_freqMap p));
          fm1 = (if oldList = [] then AList.delete oldFreq (alfu_freqMap p)
                 else AList.update oldFreq oldList (alfu_freqMap p));
          minFreq = (if oldList = [] \<and> oldFreq = alfu_minFreq p then newFreq
                     else alfu_minFreq p);
          fm2 = AList.update newFreq (alfu_bucket newFreq fm1 @ [key]) fm1
      in p\<lparr>alfu_mainCache :=
             AList.update key (node\<lparr>an_accessCount := newFreq\<rparr>) (alfu_mainCache p),
           alfu_freqMap := fm2, alfu_minFreq := minFreq\<rparr>)"

definition alfu_addNewNode ::
  "'k \<Rightarrow> 'v \<Rightarrow> ('k, 'v) arc_lfu_part \<Rightarrow> bool \<times> ('k, 'v) arc_lfu_part" where
  "alfu_addNewNode key value p =
     (let p1 = (if length (alfu_mainCache p) \<ge> alfu_capacity p
                then alfu_evictLeastFrequent p else p)
      in (True,
          p1\<lparr>alfu_mainCache :=
                AList.update key \<lparr>an_value = value, an_accessCount = 1\<rparr> (alfu_mainCache p1),
              alfu_freqMap :=
                AList.update 1 (alfu_bucket 1 (alfu_freqMap p1) @ [key]) (alfu_freqMap p1),
              alfu_minFreq := 1\<rparr>))"

definition alfu_put :: "'k \<Rightarrow> 'v \<Rightarrow> ('k, 'v) arc_lfu_part \<Rightarrow> bool \<times> ('k, 'v) arc_lfu_part" where
  "alfu_put key value p =
     (if alfu_capacity p = 0 then (False, p)
      else (case map_of (alfu_mainCache p) key of
              Some node \<Rightarrow>
                (True, alfu_updateNodeFrequency key (node\<lparr>an_value := value\<rparr>) p)
            | None \<Rightarrow> alfu_addNewNode key value p))"

definition alfu_get :: "'k \<Rightarrow> 'v \<Rightarrow> ('k, 'v) arc_lfu_part \<Rightarrow> bool \<times> 'v \<times> ('k, 'v) arc_lfu_part" where
  "alfu_get key value p =
     (case map_of (alfu_mainCache p) key of
        Some node \<Rightarrow> (True, an_value node, alfu_updateNodeFrequency key node p)
      | None \<Rightarrow> (False, value, p))"

definition alfu_checkGhost :: "'k \<Rightarrow> ('k, 'v) arc_lfu_part \<Rightarrow> 'v option \<times> ('k, 'v) arc_lfu_part" where
  "alfu_checkGhost key p =
     (case map_of (alfu_ghost p) key of
        Some node \<Rightarrow> (Some (an_value node), p\<lparr>alfu_ghost := AList.delete key (alfu_ghost p)\<rparr>)
      | None \<Rightarrow> (None, p))"

definition alfu_increaseCapacity :: "('k, 'v) arc_lfu_part \<Rightarrow> ('k, 'v) arc_lfu_part" where
  "alfu_increaseCapacity p = p\<lparr>alfu_capacity := alfu_capacity p + 1\<rparr>"

definition alfu_decreaseCapacity :: "('k, 'v) arc_lfu_part \<Rightarrow> bool \<times> ('k, 'v) arc_lfu_part" where
  "alfu_decreaseCapacity p =
     (if alfu_capacity p \<le> 0 then (False, p)
      else (let p1 = (if length (alfu_mainCache p) = alfu_capacity p
                      then alfu_evictLeastFrequent p else p)
            in (True, p1\<lparr>alfu_capacity := alfu_capacity p1 - 1\<rparr>)))"

definition alfu_existsInMain :: "'k \<Rightarrow> ('k, 'v) arc_lfu_part \<Rightarrow> bool" where
  "alfu_existsInMain key p = (map_of (alfu_mainCache p) key \<noteq> None)"

subsection \<open>KArcCache\<close>

record ('k, 'v) arc_state =
  arc_capacity :: nat
  arc_transformThreshold :: nat
  arc_lruPart :: "('k, 'v) arc_lru_part"
  arc_lfuPart :: "('k, 'v) arc_lfu_part"

definition KArcCache :: "nat \<Rightarrow> nat \<Rightarrow> ('k, 'v) arc_state" where
  "KArcCache capacity transformThreshold =
     \<lparr>arc_capacity = capacity, arc_transformThreshold = transformThreshold,
      arc_lruPart = ArcLruPart (capacity div 2) transformThreshold,
      arc_lfuPart = ArcLfuPart (capacity div 2) transformThreshold\<rparr>"

text \<open>
  \<open>bool checkGhostCaches(Key, Value& gValue)\<close> is two \<open>if\<close> statements in a row, one for
  each ghost list: a hit in a part's ghost list asks the other part to give up one
  unit of capacity, and the part that had the hit grows only if that succeeded. The
  results are \<open>Some\<close> of the content of \<open>gValue\<close> when the source returns true (it has
  assigned \<open>gValue\<close> then), else \<open>None\<close>.
\<close>

definition checkLruGhost :: "'k \<Rightarrow> ('k, 'v) arc_state \<Rightarrow> 'v option \<times> ('k, 'v) arc_state" where
  "checkLruGhost key s =
     (case alru_checkGhost key (arc_lruPart s) of
        (None, lru1) \<Rightarrow> (None, s)
      | (Some gValue, lru1) \<Rightarrow>
          (case alfu_decreaseCapacity (arc_lfuPart s) of
             (decreased, lfu1) \<Rightarrow>
               (Some gValue,
                s\<lparr>arc_lruPart := (if decreased then alru_increaseCapacity lru1 else lru1),
                  arc_lfuPart := lfu1\<rparr>)))"

definition checkLfuGhost :: "'k \<Rightarrow> ('k, 'v) arc_state \<Rightarrow> 'v option \<times> ('k, 'v) arc_state" where
  "checkLfuGhost key s =
     (case alfu_checkGhost key (arc_lfuPart s) of
        (None, lfu1) \<Rightarrow> (None, s)
      | (Some gValue, lfu1) \<Rightarrow>
          (case alru_decreaseCapacity (arc_lruPart s) of
             (decreased, lru1) \<Rightarrow>
               (Some gValue,
                s\<lparr>arc_lruPart := lru1,
                  arc_lfuPart := (if decreased then alfu_increaseCapacity lfu1 else lfu1)\<rparr>)))"

definition checkGhostCaches :: "'k \<Rightarrow> ('k, 'v) arc_state \<Rightarrow> 'v option \<times> ('k, 'v) arc_state" where
  "checkGhostCaches key s =
     (case checkLruGhost key s of
        (g1, s1) \<Rightarrow>
          (case checkLfuGhost key s1 of
             (g2, s2) \<Rightarrow> (if g2 \<noteq> None then g2 else g1, s2)))"

definition arc_put :: "'k \<Rightarrow> 'v \<Rightarrow> ('k, 'v) arc_state \<Rightarrow> ('k, 'v) arc_state" where
  "arc_put key value s =
     (let (inGhost, s1) = checkGhostCaches key s;
          inLru = alru_existsInMain key (arc_lruPart s1);
          inLfu = alfu_existsInMain key (arc_lfuPart s1)
      in if inLru \<or> inLfu then
           (let lfu1 = (if inLfu then snd (alfu_put key value (arc_lfuPart s1))
                        else arc_lfuPart s1)
            in if inLru then
                 (case alru_put key value (arc_lruPart s1) of
                    (shouldTransform, lru1) \<Rightarrow>
                      if shouldTransform
                      then s1\<lparr>arc_lruPart := alru_remove key lru1,
                              arc_lfuPart := snd (alfu_put key value lfu1)\<rparr>
                      else s1\<lparr>arc_lruPart := lru1, arc_lfuPart := lfu1\<rparr>)
               else s1\<lparr>arc_lfuPart := lfu1\<rparr>)
         else s1\<lparr>arc_lruPart := snd (alru_put key value (arc_lruPart s1))\<rparr>)"

definition arc_get :: "'k \<Rightarrow> 'v \<Rightarrow> ('k, 'v) arc_state \<Rightarrow> bool \<times> 'v \<times> ('k, 'v) arc_state" where
  "arc_get key value s =
     (let (inGhost, s1) = checkGhostCaches key s;
          inLru = alru_existsInMain key (arc_lruPart s1);
          inLfu = alfu_existsInMain key (arc_lfuPart s1)
      in if inLru \<or> inLfu then
           (let (value1, lfu1) =
                  (if inLfu then snd (alfu_get key value (arc_lfuPart s1))
                   else (value, arc_lfuPart s1))
            in if inLru then
                 (case alru_get key value1 False (arc_lruPart s1) of
                    (found, value2, shouldTransform, lru1) \<Rightarrow>
                      if shouldTransform
                      then (True, value2,
                            s1\<lparr>arc_lruPart := alru_remove key lru1,
                               arc_lfuPart := snd (alfu_put key value2 lfu1)\<rparr>)
                      else (True, value2, s1\<lparr>arc_lruPart := lru1, arc_lfuPart := lfu1\<rparr>))
               else (True, value1, s1\<lparr>arc_lfuPart := lfu1\<rparr>))
         else (case inGhost of
                 Some ghostValue \<Rightarrow>
                   (False, value,
                    s1\<lparr>arc_lruPart := snd (alru_put key ghostValue (arc_lruPart s1))\<rparr>)
               | None \<Rightarrow> (False, value, s1)))"

fun arc_step :: "('k, 'v) arc_state \<Rightarrow> ('k, 'v) cache_op \<Rightarrow> ('k, 'v) arc_state" where
  "arc_step s (CachePut k v) = arc_put k v s"
| "arc_step s (CacheGet k value) = snd (snd (arc_get k value s))"

definition arc_run :: "nat \<Rightarrow> nat \<Rightarrow> ('k, 'v) cache_op list \<Rightarrow> ('k, 'v) arc_state" where
  "arc_run capacity transformThreshold ops =
     foldl arc_step (KArcCache capacity transformThreshold) ops"

text \<open>
  What the states of the two parts have in every run of the coordinator. For the LRU
  part: no more nodes than capacity. For the LFU part: index and buckets hold the same
  nodes, each in the bucket of its access count and only once; the map has no empty
  bucket; the counts are at least 1; \<open>minFreq_\<close> is the smallest frequency in the map
  (when there is a node); and no more nodes than capacity.
\<close>

definition alru_inv :: "('k, 'v) arc_lru_part \<Rightarrow> bool" where
  "alru_inv p \<longleftrightarrow> length (alru_main p) \<le> alru_capacity p"

definition alfu_struct :: "('k, 'v) arc_lfu_part \<Rightarrow> bool" where
  "alfu_struct p \<longleftrightarrow>
     distinct (map fst (alfu_mainCache p)) \<and>
     distinct (map fst (alfu_freqMap p)) \<and>
     (\<forall>f key. key \<in> set (alfu_bucket f (alfu_freqMap p)) \<longleftrightarrow>
        (\<exists>node. map_of (alfu_mainCache p) key = Some node \<and> an_accessCount node = f)) \<and>
     (\<forall>f. distinct (alfu_bucket f (alfu_freqMap p))) \<and>
     (\<forall>f bucket. map_of (alfu_freqMap p) f = Some bucket \<longrightarrow> bucket \<noteq> []) \<and>
     (\<forall>key node. map_of (alfu_mainCache p) key = Some node \<longrightarrow> 1 \<le> an_accessCount node)"

definition alfu_minFreq_ok :: "('k, 'v) arc_lfu_part \<Rightarrow> bool" where
  "alfu_minFreq_ok p \<longleftrightarrow>
     alfu_bucket (alfu_minFreq p) (alfu_freqMap p) \<noteq> [] \<and>
     (\<forall>f. alfu_bucket f (alfu_freqMap p) \<noteq> [] \<longrightarrow> alfu_minFreq p \<le> f)"

definition alfu_inv :: "('k, 'v) arc_lfu_part \<Rightarrow> bool" where
  "alfu_inv p \<longleftrightarrow>
     alfu_struct p \<and> (alfu_mainCache p \<noteq> [] \<longrightarrow> alfu_minFreq_ok p) \<and>
     length (alfu_mainCache p) \<le> alfu_capacity p"

definition arc_inv :: "('k, 'v) arc_state \<Rightarrow> bool" where
  "arc_inv s \<longleftrightarrow> alru_inv (arc_lruPart s) \<and> alfu_inv (arc_lfuPart s)"

text \<open>
  Where a key can be in a run of the coordinator: the LRU main list names each key
  once, no key is in both main parts, and no key of a main part is in a ghost list.
  \<open>arc_ghostFree\<close> says that neither ghost list holds the key.
\<close>

definition arc_excl :: "('k, 'v) arc_state \<Rightarrow> bool" where
  "arc_excl s \<longleftrightarrow>
     distinct (map fst (alru_main (arc_lruPart s))) \<and>
     fst ` set (alru_main (arc_lruPart s)) \<inter> fst ` set (alfu_mainCache (arc_lfuPart s)) = {} \<and>
     (fst ` set (alru_main (arc_lruPart s)) \<union> fst ` set (alfu_mainCache (arc_lfuPart s))) \<inter>
       (fst ` set (alru_ghost (arc_lruPart s)) \<union> fst ` set (alfu_ghost (arc_lfuPart s))) = {}"

definition arc_ghostFree :: "'k \<Rightarrow> ('k, 'v) arc_state \<Rightarrow> bool" where
  "arc_ghostFree key s \<longleftrightarrow>
     map_of (alru_ghost (arc_lruPart s)) key = None \<and>
     map_of (alfu_ghost (arc_lfuPart s)) key = None"

section \<open>The overloads \<open>Value get(Key key)\<close>\<close>

text \<open>
  Every cache has, beside \<open>bool get(Key key, Value& value)\<close>, the overload that returns the
  value: it declares a local \<open>value\<close>, calls the other overload on it and returns it
  (\<open>lru_get_value\<close> above is the one of \<open>KLruCache\<close>). The content of the local before the
  call is the parameter \<open>dflt\<close>: \<open>KLruCache\<close> and \<open>KArcCache\<close> value-initialise it
  (\<open>Value value{}\<close>), \<open>KLfuCache\<close> and the two sharded caches default-initialise it
  (\<open>Value value;\<close>), which leaves a scalar \<open>Value\<close> indeterminate; it is what the overload
  returns on a miss.
\<close>

definition lfu_get_value :: "'v \<Rightarrow> 'k \<Rightarrow> ('k, 'v) lfu_state \<Rightarrow> 'v \<times> ('k, 'v) lfu_state" where
  "lfu_get_value dflt key s = snd (lfu_get key dflt s)"

definition aging_get_value ::
  "(('k \<times> 'v lfu_node) list \<Rightarrow> 'k list) \<Rightarrow> 'v \<Rightarrow> 'k \<Rightarrow>
   ('k, 'v) lfu_aging_state \<Rightarrow> ('v \<times> ('k, 'v) lfu_aging_state) option" where
  "aging_get_value walk dflt key s = map_option snd (aging_get walk key dflt s)"

definition hlru_get_value ::
  "('k \<Rightarrow> nat) \<Rightarrow> 'v \<Rightarrow> 'k \<Rightarrow> ('k, 'v) hash_lru_state \<Rightarrow>
   ('v \<times> ('k, 'v) hash_lru_state) option" where
  "hlru_get_value Hash dflt key s = map_option snd (hlru_get Hash key dflt s)"

definition hlfu_get_value ::
  "(('k \<times> 'v lfu_node) list \<Rightarrow> 'k list) \<Rightarrow> ('k \<Rightarrow> nat) \<Rightarrow> 'v \<Rightarrow> 'k \<Rightarrow>
   ('k, 'v) hash_lfu_state \<Rightarrow> ('v \<times> ('k, 'v) hash_lfu_state) option" where
  "hlfu_get_value walk Hash dflt key s = map_option snd (hlfu_get walk Hash key dflt s)"

definition arc_get_value :: "'v \<Rightarrow> 'k \<Rightarrow> ('k, 'v) arc_state \<Rightarrow> 'v \<times> ('k, 'v) arc_state" where
  "arc_get_value dflt key s = snd (arc_get key dflt s)"

text \<open>
  \<open>KLruKCache::get(Key key)\<close> locks \<open>mutex_\<close> with a \<open>lock_guard\<close> and, holding it, calls
  \<open>get(key, value)\<close>, which locks the same \<open>mutex_\<close> first thing. \<open>std::mutex\<close> is not
  recursive: locking it in the thread that owns it is undefined (in practice the call
  never returns). The overload has no result on any key in any state.
\<close>

definition lruk_get_value :: "'k \<Rightarrow> ('k, 'v) lruk_state \<Rightarrow> ('v \<times> ('k, 'v) lruk_state) option" where
  "lruk_get_value key s = None"

section \<open>Construction\<close>

text \<open>
  No constructor of the repository checks its arguments: there is no \<open>throw\<close>, no
  assertion and no error state, and a constructor cannot return a value. Read as a
  function into results that could be an error, each constructor yields an object for
  every capacity its parameter type admits (\<open>int\<close> for \<open>KLruCache\<close>, \<open>KLruKCache\<close>,
  \<open>KLfuCache\<close> and \<open>KLfuAgingCache\<close>; the sharded caches and \<open>KArcCache\<close> take a \<open>size_t\<close>,
  which has no negative values).
\<close>

datatype 'a construction = ConfigurationError | Constructed 'a

definition construct_KLruCache :: "int \<Rightarrow> ('k, 'v) lru_state construction" where
  "construct_KLruCache capacity = Constructed (KLruCache capacity)"

definition construct_KLruKCache :: "int \<Rightarrow> int \<Rightarrow> int \<Rightarrow> ('k, 'v) lruk_state construction" where
  "construct_KLruKCache capacity historyCapacity k =
     Constructed (KLruKCache capacity historyCapacity k)"

definition construct_KLfuCache :: "int \<Rightarrow> ('k, 'v) lfu_state construction" where
  "construct_KLfuCache capacity = Constructed (KLfuCache capacity)"

definition construct_KLfuAgingCache :: "int \<Rightarrow> int \<Rightarrow> ('k, 'v) lfu_aging_state construction" where
  "construct_KLfuAgingCache capacity maxAverageNum =
     Constructed (KLfuAgingCache capacity maxAverageNum)"

section \<open>Properties of the LRU engine\<close>


lemma lru_inv_init: "lru_inv (KLruCache c)"
  by (simp add: lru_inv_def KLruCache_def)

lemma distinct_delete_append:
  "distinct (map fst ns) \<Longrightarrow> distinct (map fst (AList.delete k ns @ [(k, v)]))"
  by (simp add: distinct_delete delete_notin_dom)

lemma length_delete_present:
  "distinct (map fst ns) \<Longrightarrow> map_of ns k = Some v \<Longrightarrow> Suc (length (AList.delete k ns)) = length ns"
  by (induction ns) (auto simp: delete_id map_of_eq_None_iff[symmetric] split: if_splits)

lemma lru_inv_update:
  assumes "lru_inv s" "map_of (lru_nodes s) k = Some old"
  shows "lru_inv (s\<lparr>lru_nodes := updateExistingNode k v (lru_nodes s)\<rparr>)"
proof -
  from assms have d: "distinct (map fst (lru_nodes s))" by (simp add: lru_inv_def)
  have len: "Suc (length (AList.delete k (lru_nodes s))) = length (lru_nodes s)"
    using d assms(2) by (rule length_delete_present)
  have ne: "lru_nodes s \<noteq> []" using assms(2) by auto
  show ?thesis
    using assms(1) d len ne
    by (simp add: lru_inv_def updateExistingNode_def insertNode_def removeNode_def
        distinct_delete delete_notin_dom)
qed

lemma lru_inv_addNew:
  assumes "lru_inv s" "map_of (lru_nodes s) k = None" "0 < lru_capacity s"
  shows "lru_inv (addNewNode k v s)"
proof -
  from assms have d: "distinct (map fst (lru_nodes s))" by (simp add: lru_inv_def)
  from assms(2) have nk: "k \<notin> fst ` set (lru_nodes s)" by (simp add: map_of_eq_None_iff)
  show ?thesis
  proof (cases "lru_nodes s")
    case Nil
    then show ?thesis using assms
      by (simp add: lru_inv_def addNewNode_def insertNode_def evictLeastRecent_def Let_def)
  next
    case (Cons n rest)
    then show ?thesis using assms d nk
      by (auto simp: lru_inv_def addNewNode_def insertNode_def evictLeastRecent_def Let_def)
  qed
qed

lemma lru_inv_put: "lru_inv s \<Longrightarrow> lru_inv (lru_put k v s)"
  by (auto simp: lru_put_def lru_inv_update lru_inv_addNew split: option.splits)

lemma lru_inv_get: "lru_inv s \<Longrightarrow> lru_inv (snd (snd (lru_get k b s)))"
  unfolding lru_inv_def lru_get_def moveToMostRecent_def insertNode_def removeNode_def
  by (auto simp: distinct_delete delete_notin_dom length_delete_present split: option.splits dest: length_delete_present)

lemma lru_inv_remove: "lru_inv s \<Longrightarrow> lru_inv (lru_remove k s)"
  unfolding lru_inv_def lru_remove_def removeNode_def
  apply (auto simp: distinct_delete split: option.splits)
  using length_delete_le[of k "lru_nodes s"] by linarith

lemma lru_inv_step: "lru_inv s \<Longrightarrow> lru_inv (lru_step s op)"
  by (cases op) (simp_all add: lru_inv_put lru_inv_get lru_inv_remove)

lemma lru_inv_foldl: "lru_inv s \<Longrightarrow> lru_inv (foldl lru_step s ops)"
  by (induction ops arbitrary: s) (simp_all add: lru_inv_step)

lemma lru_inv_run: "lru_inv (lru_run c ops)"
  by (simp add: lru_run_def lru_inv_foldl lru_inv_init)


lemma lru_inv_contains_capacity:
  "lru_inv s \<Longrightarrow> lru_contains k s \<Longrightarrow> 0 < lru_capacity s"
  by (cases "lru_capacity s \<le> 0") (auto simp: lru_inv_def lru_contains_def)

lemma map_of_move_last:
  "map_of ns k = Some v \<Longrightarrow> map_of (AList.delete k ns @ [(k, v)]) = map_of ns"
  by (rule ext) (auto simp: map_add_def delete_conv' split: option.splits)

lemma map_of_evict_None:
  "map_of ns k = None \<Longrightarrow> map_of (evictLeastRecent ns) k = None"
  by (cases ns) (auto simp: evictLeastRecent_def split: if_splits)

lemma lru_put_capacity [simp]: "lru_capacity (lru_put k v s) = lru_capacity s"
  by (simp add: lru_put_def addNewNode_def Let_def split: option.splits)

lemma lru_get_capacity [simp]: "lru_capacity (snd (snd (lru_get k b s))) = lru_capacity s"
  by (simp add: lru_get_def split: option.splits)

lemma lru_remove_capacity [simp]: "lru_capacity (lru_remove k s) = lru_capacity s"
  by (simp add: lru_remove_def split: option.splits)

lemma lru_put_map_of:
  "0 < lru_capacity s \<Longrightarrow> map_of (lru_nodes (lru_put k v s)) k = Some v"
  by (auto simp: lru_put_def addNewNode_def updateExistingNode_def insertNode_def
      removeNode_def Let_def map_add_Some_iff map_of_evict_None delete_conv' split: option.splits)

lemma lru_get_hit:
  "map_of (lru_nodes s) k = Some v \<Longrightarrow>
   lru_get k b s = (True, v, s\<lparr>lru_nodes := AList.delete k (lru_nodes s) @ [(k, v)]\<rparr>)"
  by (simp add: lru_get_def moveToMostRecent_def insertNode_def removeNode_def)

lemma lru_get_miss: "map_of (lru_nodes s) k = None \<Longrightarrow> lru_get k b s = (False, b, s)"
  by (simp add: lru_get_def)

lemma lru_get_map_of:
  "map_of (lru_nodes (snd (snd (lru_get k b s)))) = map_of (lru_nodes s)"
  by (cases "map_of (lru_nodes s) k") (simp_all add: lru_get_hit lru_get_miss map_of_move_last del: map_of_append)

lemma lru_remove_map_of:
  "map_of (lru_nodes (lru_remove k s)) = (map_of (lru_nodes s))(k := None)"
  by (cases "map_of (lru_nodes s) k")
     (auto simp: lru_remove_def removeNode_def delete_conv')

lemma lru_put_then_get:
  "0 < lru_capacity s \<Longrightarrow> fst (lru_get k b (lru_put k v s)) = True \<and>
     fst (snd (lru_get k b (lru_put k v s))) = v"
  using lru_put_map_of[of s k v] by (simp add: lru_get_hit)

text \<open>
  Claim C9. In every state the LRU engine reaches from its constructor, \<open>put(key, value)\<close>
  on a key that is present rewrites that key's node and moves it to the most recent
  end, and does nothing else: the list afterwards is the old list without the key's
  node, followed by \<open>(key, value)\<close>. So nothing is evicted (same length, same key set,
  same capacity), the key now maps to the new value, and every other key keeps its
  value and its place relative to the others.
\<close>

theorem lru_put_present_frame:
  assumes "s = lru_run c ops" and "lru_contains k s"
  shows "lru_nodes (lru_put k v s) = AList.delete k (lru_nodes s) @ [(k, v)]
       \<and> lru_capacity (lru_put k v s) = lru_capacity s
       \<and> length (lru_nodes (lru_put k v s)) = length (lru_nodes s)
       \<and> fst ` set (lru_nodes (lru_put k v s)) = fst ` set (lru_nodes s)
       \<and> map_of (lru_nodes (lru_put k v s)) k = Some v
       \<and> (\<forall>k'. k' \<noteq> k \<longrightarrow>
             map_of (lru_nodes (lru_put k v s)) k' = map_of (lru_nodes s) k')"
proof -
  have inv: "lru_inv s" using assms(1) by (simp add: lru_inv_run)
  then have cap: "0 < lru_capacity s" using assms(2) by (rule lru_inv_contains_capacity)
  from assms(2) obtain old where old: "map_of (lru_nodes s) k = Some old"
    by (auto simp: lru_contains_def)
  have d: "distinct (map fst (lru_nodes s))" using inv by (simp add: lru_inv_def)
  have nodes: "lru_nodes (lru_put k v s) = AList.delete k (lru_nodes s) @ [(k, v)]"
    using cap old by (simp add: lru_put_def updateExistingNode_def insertNode_def removeNode_def)
  have capeq: "lru_capacity (lru_put k v s) = lru_capacity s"
    using cap old by (simp add: lru_put_def)
  have len: "length (lru_nodes (lru_put k v s)) = length (lru_nodes s)"
    using length_delete_present[OF d old] by (simp add: nodes)
  have kin: "k \<in> fst ` set (lru_nodes s)"
    using old by (metis map_of_eq_None_iff option.distinct(1))
  have dom: "fst ` set (lru_nodes (lru_put k v s)) = fst ` set (lru_nodes s)"
    using kin by (auto simp: nodes delete_keys image_Un simp flip: set_map)
  have val: "map_of (lru_nodes (lru_put k v s)) k = Some v"
    by (simp add: nodes map_add_Some_iff delete_conv')
  have others: "\<forall>k'. k' \<noteq> k \<longrightarrow>
      map_of (lru_nodes (lru_put k v s)) k' = map_of (lru_nodes s) k'"
    by (auto simp: nodes map_add_def split: option.splits)
  show ?thesis using nodes capeq len dom val others by blast
qed

theorem lru_put_present_frame_witness:
  "lru_contains (1::nat) (lru_run 2 [LruPut 1 (10::nat), LruPut 2 20])
   \<and> lru_nodes (lru_put 1 11 (lru_run 2 [LruPut (1::nat) (10::nat), LruPut 2 20]))
       = [(2, 20), (1, 11)]"
  using lru_put_present_frame[of "lru_run 2 [LruPut (1::nat) (10::nat), LruPut 2 20]" 2
      "[LruPut 1 10, LruPut 2 20]" 1 11]
  by (simp add: lru_run_def KLruCache_def lru_put_def addNewNode_def insertNode_def
      lru_contains_def)

section \<open>Properties of the LRU-K cache\<close>


lemma lruk_historyCount_absent:
  "\<not> lru_contains key (lruk_historyList s) \<Longrightarrow> lruk_historyCount key s = 0"
  by (simp add: lruk_historyCount_def lru_get_value_def lru_contains_def lru_get_miss)

lemma lru_get_value_fst:
  "fst (lru_get_value d k h) = (case map_of (lru_nodes h) k of None \<Rightarrow> d | Some c \<Rightarrow> c)"
  by (simp add: lru_get_value_def lru_get_def split: option.splits)

lemma lru_get_value_snd:
  "snd (lru_get_value d k h) = snd (snd (lru_get k d h))"
  by (simp add: lru_get_value_def)

lemma lruk_get_below:
  assumes "\<not> lru_contains key (lruk_main s)"
    and "lruk_historyCount key s + 1 < lruk_k s"
    and "0 < lru_capacity (lruk_historyList s)"
  shows "fst (lruk_get key b s) = False"
    and "lruk_main (snd (snd (lruk_get key b s))) = lruk_main s"
    and "lruk_k (snd (snd (lruk_get key b s))) = lruk_k s"
    and "lru_capacity (lruk_historyList (snd (snd (lruk_get key b s))))
          = lru_capacity (lruk_historyList s)"
    and "lruk_historyCount key (snd (snd (lruk_get key b s))) = lruk_historyCount key s + 1"
proof -
  obtain stored h1 where g: "lru_get_value 0 key (lruk_historyList s) = (stored, h1)"
    by (cases "lru_get_value 0 key (lruk_historyList s)")
  have st: "int stored = lruk_historyCount key s"
    using g by (simp add: lruk_historyCount_def)
  have h1: "h1 = snd (snd (lru_get key 0 (lruk_historyList s)))"
    using g lru_get_value_snd[of 0 key "lruk_historyList s"] by simp
  have cap1: "0 < lru_capacity h1" using assms(3) by (simp add: h1)
  have miss: "lru_get key b (lruk_main s) = (False, b, lruk_main s)"
    using assms(1) by (simp add: lru_contains_def lru_get_miss)
  have eq: "lruk_get key b s =
      (False, b, s\<lparr>lruk_main := lruk_main s,
                  lruk_historyList := lru_put key (nat (int stored + 1)) h1\<rparr>)"
    using assms(1,2) g st miss by (simp add: lruk_get_def Let_def)
  show "fst (lruk_get key b s) = False" by (simp add: eq)
  show "lruk_main (snd (snd (lruk_get key b s))) = lruk_main s" by (simp add: eq)
  show "lruk_k (snd (snd (lruk_get key b s))) = lruk_k s" by (simp add: eq)
  show "lru_capacity (lruk_historyList (snd (snd (lruk_get key b s))))
          = lru_capacity (lruk_historyList s)" by (simp add: eq h1)
  show "lruk_historyCount key (snd (snd (lruk_get key b s))) = lruk_historyCount key s + 1"
    using lru_put_map_of[OF cap1, of key "nat (int stored + 1)"] st
    by (simp add: eq lruk_historyCount_def lru_get_value_fst)
qed

lemma lruk_put_below:
  assumes "\<not> lru_contains key (lruk_main s)"
    and "lruk_historyCount key s + 1 < lruk_k s"
    and "0 < lru_capacity (lruk_historyList s)"
  shows "lruk_main (lruk_put key v s) = lruk_main s"
    and "lruk_k (lruk_put key v s) = lruk_k s"
    and "lru_capacity (lruk_historyList (lruk_put key v s))
          = lru_capacity (lruk_historyList s)"
    and "lruk_historyCount key (lruk_put key v s) = lruk_historyCount key s + 1"
proof -
  obtain stored h1 where g: "lru_get_value 0 key (lruk_historyList s) = (stored, h1)"
    by (cases "lru_get_value 0 key (lruk_historyList s)")
  have st: "int stored = lruk_historyCount key s"
    using g by (simp add: lruk_historyCount_def)
  have h1: "h1 = snd (snd (lru_get key 0 (lruk_historyList s)))"
    using g lru_get_value_snd[of 0 key "lruk_historyList s"] by simp
  have cap1: "0 < lru_capacity h1" using assms(3) by (simp add: h1)
  have eq: "lruk_put key v s =
      s\<lparr>lruk_historyList := lru_put key (nat (int stored + 1)) h1\<rparr>"
    using assms(1,2) g st by (simp add: lruk_put_def Let_def)
  show "lruk_main (lruk_put key v s) = lruk_main s" by (simp add: eq)
  show "lruk_k (lruk_put key v s) = lruk_k s" by (simp add: eq)
  show "lru_capacity (lruk_historyList (lruk_put key v s))
          = lru_capacity (lruk_historyList s)" by (simp add: eq h1)
  show "lruk_historyCount key (lruk_put key v s) = lruk_historyCount key s + 1"
    using lru_put_map_of[OF cap1, of key "nat (int stored + 1)"] st
    by (simp add: eq lruk_historyCount_def lru_get_value_fst)
qed

lemma lruk_get_reaching:
  assumes "\<not> lru_contains key (lruk_main s)"
    and "lruk_historyCount key s + 1 \<ge> lruk_k s"
    and "0 < lru_capacity (lruk_main s)"
  shows "fst (lruk_get key b s) = True"
    and "fst (snd (lruk_get key b s)) = b"
    and "map_of (lru_nodes (lruk_main (snd (snd (lruk_get key b s))))) key = Some b"
proof -
  obtain stored h1 where g: "lru_get_value 0 key (lruk_historyList s) = (stored, h1)"
    by (cases "lru_get_value 0 key (lruk_historyList s)")
  have st: "int stored = lruk_historyCount key s"
    using g by (simp add: lruk_historyCount_def)
  let ?m1 = "lru_put key b (lruk_main s)"
  have m1: "map_of (lru_nodes ?m1) key = Some b" using assms(3) by (rule lru_put_map_of)
  have eq: "lruk_get key b s =
      (True, b, s\<lparr>lruk_main := snd (snd (lru_get key b ?m1)),
                 lruk_historyList := lru_remove key (lru_put key (nat (int stored + 1)) h1)\<rparr>)"
    using assms(1,2) g st m1 by (simp add: lruk_get_def Let_def lru_get_hit)
  show "fst (lruk_get key b s) = True" by (simp add: eq)
  show "fst (snd (lruk_get key b s)) = b" by (simp add: eq)
  show "map_of (lru_nodes (lruk_main (snd (snd (lruk_get key b s))))) key = Some b"
    by (simp add: eq lru_get_map_of m1)
qed

lemma lruk_put_reaching:
  assumes "\<not> lru_contains key (lruk_main s)"
    and "lruk_historyCount key s + 1 \<ge> lruk_k s"
    and "0 < lru_capacity (lruk_main s)"
  shows "map_of (lru_nodes (lruk_main (lruk_put key v s))) key = Some v"
proof -
  obtain stored h1 where g: "lru_get_value 0 key (lruk_historyList s) = (stored, h1)"
    by (cases "lru_get_value 0 key (lruk_historyList s)")
  have st: "int stored = lruk_historyCount key s"
    using g by (simp add: lruk_historyCount_def)
  show ?thesis
    using assms g st lru_put_map_of[OF assms(3), of key v]
    by (simp add: lruk_put_def Let_def)
qed

lemma lruk_get_resident:
  assumes "map_of (lru_nodes (lruk_main s)) key = Some v"
  shows "fst (lruk_get key b s) = True" and "fst (snd (lruk_get key b s)) = v"
  using assms by (simp_all add: lruk_get_def lru_contains_def lru_get_hit)


text \<open>
  Claim C3, as the code has it. Take an LRU-K cache with \<open>k = 3\<close>, positive main and
  history capacities, and a key that is in neither the main cache nor the history.
  The first two accesses (each a \<open>get\<close> or a \<open>put\<close>) leave the key out of the main
  cache, and a \<open>get\<close> among them reports a miss. The third access admits the key: a
  \<open>put(key, v)\<close> stores \<open>v\<close>, and the next \<open>get\<close> returns it; a \<open>get(key, value)\<close> stores
  the content of the caller's \<open>value\<close> buffer and reports a hit in that same call (the
  closing \<open>KLruCache::get\<close> finds the node just put), as does every later \<open>get\<close>.
\<close>

theorem lruk_k3_gating:
  assumes "lruk_k s = 3"
    and "\<not> lru_contains key (lruk_main s)"
    and "\<not> lru_contains key (lruk_historyList s)"
    and "0 < lru_capacity (lruk_historyList s)"
    and "0 < lru_capacity (lruk_main s)"
    and "s1 = lruk_access key a1 s"
    and "s2 = lruk_access key a2 s1"
  shows "fst (lruk_get key b s) = False
       \<and> \<not> lru_contains key (lruk_main s1)
       \<and> fst (lruk_get key b s1) = False
       \<and> \<not> lru_contains key (lruk_main s2)
       \<and> fst (lruk_get key b s2) = True
       \<and> fst (snd (lruk_get key b s2)) = b
       \<and> lru_contains key (lruk_main (snd (snd (lruk_get key b s2))))
       \<and> fst (lruk_get key b' (snd (snd (lruk_get key b s2)))) = True
       \<and> fst (snd (lruk_get key b' (snd (snd (lruk_get key b s2))))) = b
       \<and> lru_contains key (lruk_main (lruk_put key v s2))
       \<and> fst (lruk_get key b (lruk_put key v s2)) = True
       \<and> fst (snd (lruk_get key b (lruk_put key v s2))) = v"
proof -
  have c0: "lruk_historyCount key s = 0" using assms(3) by (rule lruk_historyCount_absent)
  have lt0: "lruk_historyCount key s + 1 < lruk_k s" using c0 assms(1) by simp
  have g0: "fst (lruk_get key b s) = False" using assms(2) lt0 assms(4) by (rule lruk_get_below)
  have s1: "lruk_main s1 = lruk_main s \<and> lruk_k s1 = lruk_k s
      \<and> lru_capacity (lruk_historyList s1) = lru_capacity (lruk_historyList s)
      \<and> lruk_historyCount key s1 = 1"
    using lruk_get_below(2-5)[OF assms(2) lt0 assms(4)] lruk_put_below[OF assms(2) lt0 assms(4)] c0
    by (cases a1) (simp_all add: assms(6))
  have n1: "\<not> lru_contains key (lruk_main s1)" using s1 assms(2) by simp
  have lt1: "lruk_historyCount key s1 + 1 < lruk_k s1" using s1 assms(1) by simp
  have cap1: "0 < lru_capacity (lruk_historyList s1)" using s1 assms(4) by simp
  have g1: "fst (lruk_get key b s1) = False" using n1 lt1 cap1 by (rule lruk_get_below)
  have s2: "lruk_main s2 = lruk_main s \<and> lruk_k s2 = lruk_k s
      \<and> lruk_historyCount key s2 = 2"
    using lruk_get_below(2-5)[OF n1 lt1 cap1] lruk_put_below[OF n1 lt1 cap1] s1
    by (cases a2) (simp_all add: assms(7))
  have n2: "\<not> lru_contains key (lruk_main s2)" using s2 assms(2) by simp
  have ge2: "lruk_historyCount key s2 + 1 \<ge> lruk_k s2" using s2 assms(1) by simp
  have cap2: "0 < lru_capacity (lruk_main s2)" using s2 assms(5) by simp
  note third = lruk_get_reaching[OF n2 ge2 cap2, of b]
  have in3: "lru_contains key (lruk_main (snd (snd (lruk_get key b s2))))"
    using third(3) by (simp add: lru_contains_def)
  note fourth = lruk_get_resident[OF third(3), of b']
  have p3: "map_of (lru_nodes (lruk_main (lruk_put key v s2))) key = Some v"
    using n2 ge2 cap2 by (rule lruk_put_reaching)
  have inp: "lru_contains key (lruk_main (lruk_put key v s2))"
    using p3 by (simp add: lru_contains_def)
  note after_put = lruk_get_resident[OF p3, of b]
  show ?thesis
    using g0 n1 g1 n2 third(1,2) in3 fourth inp after_put by simp
qed

theorem lruk_k3_gating_witness:
  "lruk_k (KLruKCache 2 2 3 :: (nat, nat) lruk_state) = 3
   \<and> \<not> lru_contains (1::nat) (lruk_main (KLruKCache 2 2 3 :: (nat, nat) lruk_state))
   \<and> \<not> lru_contains (1::nat) (lruk_historyList (KLruKCache 2 2 3 :: (nat, nat) lruk_state))
   \<and> fst (lruk_get (1::nat) (7::nat)
        (lruk_access 1 (AccessPut 5) (lruk_access 1 (AccessGet 7) (KLruKCache 2 2 3)))) = True
   \<and> fst (snd (lruk_get (1::nat) (7::nat)
        (lruk_access 1 (AccessPut 5) (lruk_access 1 (AccessGet 7) (KLruKCache 2 2 3))))) = 7"
  using lruk_k3_gating[of "KLruKCache 2 2 3 :: (nat, nat) lruk_state" 1
      "lruk_access 1 (AccessGet 7) (KLruKCache 2 2 3)" "AccessGet 7"
      "lruk_access 1 (AccessPut 5) (lruk_access 1 (AccessGet 7) (KLruKCache 2 2 3))"
      "AccessPut 5" 7 7 7]
  by (simp add: KLruKCache_def KLruCache_def lru_contains_def)

text \<open>
  The claim as the specification words it (the access that reaches \<open>k\<close> still reports a
  miss) fails: on a fresh cache with capacities 2 and \<open>k = 3\<close>, the third \<open>get\<close> of key 1
  returns true.
\<close>

theorem lruk_third_get_hits_counterexample:
  "fst (lruk_get (1::nat) (7::nat)
     (lruk_access 1 (AccessGet 7) (lruk_access 1 (AccessGet 7) (KLruKCache 2 2 3)))) = True"
  by code_simp

section \<open>Properties of the LFU engine\<close>


lemma lfu_bucket_add:
  "lfu_bucket g (addToFreqList k f ftl) =
     (if g = f then lfu_bucket f ftl @ [k] else lfu_bucket g ftl)"
  by (simp add: lfu_bucket_def addToFreqList_def update_conv' split: option.splits)

lemma lfu_bucket_remove:
  "lfu_bucket g (removeFromFreqList k f ftl) =
     (if g = f then removeAll k (lfu_bucket f ftl) else lfu_bucket g ftl)"
  by (simp add: lfu_bucket_def removeFromFreqList_def update_conv' split: option.splits)

lemma isEmpty_bucket: "isEmpty f ftl \<longleftrightarrow> lfu_bucket f ftl = []"
  by (simp add: isEmpty_def lfu_bucket_def split: option.splits)

lemma distinct_addToFreqList:
  "distinct (map fst ftl) \<Longrightarrow> distinct (map fst (addToFreqList k f ftl))"
  by (simp add: addToFreqList_def distinct_update split: option.splits)

lemma distinct_removeFromFreqList:
  "distinct (map fst ftl) \<Longrightarrow> distinct (map fst (removeFromFreqList k f ftl))"
  by (simp add: removeFromFreqList_def distinct_update split: option.splits)

lemma keys_addToFreqList:
  "fst ` set (addToFreqList k f ftl) = insert f (fst ` set ftl)"
  by (simp add: addToFreqList_def dom_update split: option.splits)

lemma keys_removeFromFreqList:
  "fst ` set (removeFromFreqList k f ftl) = fst ` set ftl"
  by (force simp: removeFromFreqList_def dom_update split: option.splits
      dest!: map_of_SomeD)

lemma lfu_inv_init: "lfu_inv (KLfuCache c)"
  by (simp add: lfu_inv_def lfu_struct_def KLfuCache_def lfu_bucket_def INT8_MAX_def)

lemma map_of_nonempty: "map_of al k = Some v \<Longrightarrow> al \<noteq> []"
  by auto

lemma lfu_inv_getInternal:
  assumes inv: "lfu_inv s" and node: "map_of (lfu_nodeMap s) key = Some node"
  shows "lfu_inv (snd (getInternal key b s))"
proof -
  let ?f = "node_freq node"
  let ?F = "lfu_freqToFreqList s"
  let ?F2 = "addToFreqList key (?f + 1) (removeFromFreqList key ?f ?F)"
  let ?N' = "AList.update key (node\<lparr>node_freq := ?f + 1\<rparr>) (lfu_nodeMap s)"
  let ?m' = "if lfu_bucket ?f ?F2 = [] \<and> ?f = lfu_minFreq s then lfu_minFreq s + 1 else lfu_minFreq s"
  have eq: "snd (getInternal key b s) =
      s\<lparr>lfu_nodeMap := ?N', lfu_freqToFreqList := ?F2, lfu_minFreq := ?m'\<rparr>"
    using node by (auto simp: getInternal_def Let_def isEmpty_bucket)
  have mem: "\<And>f k. k \<in> set (lfu_bucket f ?F) \<longleftrightarrow>
        (\<exists>n. map_of (lfu_nodeMap s) k = Some n \<and> node_freq n = f)"
    using inv by (simp add: lfu_inv_def lfu_struct_def)
  have dist: "\<And>f. distinct (lfu_bucket f ?F)" using inv by (simp add: lfu_inv_def lfu_struct_def)
  have ge1: "\<And>k n. map_of (lfu_nodeMap s) k = Some n \<Longrightarrow> 1 \<le> node_freq n"
    using inv by (auto simp: lfu_inv_def lfu_struct_def)
  have ne: "lfu_nodeMap s \<noteq> []" using node by auto
  have minb: "lfu_bucket (lfu_minFreq s) ?F \<noteq> []"
    and minle: "\<And>f. lfu_bucket f ?F \<noteq> [] \<Longrightarrow> lfu_minFreq s \<le> f"
    using inv ne by (auto simp: lfu_inv_def lfu_minFreq_ok_def)
  have kin: "key \<in> set (lfu_bucket ?f ?F)" using node by (simp add: mem)
  have knot: "key \<notin> set (lfu_bucket (?f + 1) ?F)" using node by (simp add: mem)
  have b2: "\<And>g. lfu_bucket g ?F2 =
      (if g = ?f + 1 then lfu_bucket (?f + 1) ?F @ [key]
       else if g = ?f then removeAll key (lfu_bucket ?f ?F) else lfu_bucket g ?F)"
    by (simp add: lfu_bucket_add lfu_bucket_remove)
  have c1: "distinct (map fst ?N')" using inv by (simp add: lfu_inv_def lfu_struct_def distinct_update)
  have c2: "distinct (map fst ?F2)"
    using inv by (simp add: lfu_inv_def lfu_struct_def distinct_addToFreqList distinct_removeFromFreqList)
  have c3: "\<forall>f k. k \<in> set (lfu_bucket f ?F2) \<longleftrightarrow>
        (\<exists>n. map_of ?N' k = Some n \<and> node_freq n = f)"
    using node by (auto simp: b2 update_conv' mem)
  have c4: "\<forall>f. distinct (lfu_bucket f ?F2)"
    using dist knot by (auto simp: b2 distinct_removeAll)
  have c5: "\<forall>k n. map_of ?N' k = Some n \<longrightarrow> 1 \<le> node_freq n"
    using ge1 ge1[OF node] by (auto simp: update_conv')
  have c6: "1 \<le> ?m'" using inv by (simp add: lfu_inv_def)
  have "lfu_bucket ?f ?F \<noteq> []" using kin by auto
  then have fge: "lfu_minFreq s \<le> ?f" by (rule minle)
  have c7: "lfu_bucket ?m' ?F2 \<noteq> []"
    using minb fge by (auto simp: b2)
  have c8: "\<forall>f. lfu_bucket f ?F2 \<noteq> [] \<longrightarrow> ?m' \<le> f"
  proof (intro allI impI)
    fix g assume g: "lfu_bucket g ?F2 \<noteq> []"
    have "lfu_minFreq s \<le> g"
      using g minle[of g] fge by (auto simp: b2 split: if_splits)
    moreover have "lfu_bucket ?f ?F2 = [] \<Longrightarrow> g \<noteq> ?f" using g by auto
    ultimately show "?m' \<le> g" by auto
  qed
  show ?thesis
    unfolding eq lfu_inv_def lfu_struct_def lfu_minFreq_ok_def
    using c1 c2 c3 c4 c5 c6 c7 c8 by simp
qed


lemma lfu_struct_set_value:
  assumes "lfu_struct s" and "map_of (lfu_nodeMap s) key = Some node"
  shows "lfu_struct (s\<lparr>lfu_nodeMap :=
            AList.update key (node\<lparr>node_value := v\<rparr>) (lfu_nodeMap s)\<rparr>)"
proof -
  let ?N' = "AList.update key (node\<lparr>node_value := v\<rparr>) (lfu_nodeMap s)"
  have mem: "\<And>f k. k \<in> set (lfu_bucket f (lfu_freqToFreqList s)) \<longleftrightarrow>
      (\<exists>n. map_of (lfu_nodeMap s) k = Some n \<and> node_freq n = f)"
    using assms(1) by (simp add: lfu_struct_def)
  have ge1: "\<And>k n. map_of (lfu_nodeMap s) k = Some n \<Longrightarrow> 1 \<le> node_freq n"
    using assms(1) by (simp add: lfu_struct_def)
  have d1: "distinct (map fst ?N')" using assms(1) by (simp add: lfu_struct_def distinct_update)
  have d3: "\<forall>f k. k \<in> set (lfu_bucket f (lfu_freqToFreqList s)) \<longleftrightarrow>
      (\<exists>n. map_of ?N' k = Some n \<and> node_freq n = f)"
    using assms(2) by (auto simp: update_conv' mem)
  have d5: "\<forall>k n. map_of ?N' k = Some n \<longrightarrow> 1 \<le> node_freq n"
    using ge1 ge1[OF assms(2)] by (auto simp: update_conv')
  show ?thesis
    unfolding lfu_struct_def using assms(1) d1 d3 d5 by (simp add: lfu_struct_def)
qed

lemma lfu_inv_set_value:
  assumes "lfu_inv s" and "map_of (lfu_nodeMap s) key = Some node"
  shows "lfu_inv (s\<lparr>lfu_nodeMap :=
            AList.update key (node\<lparr>node_value := v\<rparr>) (lfu_nodeMap s)\<rparr>)"
  using assms lfu_struct_set_value[of s key node v] map_of_nonempty[of "lfu_nodeMap s" key node]
  by (simp add: lfu_inv_def lfu_minFreq_ok_def)

lemma lfu_struct_kickOut:
  assumes "lfu_struct s"
  shows "lfu_struct (kickOut s)"
proof (cases "map_of (lfu_freqToFreqList s) (lfu_minFreq s)")
  case None
  then show ?thesis using assms by (simp add: kickOut_def)
next
  case (Some bucket)
  show ?thesis
  proof (cases bucket)
    case Nil
    then show ?thesis using assms Some by (simp add: kickOut_def)
  next
    case (Cons key rest)
    show ?thesis
    proof (cases "map_of (lfu_nodeMap s) key")
      case None
      then show ?thesis using assms Some Cons by (simp add: kickOut_def)
    next
      case (Some node)
      let ?F = "lfu_freqToFreqList s"
      have eq: "kickOut s = s\<lparr>lfu_freqToFreqList := removeFromFreqList key (node_freq node) ?F,
                  lfu_nodeMap := AList.delete key (lfu_nodeMap s)\<rparr>"
        using \<open>map_of ?F (lfu_minFreq s) = Some bucket\<close> Cons Some by (simp add: kickOut_def)
      have mem: "\<And>f k. k \<in> set (lfu_bucket f ?F) \<longleftrightarrow>
          (\<exists>n. map_of (lfu_nodeMap s) k = Some n \<and> node_freq n = f)"
        using assms by (simp add: lfu_struct_def)
      have d1: "distinct (map fst (AList.delete key (lfu_nodeMap s)))"
        using assms by (simp add: lfu_struct_def distinct_delete)
      have d2: "distinct (map fst (removeFromFreqList key (node_freq node) ?F))"
        using assms by (simp add: lfu_struct_def distinct_removeFromFreqList)
      have d3: "\<forall>f k. k \<in> set (lfu_bucket f (removeFromFreqList key (node_freq node) ?F)) \<longleftrightarrow>
          (\<exists>n. map_of (AList.delete key (lfu_nodeMap s)) k = Some n \<and> node_freq n = f)"
        using Some by (auto simp: lfu_bucket_remove delete_conv' mem)
      have d4: "\<forall>f. distinct (lfu_bucket f (removeFromFreqList key (node_freq node) ?F))"
        using assms by (simp add: lfu_struct_def lfu_bucket_remove distinct_removeAll)
      have d5: "\<forall>k n. map_of (AList.delete key (lfu_nodeMap s)) k = Some n \<longrightarrow> 1 \<le> node_freq n"
        using assms by (auto simp: lfu_struct_def delete_conv' split: if_splits)
      show ?thesis
        unfolding eq lfu_struct_def using d1 d2 d3 d4 d5 by simp
    qed
  qed
qed


lemma kickOut_minFreq [simp]: "lfu_minFreq (kickOut s) = lfu_minFreq s"
  by (simp add: kickOut_def split: option.splits list.splits)

lemma kickOut_capacity [simp]: "lfu_capacity (kickOut s) = lfu_capacity s"
  by (simp add: kickOut_def split: option.splits list.splits)

lemma kickOut_absent:
  "map_of (lfu_nodeMap s) key = None \<Longrightarrow> map_of (lfu_nodeMap (kickOut s)) key = None"
  by (simp add: kickOut_def delete_conv' split: option.splits list.splits)

lemma lfu_inv_insert_new:
  assumes st: "lfu_struct s1" and m: "1 \<le> lfu_minFreq s1"
    and absent: "map_of (lfu_nodeMap s1) key = None"
  shows "lfu_inv (s1\<lparr>lfu_nodeMap :=
              AList.update key \<lparr>node_freq = 1, node_value = v\<rparr> (lfu_nodeMap s1),
            lfu_freqToFreqList := addToFreqList key 1 (lfu_freqToFreqList s1),
            lfu_minFreq := min (lfu_minFreq s1) 1\<rparr>)"
proof -
  let ?N' = "AList.update key \<lparr>node_freq = 1, node_value = v\<rparr> (lfu_nodeMap s1)"
  let ?F' = "addToFreqList key 1 (lfu_freqToFreqList s1)"
  have mem: "\<And>f k. k \<in> set (lfu_bucket f (lfu_freqToFreqList s1)) \<longleftrightarrow>
      (\<exists>n. map_of (lfu_nodeMap s1) k = Some n \<and> node_freq n = f)"
    using st by (simp add: lfu_struct_def)
  have ge1: "\<And>k n. map_of (lfu_nodeMap s1) k = Some n \<Longrightarrow> 1 \<le> node_freq n"
    using st by (simp add: lfu_struct_def)
  have knot: "key \<notin> set (lfu_bucket 1 (lfu_freqToFreqList s1))"
    using absent by (simp add: mem)
  have d1: "distinct (map fst ?N')" using st by (simp add: lfu_struct_def distinct_update)
  have d2: "distinct (map fst ?F')" using st by (simp add: lfu_struct_def distinct_addToFreqList)
  have d3: "\<forall>f k. k \<in> set (lfu_bucket f ?F') \<longleftrightarrow>
      (\<exists>n. map_of ?N' k = Some n \<and> node_freq n = f)"
    using absent by (auto simp: lfu_bucket_add update_conv' mem)
  have d4: "\<forall>f. distinct (lfu_bucket f ?F')"
    using st knot by (simp add: lfu_struct_def lfu_bucket_add)
  have d5: "\<forall>k n. map_of ?N' k = Some n \<longrightarrow> 1 \<le> node_freq n"
    using ge1 by (auto simp: update_conv')
  have d6: "min (lfu_minFreq s1) 1 = 1" using m by simp
  have d7: "lfu_bucket 1 ?F' \<noteq> []" by (simp add: lfu_bucket_add)
  have d8: "\<forall>f. lfu_bucket f ?F' \<noteq> [] \<longrightarrow> 1 \<le> f"
  proof (intro allI impI)
    fix f assume "lfu_bucket f ?F' \<noteq> []"
    then obtain k where "k \<in> set (lfu_bucket f ?F')" by (cases "lfu_bucket f ?F'") auto
    then obtain n where "map_of ?N' k = Some n" "node_freq n = f" using d3 by blast
    then show "1 \<le> f" using d5 by blast
  qed
  show ?thesis
    unfolding lfu_inv_def lfu_struct_def lfu_minFreq_ok_def
    using d1 d2 d3 d4 d5 d7 d8 by (simp add: d6)
qed

lemma lfu_inv_putInternal:
  assumes "lfu_inv s" and "map_of (lfu_nodeMap s) key = None"
  shows "lfu_inv (putInternal kickOut key v s)"
proof -
  let ?s1 = "if int (length (lfu_nodeMap s)) = lfu_capacity s then kickOut s else s"
  have st: "lfu_struct ?s1" using assms(1) by (simp add: lfu_inv_def lfu_struct_kickOut)
  have m: "1 \<le> lfu_minFreq ?s1" using assms(1) by (simp add: lfu_inv_def)
  have absent: "map_of (lfu_nodeMap ?s1) key = None" using assms(2) by (simp add: kickOut_absent)
  show ?thesis
    unfolding putInternal_def Let_def by (rule lfu_inv_insert_new[OF st m absent])
qed

lemma lfu_inv_put: "lfu_inv s \<Longrightarrow> lfu_inv (lfu_put key v s)"
proof (cases "map_of (lfu_nodeMap s) key")
  case None
  assume "lfu_inv s"
  then show ?thesis using None
    by (simp add: lfu_put_def KLfuCache_put_def lfu_inv_putInternal)
next
  case (Some node)
  assume inv: "lfu_inv s"
  let ?s' = "s\<lparr>lfu_nodeMap := AList.update key (node\<lparr>node_value := v\<rparr>) (lfu_nodeMap s)\<rparr>"
  have "lfu_inv ?s'" using inv Some by (rule lfu_inv_set_value)
  moreover have "map_of (lfu_nodeMap ?s') key = Some (node\<lparr>node_value := v\<rparr>)"
    by (simp add: update_conv')
  ultimately have "lfu_inv (snd (getInternal key v ?s'))" by (rule lfu_inv_getInternal)
  then show ?thesis using inv Some by (simp add: lfu_put_def KLfuCache_put_def)
qed

lemma lfu_inv_get: "lfu_inv s \<Longrightarrow> lfu_inv (snd (snd (lfu_get key b s)))"
  using lfu_inv_getInternal[of s key _ b]
  by (auto simp: lfu_get_def KLfuCache_get_def split: option.splits prod.splits)

lemma lfu_inv_step: "lfu_inv s \<Longrightarrow> lfu_inv (lfu_step s op)"
  by (cases op) (simp_all add: lfu_inv_put lfu_inv_get)

lemma lfu_inv_foldl: "lfu_inv s \<Longrightarrow> lfu_inv (foldl lfu_step s ops)"
  by (induction ops arbitrary: s) (simp_all add: lfu_inv_step)

lemma lfu_inv_run: "lfu_inv (lfu_run c ops)"
  by (simp add: lfu_run_def lfu_inv_foldl lfu_inv_init)

lemma keys_getInternal:
  "fst ` set (lfu_freqToFreqList s) \<subseteq> fst ` set (lfu_freqToFreqList (snd (getInternal key b s)))"
  by (auto simp: getInternal_def Let_def keys_addToFreqList keys_removeFromFreqList
      split: option.splits)

lemma keys_kickOut:
  "fst ` set (lfu_freqToFreqList (kickOut s)) = fst ` set (lfu_freqToFreqList s)"
  by (simp add: kickOut_def keys_removeFromFreqList split: option.splits list.splits)

lemma keys_putInternal:
  "fst ` set (lfu_freqToFreqList s) \<subseteq> fst ` set (lfu_freqToFreqList (putInternal kickOut key v s))"
  by (auto simp: putInternal_def Let_def keys_addToFreqList keys_kickOut)

lemma keys_lfu_step:
  "fst ` set (lfu_freqToFreqList s) \<subseteq> fst ` set (lfu_freqToFreqList (lfu_step s op))"
proof (cases op)
  case (CachePut k v)
  show ?thesis
  proof (cases "map_of (lfu_nodeMap s) k")
    case None
    then show ?thesis using keys_putInternal[of s k v]
      by (simp add: CachePut lfu_put_def KLfuCache_put_def)
  next
    case (Some node)
    show ?thesis
      using keys_getInternal[of "s\<lparr>lfu_nodeMap :=
          AList.update k (node\<lparr>node_value := v\<rparr>) (lfu_nodeMap s)\<rparr>" k v] Some
      by (simp add: CachePut lfu_put_def KLfuCache_put_def)
  qed
next
  case (CacheGet k b)
  show ?thesis
    using keys_getInternal[of s k b]
    by (auto simp: CacheGet lfu_get_def KLfuCache_get_def split: option.splits prod.splits)
qed

lemma lfu_put_new_minFreq:
  assumes "lfu_inv s" and "map_of (lfu_nodeMap s) key = None" and "lfu_capacity s \<noteq> 0"
  shows "lfu_minFreq (lfu_put key v s) = 1"
  using assms by (simp add: lfu_put_def KLfuCache_put_def putInternal_def Let_def lfu_inv_def)


text \<open>
  Claim C4, as the code has it. In every state a \<open>KLfuCache\<close> reaches from its
  constructor by \<open>put\<close> and \<open>get\<close>: if the cache holds a node, \<open>minFreq_\<close> is the smallest
  frequency whose bucket is not empty; no operation removes a bucket from
  \<open>freqToFreqList_\<close> (an emptied bucket stays in the map as an empty list); \<open>kickOut\<close>
  leaves \<open>minFreq_\<close> as it is, and the \<open>put\<close> of a new key, which is the only caller of
  \<open>kickOut\<close>, ends with \<open>minFreq_ = 1\<close>, the frequency of the node it inserts.
\<close>

theorem lfu_minFreq_smallest_nonempty_bucket:
  assumes "s = lfu_run c ops"
  shows "(lfu_nodeMap s \<noteq> [] \<longrightarrow>
            lfu_bucket (lfu_minFreq s) (lfu_freqToFreqList s) \<noteq> [] \<and>
            (\<forall>f. lfu_bucket f (lfu_freqToFreqList s) \<noteq> [] \<longrightarrow> lfu_minFreq s \<le> f))
       \<and> fst ` set (lfu_freqToFreqList s) \<subseteq> fst ` set (lfu_freqToFreqList (lfu_step s op))
       \<and> lfu_minFreq (kickOut s) = lfu_minFreq s
       \<and> (map_of (lfu_nodeMap s) key = None \<and> lfu_capacity s \<noteq> 0 \<longrightarrow>
            lfu_minFreq (lfu_put key v s) = 1)"
proof -
  have inv: "lfu_inv s" using assms by (simp add: lfu_inv_run)
  have a: "lfu_nodeMap s \<noteq> [] \<longrightarrow>
            lfu_bucket (lfu_minFreq s) (lfu_freqToFreqList s) \<noteq> [] \<and>
            (\<forall>f. lfu_bucket f (lfu_freqToFreqList s) \<noteq> [] \<longrightarrow> lfu_minFreq s \<le> f)"
    using inv by (simp add: lfu_inv_def lfu_minFreq_ok_def)
  have b: "fst ` set (lfu_freqToFreqList s) \<subseteq> fst ` set (lfu_freqToFreqList (lfu_step s op))"
    by (rule keys_lfu_step)
  have d: "map_of (lfu_nodeMap s) key = None \<and> lfu_capacity s \<noteq> 0 \<longrightarrow>
            lfu_minFreq (lfu_put key v s) = 1"
    using lfu_put_new_minFreq[OF inv] by blast
  show ?thesis using a b d by simp
qed

lemma lfu_example_run:
  "lfu_run 2 [CachePut (1::nat) (10::nat), CacheGet 1 0] =
     \<lparr>lfu_capacity = 2, lfu_minFreq = 2,
      lfu_nodeMap = [(1, \<lparr>node_freq = 2, node_value = 10\<rparr>)],
      lfu_freqToFreqList = [(1, []), (2, [1])]\<rparr>"
  by code_simp

theorem lfu_minFreq_smallest_nonempty_bucket_witness:
  "lfu_nodeMap (lfu_run 2 [CachePut (1::nat) (10::nat), CacheGet 1 0]) \<noteq> []
   \<and> lfu_minFreq (lfu_run 2 [CachePut (1::nat) (10::nat), CacheGet 1 0]) = 2
   \<and> lfu_bucket 2 (lfu_freqToFreqList (lfu_run 2 [CachePut (1::nat) (10::nat), CacheGet 1 0])) = [1]
   \<and> lfu_minFreq (lfu_put 2 20 (lfu_run 2 [CachePut (1::nat) (10::nat), CacheGet 1 0])) = 1"
  using lfu_minFreq_smallest_nonempty_bucket[of
      "lfu_run 2 [CachePut (1::nat) (10::nat), CacheGet 1 0]" 2 "[CachePut 1 10, CacheGet 1 0]"
      "CacheGet 1 0" 2 20]
  unfolding lfu_example_run by (simp add: lfu_bucket_def)

text \<open>
  The claim as the specification words it fails. After \<open>put(1, 10); get(1)\<close> on a cache
  of capacity 2 the map holds the empty bucket of frequency 1, so the smallest
  frequency in the map is 1 while \<open>minFreq_\<close> is 2. And \<open>kickOut\<close> on the state after
  \<open>put(1); get(1); put(2); get(2); get(2)\<close> empties the \<open>minFreq_\<close> bucket 2 and leaves
  \<open>minFreq_ = 2\<close>, although the smallest frequency left with a node is 3.
\<close>

theorem lfu_empty_bucket_kept_counterexample:
  "lfu_freqToFreqList (lfu_run 2 [CachePut (1::nat) (10::nat), CacheGet 1 0]) = [(1, []), (2, [1])]
   \<and> lfu_minFreq (lfu_run 2 [CachePut (1::nat) (10::nat), CacheGet 1 0]) = 2
   \<and> lfu_freqToFreqList (kickOut (lfu_run 2
        [CachePut (1::nat) (10::nat), CacheGet 1 0, CachePut 2 20, CacheGet 2 0, CacheGet 2 0]))
       = [(1, []), (2, []), (3, [2])]
   \<and> lfu_minFreq (kickOut (lfu_run 2
        [CachePut (1::nat) (10::nat), CacheGet 1 0, CachePut 2 20, CacheGet 2 0, CacheGet 2 0])) = 2"
  by code_simp

section \<open>Properties of the LFU aging engine\<close>


lemma as_int_in: "INT_MIN \<le> x \<Longrightarrow> x \<le> INT_MAX \<Longrightarrow> as_int x = Some x"
  by (simp add: as_int_def)

lemma int_div_half: "0 \<le> m \<Longrightarrow> m \<le> INT_MAX \<Longrightarrow> 0 \<le> int_div m 2 \<and> int_div m 2 \<le> INT_MAX"
  by (auto simp: int_div_def INT_MAX_def sgn_if)

lemma set_alist_update:
  "x \<in> set (AList.update k v xs) \<Longrightarrow> x = (k, v) \<or> x \<in> set xs"
  by (induction xs) (auto split: if_splits)

lemma set_alist_delete: "x \<in> set (AList.delete k xs) \<Longrightarrow> x \<in> set xs"
  by (induction xs) (auto split: if_splits)

text \<open>What the operations of the aging cache keep: the values of the nodes.\<close>

lemma lowerFreq_Some:
  assumes "aging_range hi tlo thi s" "hi \<le> INT_MAX"
  shows "\<exists>s'. lowerFreq key s = Some s' \<and> aging_range hi tlo thi s'
           \<and> lfu_capacity s' = lfu_capacity s
           \<and> (\<forall>k. map_option node_value (map_of (lfu_nodeMap s') k)
                    = map_option node_value (map_of (lfu_nodeMap s) k))"
proof (cases "map_of (lfu_nodeMap s) key")
  case None
  then show ?thesis using assms by (simp add: lowerFreq_def)
next
  case (Some node)
  have mem: "(key, node) \<in> set (lfu_nodeMap s)" using Some by (rule map_of_SomeD)
  have f: "1 \<le> node_freq node" "node_freq node \<le> hi"
    using assms(1) mem by (auto simp: aging_range_def)
  have d: "0 \<le> int_div (aging_maxAverageNum s) 2"
    "int_div (aging_maxAverageNum s) 2 \<le> INT_MAX"
    using assms(1) int_div_half[of "aging_maxAverageNum s"] by (simp_all add: aging_range_def)
  let ?l = "node_freq node - int_div (aging_maxAverageNum s) 2"
  have r: "INT_MIN \<le> ?l" "?l \<le> INT_MAX"
    using f d assms(2) by (simp_all add: INT_MIN_def INT_MAX_def)
  have a: "as_int ?l = Some ?l" using r by (rule as_int_in)
  let ?freq = "if ?l < 1 then 1 else ?l"
  let ?s' = "s\<lparr>lfu_nodeMap := AList.update key (node\<lparr>node_freq := ?freq\<rparr>) (lfu_nodeMap s),
               lfu_freqToFreqList := addToFreqList key ?freq
                  (removeFromFreqList key (node_freq node) (lfu_freqToFreqList s))\<rparr>"
  have e: "lowerFreq key s = Some ?s'"
    using Some a by (simp add: lowerFreq_def Let_def)
  have fr: "1 \<le> ?freq" "?freq \<le> hi" using f d by auto
  have rng: "aging_range hi tlo thi ?s'"
    unfolding aging_range_def
  proof (intro conjI ballI)
    fix x assume "x \<in> set (lfu_nodeMap ?s')"
    then have "x = (key, node\<lparr>node_freq := ?freq\<rparr>) \<or> x \<in> set (lfu_nodeMap s)"
      using set_alist_update[of x key "node\<lparr>node_freq := ?freq\<rparr>" "lfu_nodeMap s"] by simp
    then show "case x of (key, node) \<Rightarrow> 1 \<le> node_freq node \<and> node_freq node \<le> hi"
      using fr assms(1) by (auto simp: aging_range_def)
  qed (use assms(1) in \<open>simp_all add: aging_range_def\<close>)
  have vals: "\<forall>k. map_option node_value (map_of (lfu_nodeMap ?s') k)
                    = map_option node_value (map_of (lfu_nodeMap s) k)"
    using Some by (simp add: update_conv')
  show ?thesis using e rng vals by simp
qed

lemma lowerAll_Some:
  assumes "aging_range hi tlo thi s" "hi \<le> INT_MAX"
  shows "\<exists>s'. lowerAll keys s = Some s' \<and> aging_range hi tlo thi s'
           \<and> lfu_capacity s' = lfu_capacity s
           \<and> (\<forall>k. map_option node_value (map_of (lfu_nodeMap s') k)
                    = map_option node_value (map_of (lfu_nodeMap s) k))"
  using assms(1)
proof (induction keys arbitrary: s)
  case Nil
  then show ?case by simp
next
  case (Cons key keys)
  obtain s1 where s1: "lowerFreq key s = Some s1" "aging_range hi tlo thi s1"
    "lfu_capacity s1 = lfu_capacity s"
    "\<forall>k. map_option node_value (map_of (lfu_nodeMap s1) k)
                    = map_option node_value (map_of (lfu_nodeMap s) k)"
    using lowerFreq_Some[OF Cons.prems assms(2), of key] by blast
  obtain s2 where s2: "lowerAll keys s1 = Some s2" "aging_range hi tlo thi s2"
    "lfu_capacity s2 = lfu_capacity s1"
    "\<forall>k. map_option node_value (map_of (lfu_nodeMap s2) k)
                    = map_option node_value (map_of (lfu_nodeMap s1) k)"
    using Cons.IH[OF s1(2)] by blast
  show ?case using s1 s2 by simp
qed

lemma updateMinFreq_range:
  "aging_range hi tlo thi (updateMinFreq s) = aging_range hi tlo thi s"
  "lfu_nodeMap (updateMinFreq s) = lfu_nodeMap s"
  "lfu_capacity (updateMinFreq s) = lfu_capacity s"
  by (simp_all add: updateMinFreq_def aging_range_def Let_def)

lemma handleOverMaxAverageNum_Some:
  assumes "aging_range hi tlo thi s" "hi \<le> INT_MAX"
  shows "\<exists>s'. handleOverMaxAverageNum walk s = Some s' \<and> aging_range hi tlo thi s'
           \<and> lfu_capacity s' = lfu_capacity s
           \<and> (\<forall>k. map_option node_value (map_of (lfu_nodeMap s') k)
                    = map_option node_value (map_of (lfu_nodeMap s) k))"
proof (cases "lfu_nodeMap s = []")
  case True
  then show ?thesis using assms by (simp add: handleOverMaxAverageNum_def)
next
  case False
  obtain s1 where s1: "lowerAll (walk (lfu_nodeMap s)) s = Some s1" "aging_range hi tlo thi s1"
    "lfu_capacity s1 = lfu_capacity s"
    "\<forall>k. map_option node_value (map_of (lfu_nodeMap s1) k)
                    = map_option node_value (map_of (lfu_nodeMap s) k)"
    using lowerAll_Some[OF assms, of "walk (lfu_nodeMap s)"] by blast
  show ?thesis
    using False s1 by (simp add: handleOverMaxAverageNum_def updateMinFreq_range)
qed

lemma addFreqNum_Some:
  assumes "aging_range hi tlo thi s" "hi \<le> INT_MAX" "thi < INT_MAX" "INT_MIN - 1 \<le> tlo"
  shows "\<exists>s'. addFreqNum walk s = Some s' \<and> aging_range hi (tlo + 1) (thi + 1) s'
           \<and> lfu_capacity s' = lfu_capacity s
           \<and> (\<forall>k. map_option node_value (map_of (lfu_nodeMap s') k)
                    = map_option node_value (map_of (lfu_nodeMap s) k))"
proof -
  let ?t = "aging_curTotalNum s + 1"
  have "INT_MIN \<le> ?t" "?t \<le> INT_MAX"
    using assms by (simp_all add: aging_range_def)
  then have a: "as_int ?t = Some ?t" by (rule as_int_in)
  define average where "average = (if lfu_nodeMap s = [] then 0
                          else averageNum ?t (length (lfu_nodeMap s)))"
  define s1 where "s1 = s\<lparr>aging_curTotalNum := ?t, aging_curAverageNum := average\<rparr>"
  have r1: "aging_range hi (tlo + 1) (thi + 1) s1"
    using assms(1) by (simp add: aging_range_def s1_def)
  have e: "addFreqNum walk s =
             (if average > aging_maxAverageNum s then handleOverMaxAverageNum walk s1 else Some s1)"
    using a by (simp add: addFreqNum_def Let_def average_def s1_def)
  show ?thesis
  proof (cases "average > aging_maxAverageNum s")
    case True
    obtain s2 where s2: "handleOverMaxAverageNum walk s1 = Some s2"
      "aging_range hi (tlo + 1) (thi + 1) s2" "lfu_capacity s2 = lfu_capacity s1"
      "\<forall>k. map_option node_value (map_of (lfu_nodeMap s2) k)
                    = map_option node_value (map_of (lfu_nodeMap s1) k)"
      using handleOverMaxAverageNum_Some[OF r1 assms(2), of walk] by blast
    show ?thesis using True e s2 by (simp add: s1_def)
  next
    case False
    then show ?thesis using e r1 by (simp add: s1_def)
  qed
qed


lemma getInternal_range:
  assumes "aging_range hi tlo thi s" "map_of (lfu_nodeMap s) key = Some node"
  shows "fst (getInternal key b s) = node_value node"
    and "aging_range (hi + 1) tlo thi (snd (getInternal key b s))"
    and "lfu_capacity (snd (getInternal key b s)) = lfu_capacity s"
    and "\<forall>k. map_option node_value (map_of (lfu_nodeMap (snd (getInternal key b s))) k)
                    = map_option node_value (map_of (lfu_nodeMap s) k)"
    and "map_of (lfu_nodeMap (snd (getInternal key b s))) key \<noteq> None"
proof -
  let ?n = "node\<lparr>node_freq := node_freq node + 1\<rparr>"
  have nm: "lfu_nodeMap (snd (getInternal key b s)) = AList.update key ?n (lfu_nodeMap s)"
    and mx: "aging_maxAverageNum (snd (getInternal key b s)) = aging_maxAverageNum s"
    and tt: "aging_curTotalNum (snd (getInternal key b s)) = aging_curTotalNum s"
    using assms(2) by (simp_all add: getInternal_def Let_def)
  show "fst (getInternal key b s) = node_value node"
    using assms(2) by (simp add: getInternal_def Let_def)
  show "lfu_capacity (snd (getInternal key b s)) = lfu_capacity s"
    using assms(2) by (simp add: getInternal_def Let_def)
  have mem: "(key, node) \<in> set (lfu_nodeMap s)" using assms(2) by (rule map_of_SomeD)
  have f: "1 \<le> node_freq node" "node_freq node \<le> hi"
    using assms(1) mem by (auto simp: aging_range_def)
  show "aging_range (hi + 1) tlo thi (snd (getInternal key b s))"
    unfolding aging_range_def mx tt nm
  proof (intro conjI ballI)
    fix x assume "x \<in> set (AList.update key ?n (lfu_nodeMap s))"
    then have "x = (key, ?n) \<or> x \<in> set (lfu_nodeMap s)" by (rule set_alist_update)
    then show "case x of (key, node) \<Rightarrow> 1 \<le> node_freq node \<and> node_freq node \<le> hi + 1"
      using f assms(1) by (auto simp: aging_range_def)
  qed (use assms(1) in \<open>simp_all add: aging_range_def\<close>)
  show "\<forall>k. map_option node_value (map_of (lfu_nodeMap (snd (getInternal key b s))) k)
                    = map_option node_value (map_of (lfu_nodeMap s) k)"
    unfolding nm using assms(2) by (simp add: update_conv')
  show "map_of (lfu_nodeMap (snd (getInternal key b s))) key \<noteq> None"
    unfolding nm by (simp add: update_conv')
qed

lemma aging_getInternal_Some:
  assumes r: "aging_range hi tlo thi s" and n: "map_of (lfu_nodeMap s) key = Some node"
    and b: "hi < INT_MAX" "thi < INT_MAX" "INT_MIN - 1 \<le> tlo"
  shows "\<exists>s'. aging_getInternal walk key b s = Some (node_value node, s')
           \<and> aging_range (hi + 1) (tlo + 1) (thi + 1) s'
           \<and> lfu_capacity s' = lfu_capacity s
           \<and> (\<forall>k. map_option node_value (map_of (lfu_nodeMap s') k)
                    = map_option node_value (map_of (lfu_nodeMap s) k))"
proof -
  have mem: "(key, node) \<in> set (lfu_nodeMap s)" using n by (rule map_of_SomeD)
  have f: "1 \<le> node_freq node" "node_freq node \<le> hi"
    using r mem by (auto simp: aging_range_def)
  have a: "as_int (node_freq node + 1) = Some (node_freq node + 1)"
    using f b(1) by (intro as_int_in) (simp_all add: INT_MIN_def)
  note g = getInternal_range[OF r n, of b]
  have hi': "hi + 1 \<le> INT_MAX" using b(1) by simp
  obtain s2 where s2: "addFreqNum walk (snd (getInternal key b s)) = Some s2"
    "aging_range (hi + 1) (tlo + 1) (thi + 1) s2"
    "lfu_capacity s2 = lfu_capacity (snd (getInternal key b s))"
    "\<forall>k. map_option node_value (map_of (lfu_nodeMap s2) k)
            = map_option node_value (map_of (lfu_nodeMap (snd (getInternal key b s))) k)"
    using addFreqNum_Some[OF g(2) hi' b(2,3), of walk] by blast
  have e: "aging_getInternal walk key b s = Some (node_value node, s2)"
    using n a g(1) s2(1) by (simp add: aging_getInternal_def case_prod_beta)
  show ?thesis using e s2 g(3,4) by simp
qed

lemma kickOut_range:
  assumes "aging_range hi tlo thi s"
  shows "aging_range hi tlo thi (kickOut s)"
    and "lfu_capacity (kickOut s) = lfu_capacity s"
proof -
  have c: "kickOut s = s \<or>
           (\<exists>key ftl. kickOut s = s\<lparr>lfu_freqToFreqList := ftl,
                                      lfu_nodeMap := AList.delete key (lfu_nodeMap s)\<rparr>)"
    by (auto simp: kickOut_def split: option.splits list.splits)
  from c show "aging_range hi tlo thi (kickOut s)"
  proof (elim disjE exE)
    fix key ftl
    assume e: "kickOut s = s\<lparr>lfu_freqToFreqList := ftl,
                              lfu_nodeMap := AList.delete key (lfu_nodeMap s)\<rparr>"
    show ?thesis
      unfolding e aging_range_def using assms
      by (auto simp: aging_range_def dest: set_alist_delete)
  qed (use assms in simp)
  from c show "lfu_capacity (kickOut s) = lfu_capacity s"
    by (elim disjE exE) simp_all
qed

lemma aging_kickOut_Some:
  assumes r: "aging_range hi tlo thi s" and inv: "lfu_inv s" and ne: "lfu_nodeMap s \<noteq> []"
    and b: "hi \<le> INT_MAX" "INT_MIN + hi \<le> tlo" "thi \<le> INT_MAX"
  shows "\<exists>s'. aging_kickOut s = Some s' \<and> aging_range hi (tlo - hi) thi s'
           \<and> lfu_capacity s' = lfu_capacity s"
proof -
  have ok: "lfu_minFreq_ok s" and st: "lfu_struct s" using inv ne by (simp_all add: lfu_inv_def)
  have "lfu_bucket (lfu_minFreq s) (lfu_freqToFreqList s) \<noteq> []"
    using ok by (simp add: lfu_minFreq_ok_def)
  then obtain key rest where bk: "map_of (lfu_freqToFreqList s) (lfu_minFreq s) = Some (key # rest)"
    by (cases "map_of (lfu_freqToFreqList s) (lfu_minFreq s)";
        cases "lfu_bucket (lfu_minFreq s) (lfu_freqToFreqList s)")
       (auto simp: lfu_bucket_def)
  then have "key \<in> set (lfu_bucket (lfu_minFreq s) (lfu_freqToFreqList s))"
    by (simp add: lfu_bucket_def)
  then obtain node where n: "map_of (lfu_nodeMap s) key = Some node"
    using st unfolding lfu_struct_def by blast
  have mem: "(key, node) \<in> set (lfu_nodeMap s)" using n by (rule map_of_SomeD)
  have f: "1 \<le> node_freq node" "node_freq node \<le> hi"
    using r mem by (auto simp: aging_range_def)
  note k = kickOut_range[OF r]
  have tt: "tlo \<le> aging_curTotalNum (kickOut s)" "aging_curTotalNum (kickOut s) \<le> thi"
    using k(1) by (simp_all add: aging_range_def)
  let ?t = "aging_curTotalNum (kickOut s) - node_freq node"
  have "INT_MIN \<le> ?t" "?t \<le> INT_MAX" using tt f b by simp_all
  then have a: "as_int ?t = Some ?t" by (rule as_int_in)
  obtain s' where s': "decreaseFreqNum (node_freq node) (kickOut s) = Some s'"
    "aging_range hi (tlo - hi) thi s'" "lfu_capacity s' = lfu_capacity s"
  proof -
    let ?s' = "(kickOut s)\<lparr>aging_curTotalNum := ?t,
       aging_curAverageNum := (if lfu_nodeMap (kickOut s) = [] then 0
                               else averageNum ?t (length (lfu_nodeMap (kickOut s))))\<rparr>"
    have e: "decreaseFreqNum (node_freq node) (kickOut s) = Some ?s'"
      using a by (simp add: decreaseFreqNum_def Let_def)
    have "aging_range hi (tlo - hi) thi ?s'"
      using k(1) tt f by (simp add: aging_range_def)
    then show ?thesis using that e k(2) by simp
  qed
  have "aging_kickOut s = Some s'"
    using bk n s'(1) by (simp add: aging_kickOut_def)
  then show ?thesis using s' by simp
qed


lemma aging_range_mono:
  "aging_range hi tlo thi s \<Longrightarrow> hi \<le> hi' \<Longrightarrow> tlo' \<le> tlo \<Longrightarrow> thi \<le> thi' \<Longrightarrow>
   aging_range hi' tlo' thi' s"
  by (fastforce simp: aging_range_def)

lemma aging_putInternal_Some:
  assumes r: "aging_range hi tlo thi s" and inv: "lfu_inv s" and c: "lfu_capacity s \<noteq> 0"
    and b: "1 \<le> hi" "hi \<le> INT_MAX" "thi < INT_MAX" "INT_MIN + hi \<le> tlo"
  shows "\<exists>s'. aging_putInternal walk key v s = Some s'
           \<and> aging_range hi (tlo - hi + 1) (thi + 1) s'
           \<and> lfu_capacity s' = lfu_capacity s
           \<and> map_option node_value (map_of (lfu_nodeMap s') key) = Some v"
proof -
  obtain s1 where s1:
    "(if int (length (lfu_nodeMap s)) = lfu_capacity s then aging_kickOut s else Some s) = Some s1"
    "aging_range hi (tlo - hi) thi s1" "lfu_capacity s1 = lfu_capacity s"
  proof (cases "int (length (lfu_nodeMap s)) = lfu_capacity s")
    case True
    then have ne: "lfu_nodeMap s \<noteq> []" using c by auto
    have thi: "thi \<le> INT_MAX" using b(3) by simp
    obtain s' where "aging_kickOut s = Some s'" "aging_range hi (tlo - hi) thi s'"
      "lfu_capacity s' = lfu_capacity s"
      using aging_kickOut_Some[OF r inv ne b(2) b(4) thi] by blast
    then show ?thesis using that True by simp
  next
    case False
    have "aging_range hi (tlo - hi) thi s"
      using aging_range_mono[OF r, of hi "tlo - hi" thi] b(1) by simp
    then show ?thesis using that False by simp
  qed
  let ?s2 = "s1\<lparr>lfu_nodeMap :=
                   AList.update key \<lparr>node_freq = 1, node_value = v\<rparr> (lfu_nodeMap s1),
                 lfu_freqToFreqList := addToFreqList key 1 (lfu_freqToFreqList s1),
                 lfu_minFreq := min (lfu_minFreq s1) 1\<rparr>"
  have r2: "aging_range hi (tlo - hi) thi ?s2"
    unfolding aging_range_def
  proof (intro conjI ballI)
    fix x assume "x \<in> set (lfu_nodeMap ?s2)"
    then have "x = (key, \<lparr>node_freq = 1, node_value = v\<rparr>) \<or> x \<in> set (lfu_nodeMap s1)"
      using set_alist_update[of x key "\<lparr>node_freq = 1, node_value = v\<rparr>" "lfu_nodeMap s1"]
      by simp
    then show "case x of (key, node) \<Rightarrow> 1 \<le> node_freq node \<and> node_freq node \<le> hi"
      using b(1) s1(2) by (auto simp: aging_range_def)
  qed (use s1(2) in \<open>simp_all add: aging_range_def\<close>)
  have lo: "INT_MIN - 1 \<le> tlo - hi" using b(4) by simp
  obtain s' where s': "addFreqNum walk ?s2 = Some s'"
    "aging_range hi (tlo - hi + 1) (thi + 1) s'" "lfu_capacity s' = lfu_capacity ?s2"
    "\<forall>k. map_option node_value (map_of (lfu_nodeMap s') k)
            = map_option node_value (map_of (lfu_nodeMap ?s2) k)"
    using addFreqNum_Some[OF r2 b(2) b(3) lo, of walk] by blast
  have e: "aging_putInternal walk key v s = Some s'"
    unfolding aging_putInternal_def s1(1) using s'(1) by simp
  have "map_option node_value (map_of (lfu_nodeMap s') key) = Some v"
    using s'(4) by (simp add: update_conv')
  then show ?thesis using e s'(2,3) s1(3) by simp
qed

lemma aging_put_Some:
  assumes r: "aging_range hi tlo thi s" and inv: "lfu_inv s" and c: "lfu_capacity s \<noteq> 0"
    and b: "1 \<le> hi" "hi < INT_MAX" "thi < INT_MAX" "INT_MIN + hi \<le> tlo"
  shows "\<exists>s'. aging_put walk key v s = Some s'
           \<and> aging_range (hi + 1) (tlo - hi) (thi + 1) s'
           \<and> lfu_capacity s' = lfu_capacity s
           \<and> map_option node_value (map_of (lfu_nodeMap s') key) = Some v"
proof (cases "map_of (lfu_nodeMap s) key")
  case None
  have hi: "hi \<le> INT_MAX" using b(2) by simp
  obtain s' where s': "aging_putInternal walk key v s = Some s'"
    "aging_range hi (tlo - hi + 1) (thi + 1) s'" "lfu_capacity s' = lfu_capacity s"
    "map_option node_value (map_of (lfu_nodeMap s') key) = Some v"
    using aging_putInternal_Some[OF r inv c b(1) hi b(3,4), of walk key v] by blast
  have "aging_range (hi + 1) (tlo - hi) (thi + 1) s'"
    using aging_range_mono[OF s'(2), of "hi + 1" "tlo - hi" "thi + 1"] by simp
  then show ?thesis using None c s' by (simp add: aging_put_def)
next
  case (Some node)
  let ?n = "node\<lparr>node_value := v\<rparr>"
  let ?s0 = "s\<lparr>lfu_nodeMap := AList.update key ?n (lfu_nodeMap s)\<rparr>"
  have mem: "(key, node) \<in> set (lfu_nodeMap s)" using Some by (rule map_of_SomeD)
  have r0: "aging_range hi tlo thi ?s0"
    unfolding aging_range_def
  proof (intro conjI ballI)
    fix x assume "x \<in> set (lfu_nodeMap ?s0)"
    then have "x = (key, ?n) \<or> x \<in> set (lfu_nodeMap s)"
      using set_alist_update[of x key ?n "lfu_nodeMap s"] by simp
    then show "case x of (key, node) \<Rightarrow> 1 \<le> node_freq node \<and> node_freq node \<le> hi"
      using r mem by (auto simp: aging_range_def)
  qed (use r in \<open>simp_all add: aging_range_def\<close>)
  have n0: "map_of (lfu_nodeMap ?s0) key = Some ?n" by (simp add: update_conv')
  have lo: "INT_MIN - 1 \<le> tlo" using b(1,4) by simp
  obtain s' where s': "aging_getInternal walk key v ?s0 = Some (node_value ?n, s')"
    "aging_range (hi + 1) (tlo + 1) (thi + 1) s'" "lfu_capacity s' = lfu_capacity ?s0"
    "\<forall>k. map_option node_value (map_of (lfu_nodeMap s') k)
            = map_option node_value (map_of (lfu_nodeMap ?s0) k)"
    using aging_getInternal_Some[OF r0 n0 b(2) b(3) lo, of walk v] by blast
  have rr: "aging_range (hi + 1) (tlo - hi) (thi + 1) s'"
    using aging_range_mono[OF s'(2), of "hi + 1" "tlo - hi" "thi + 1"] b(1) by simp
  have vv: "map_option node_value (map_of (lfu_nodeMap s') key) = Some v"
    using s'(4) by (simp add: update_conv')
  have "aging_put walk key v s = Some s'"
    using Some c s'(1) by (simp add: aging_put_def)
  then show ?thesis using rr vv s'(3) by simp
qed

lemma aging_get_hit:
  assumes r: "aging_range hi tlo thi s"
    and v: "map_option node_value (map_of (lfu_nodeMap s) key) = Some v"
    and b: "hi < INT_MAX" "thi < INT_MAX" "INT_MIN - 1 \<le> tlo"
  shows "\<exists>s'. aging_get walk key b s = Some (True, v, s')"
proof -
  obtain node where n: "map_of (lfu_nodeMap s) key = Some node" "node_value node = v"
    using v by auto
  obtain s' where "aging_getInternal walk key b s = Some (node_value node, s')"
    using aging_getInternal_Some[OF r n(1) b, of walk b] by blast
  then show ?thesis using n by (simp add: aging_get_def)
qed

lemma aging_get_miss:
  "map_of (lfu_nodeMap s) key = None \<Longrightarrow> aging_get walk key b s = Some (False, b, s)"
  by (simp add: aging_get_def)

lemma aging_put_zero: "lfu_capacity s = 0 \<Longrightarrow> aging_put walk key v s = Some s"
  by (simp add: aging_put_def)

lemma aging_put_then_get:
  assumes "lfu_inv a" "aging_small a" "lfu_capacity a \<noteq> 0"
  shows "\<exists>a1 a2. aging_put walk key v a = Some a1
           \<and> aging_get walk key b a1 = Some (True, v, a2)"
proof -
  have r: "aging_range (INT_MAX - 2) 0 (INT_MAX - 2) a"
    using assms(2) by (simp add: aging_small_def)
  obtain a1 where a1: "aging_put walk key v a = Some a1"
    "aging_range (INT_MAX - 2 + 1) (0 - (INT_MAX - 2)) (INT_MAX - 2 + 1) a1"
    "map_option node_value (map_of (lfu_nodeMap a1) key) = Some v"
    using aging_put_Some[OF r assms(1,3), of walk key v]
    by (auto simp: INT_MAX_def INT_MIN_def)
  obtain a2 where "aging_get walk key b a1 = Some (True, v, a2)"
    using aging_get_hit[OF a1(2,3), of walk b] by (auto simp: INT_MAX_def INT_MIN_def)
  then show ?thesis using a1(1) by blast
qed

lemma lfu_inv_aging_init: "lfu_inv (KLfuAgingCache c m)"
  by (simp add: lfu_inv_def lfu_struct_def KLfuAgingCache_def lfu_bucket_def INT8_MAX_def)

lemma aging_small_init:
  "0 \<le> m \<Longrightarrow> m \<le> INT_MAX \<Longrightarrow> aging_small (KLfuAgingCache c m)"
  by (simp add: aging_small_def aging_range_def KLfuAgingCache_def INT_MAX_def)

text \<open>
  Claim C5 on an aging cache of capacity 1 and ceiling 252, after \<open>put(5, 50)\<close> and 252
  calls of \<open>get(5)\<close>. The last of them brings the average to 253, above the ceiling, and
  the aging pass lowers the frequency of the one node from 253 to 127. The claim has
  \<open>minFreq\<close> recomputed over the buckets that are not empty: the only such bucket is the
  one of 127. \<open>updateMinFreq\<close> starts its minimum at \<open>INT8_MAX\<close>, which is 127, cannot tell
  this result from having found no bucket, and sets \<open>minFreq_\<close> to 1, whose bucket is
  empty. The next \<open>put\<close> of a new key finds the cache full and evicts from that empty
  bucket (it takes the tail sentinel for a node), which is undefined.
\<close>

theorem aging_minFreq_not_recomputed:
  "(case aging_run (map fst) (KLfuAgingCache 1 252 :: (nat, nat) lfu_aging_state)
         (CachePut 5 50 # replicate 252 (CacheGet 5 0)) of
      None \<Rightarrow> False
    | Some s \<Rightarrow>
        lfu_nodeMap s = [(5, \<lparr>node_freq = 127, node_value = 50\<rparr>)]
        \<and> lfu_bucket 127 (lfu_freqToFreqList s) = [5]
        \<and> lfu_minFreq s = 1
        \<and> lfu_bucket 1 (lfu_freqToFreqList s) = []
        \<and> aging_curTotalNum s = 253
        \<and> aging_put (map fst) 6 60 s = None)"
  by code_simp


section \<open>Properties of the sharded caches\<close>


lemma int_of_size_t_small: "n < 2 ^ 31 \<Longrightarrow> int_of_size_t n = int n"
proof -
  assume a: "n < 2 ^ 31"
  then have "int n < 2 ^ 31" by (metis of_nat_less_iff of_nat_numeral of_nat_power)
  then show ?thesis by (simp add: int_of_size_t_def Let_def)
qed

lemma size_t_of_int_small: "0 \<le> i \<Longrightarrow> i < 2 ^ 31 \<Longrightarrow> size_t_of_int i = nat i"
  by (simp add: size_t_of_int_def)

lemma sliceSize_le:
  assumes "0 < n"
  shows "sliceSize capacity n \<le> capacity"
proof -
  have "1 \<le> real_of_int n" using assms by simp
  then have "real capacity * 1 \<le> real capacity * real_of_int n"
    by (intro mult_left_mono) simp_all
  then have "real capacity / real_of_int n \<le> real capacity"
    using assms by (simp add: divide_le_eq)
  then have "\<lceil>real capacity / real_of_int n\<rceil> \<le> \<lceil>real capacity\<rceil>" by (rule ceiling_mono)
  then have "\<lceil>real capacity / real_of_int n\<rceil> \<le> int capacity" by simp
  then show ?thesis unfolding sliceSize_def by (simp only: nat_le_iff)
qed

lemma sliceSize_int:
  assumes "0 < n"
  shows "int (sliceSize capacity n) = \<lceil>real capacity / real_of_int n\<rceil>"
proof -
  have "0 \<le> real capacity / real_of_int n" using assms by simp
  then have "0 \<le> \<lceil>real capacity / real_of_int n\<rceil>" by (simp add: ceiling_le_iff[symmetric] order_trans[OF _ le_of_int_ceiling])
  then show ?thesis by (simp add: sliceSize_def)
qed


lemma set_list_update_all:
  "i < length xs \<Longrightarrow> \<forall>x \<in> set xs. P x \<Longrightarrow> P y \<Longrightarrow> \<forall>x \<in> set (xs[i := y]). P x"
  by (metis insert_iff set_update_subset_insert subsetD)

lemma hlru_shape_init:
  assumes "0 < n" "capacity < 2 ^ 31"
  shows "hlru_shape n \<lceil>real capacity / real_of_int n\<rceil>
     \<lparr>hlru_capacity = capacity, hlru_sliceNum = n,
      hlru_lruSliceCaches = replicate (nat n) (KLruCache (int_of_size_t (sliceSize capacity n)))\<rparr>"
proof -
  have "sliceSize capacity n < 2 ^ 31" using sliceSize_le[OF assms(1), of capacity] assms(2) by simp
  then have "int_of_size_t (sliceSize capacity n) = \<lceil>real capacity / real_of_int n\<rceil>"
    by (simp add: int_of_size_t_small sliceSize_int[OF assms(1)])
  then show ?thesis by (simp add: hlru_shape_def KLruCache_def)
qed

lemma hlru_put_shape:
  assumes "hlru_shape n c s" "0 < n" "n < 2 ^ 31"
  shows "hlru_put Hash key v s =
           Some (s\<lparr>hlru_lruSliceCaches := (hlru_lruSliceCaches s)
              [Hash key mod nat n := lru_put key v (hlru_lruSliceCaches s ! (Hash key mod nat n))]\<rparr>)"
    and "hlru_shape n c (s\<lparr>hlru_lruSliceCaches := (hlru_lruSliceCaches s)
              [Hash key mod nat n := lru_put key v (hlru_lruSliceCaches s ! (Hash key mod nat n))]\<rparr>)"
proof -
  have sn: "hlru_sliceNum s = n" and len: "length (hlru_lruSliceCaches s) = nat n"
    and caps: "\<forall>slice \<in> set (hlru_lruSliceCaches s). lru_capacity slice = c"
    using assms(1) by (simp_all add: hlru_shape_def)
  have idx: "Hash key mod nat n < length (hlru_lruSliceCaches s)" using assms(2) len by simp
  show "hlru_put Hash key v s =
           Some (s\<lparr>hlru_lruSliceCaches := (hlru_lruSliceCaches s)
              [Hash key mod nat n := lru_put key v (hlru_lruSliceCaches s ! (Hash key mod nat n))]\<rparr>)"
    using assms(2,3) sn idx by (simp add: hlru_put_def Let_def size_t_of_int_small)
  have "lru_capacity (lru_put key v (hlru_lruSliceCaches s ! (Hash key mod nat n))) = c"
    using caps idx by simp
  then have "\<forall>x \<in> set ((hlru_lruSliceCaches s)
      [Hash key mod nat n := lru_put key v (hlru_lruSliceCaches s ! (Hash key mod nat n))]).
      lru_capacity x = c"
    by (rule set_list_update_all[OF idx caps])
  then show "hlru_shape n c (s\<lparr>hlru_lruSliceCaches := (hlru_lruSliceCaches s)
              [Hash key mod nat n := lru_put key v (hlru_lruSliceCaches s ! (Hash key mod nat n))]\<rparr>)"
    using sn len by (simp add: hlru_shape_def)
qed

lemma hlru_get_shape:
  assumes "hlru_shape n c s" "0 < n" "n < 2 ^ 31"
  shows "hlru_get Hash key b s =
           Some (fst (lru_get key b (hlru_lruSliceCaches s ! (Hash key mod nat n))),
                 fst (snd (lru_get key b (hlru_lruSliceCaches s ! (Hash key mod nat n)))),
                 s\<lparr>hlru_lruSliceCaches := (hlru_lruSliceCaches s)
                    [Hash key mod nat n :=
                       snd (snd (lru_get key b (hlru_lruSliceCaches s ! (Hash key mod nat n))))]\<rparr>)"
    and "hlru_shape n c (s\<lparr>hlru_lruSliceCaches := (hlru_lruSliceCaches s)
              [Hash key mod nat n :=
                 snd (snd (lru_get key b (hlru_lruSliceCaches s ! (Hash key mod nat n))))]\<rparr>)"
proof -
  have sn: "hlru_sliceNum s = n" and len: "length (hlru_lruSliceCaches s) = nat n"
    and caps: "\<forall>slice \<in> set (hlru_lruSliceCaches s). lru_capacity slice = c"
    using assms(1) by (simp_all add: hlru_shape_def)
  have idx: "Hash key mod nat n < length (hlru_lruSliceCaches s)" using assms(2) len by simp
  show "hlru_get Hash key b s =
           Some (fst (lru_get key b (hlru_lruSliceCaches s ! (Hash key mod nat n))),
                 fst (snd (lru_get key b (hlru_lruSliceCaches s ! (Hash key mod nat n)))),
                 s\<lparr>hlru_lruSliceCaches := (hlru_lruSliceCaches s)
                    [Hash key mod nat n :=
                       snd (snd (lru_get key b (hlru_lruSliceCaches s ! (Hash key mod nat n))))]\<rparr>)"
    using assms(2,3) sn idx
    by (simp add: hlru_get_def Let_def size_t_of_int_small split: prod.splits)
  have "lru_capacity (snd (snd (lru_get key b (hlru_lruSliceCaches s ! (Hash key mod nat n))))) = c"
    using caps idx by simp
  then have "\<forall>x \<in> set ((hlru_lruSliceCaches s)
      [Hash key mod nat n :=
         snd (snd (lru_get key b (hlru_lruSliceCaches s ! (Hash key mod nat n))))]).
      lru_capacity x = c"
    by (rule set_list_update_all[OF idx caps])
  then show "hlru_shape n c (s\<lparr>hlru_lruSliceCaches := (hlru_lruSliceCaches s)
              [Hash key mod nat n :=
                 snd (snd (lru_get key b (hlru_lruSliceCaches s ! (Hash key mod nat n))))]\<rparr>)"
    using sn len by (simp add: hlru_shape_def)
qed

lemma hlru_step_shape:
  assumes "hlru_shape n c s" "0 < n" "n < 2 ^ 31"
  shows "\<exists>s'. hlru_step Hash s op = Some s' \<and> hlru_shape n c s'"
proof (cases op)
  case (CachePut k v)
  then show ?thesis using hlru_put_shape[OF assms, of Hash k v] by simp
next
  case (CacheGet k b)
  then show ?thesis using hlru_get_shape[OF assms, of Hash k b] by simp
qed

lemma hlru_run_shape:
  assumes "hlru_shape n c s" "0 < n" "n < 2 ^ 31"
  shows "\<exists>s'. hlru_run Hash s ops = Some s' \<and> hlru_shape n c s'"
  using assms(1)
proof (induction ops arbitrary: s)
  case Nil
  then show ?case by simp
next
  case (Cons op ops)
  obtain s1 where s1: "hlru_step Hash s op = Some s1" "hlru_shape n c s1"
    using hlru_step_shape[OF Cons.prems assms(2,3)] by blast
  then show ?case using Cons.IH[OF s1(2)] by simp
qed

lemma hlfu_shape_init:
  assumes "0 < n" "capacity < 2 ^ 31"
  shows "hlfu_shape n \<lceil>real capacity / real_of_int n\<rceil>
     \<lparr>hlfu_capacity = capacity, hlfu_sliceNum = n,
      hlfu_lfuSliceCaches = replicate (nat n) (KLfuAgingCache (int_of_size_t (sliceSize capacity n)) maxAverageNum)\<rparr>"
proof -
  have "sliceSize capacity n < 2 ^ 31" using sliceSize_le[OF assms(1), of capacity] assms(2) by simp
  then have "int_of_size_t (sliceSize capacity n) = \<lceil>real capacity / real_of_int n\<rceil>"
    by (simp add: int_of_size_t_small sliceSize_int[OF assms(1)])
  then show ?thesis by (simp add: hlfu_shape_def KLfuAgingCache_def)
qed


lemma sliceSize_pos:
  assumes "0 < n" "0 < capacity"
  shows "0 < \<lceil>real capacity / real_of_int n\<rceil>"
proof -
  have "0 < real capacity / real_of_int n" using assms by simp
  then show ?thesis by (simp add: less_ceiling_iff)
qed

lemma hlru_put_then_get:
  assumes sh: "hlru_shape n c hs" and n: "0 < n" "n < 2 ^ 31" and c: "0 < c"
  shows "\<exists>hs1 hs2. hlru_put Hash key v hs = Some hs1
           \<and> hlru_get Hash key b hs1 = Some (True, v, hs2)"
proof -
  let ?i = "Hash key mod nat n"
  let ?hs1 = "hs\<lparr>hlru_lruSliceCaches := (hlru_lruSliceCaches hs)
              [?i := lru_put key v (hlru_lruSliceCaches hs ! ?i)]\<rparr>"
  have len: "length (hlru_lruSliceCaches hs) = nat n"
    and caps: "\<forall>slice \<in> set (hlru_lruSliceCaches hs). lru_capacity slice = c"
    using sh by (simp_all add: hlru_shape_def)
  have i: "?i < length (hlru_lruSliceCaches hs)" using len n by simp
  have p: "hlru_put Hash key v hs = Some ?hs1" and sh1: "hlru_shape n c ?hs1"
    using hlru_put_shape[OF sh n, of Hash key v] by simp_all
  have "lru_capacity (hlru_lruSliceCaches hs ! ?i) = c" using caps i by simp
  then have pg: "fst (lru_get key b (lru_put key v (hlru_lruSliceCaches hs ! ?i))) = True
       \<and> fst (snd (lru_get key b (lru_put key v (hlru_lruSliceCaches hs ! ?i)))) = v"
    using c by (intro lru_put_then_get) simp
  have "\<exists>hs2. hlru_get Hash key b ?hs1 = Some (True, v, hs2)"
    using hlru_get_shape(1)[OF sh1 n, of Hash key b] i pg by simp
  then show ?thesis using p by blast
qed

lemma hlfu_put_eq:
  assumes "hlfu_shape n c s" "0 < n" "n < 2 ^ 31"
  shows "hlfu_put walk Hash key v s =
           (case aging_put walk key v (hlfu_lfuSliceCaches s ! (Hash key mod nat n)) of
              None \<Rightarrow> None
            | Some slice \<Rightarrow>
                Some (s\<lparr>hlfu_lfuSliceCaches :=
                        (hlfu_lfuSliceCaches s)[Hash key mod nat n := slice]\<rparr>))"
proof -
  have sn: "hlfu_sliceNum s = n" and len: "length (hlfu_lfuSliceCaches s) = nat n"
    using assms(1) by (simp_all add: hlfu_shape_def)
  have idx: "Hash key mod nat n < length (hlfu_lfuSliceCaches s)" using assms(2) len by simp
  show ?thesis
    using assms(2,3) sn idx by (simp add: hlfu_put_def Let_def size_t_of_int_small)
qed

lemma hlfu_get_eq:
  assumes "hlfu_shape n c s" "0 < n" "n < 2 ^ 31"
  shows "hlfu_get walk Hash key b s =
           (case aging_get walk key b (hlfu_lfuSliceCaches s ! (Hash key mod nat n)) of
              None \<Rightarrow> None
            | Some (hit, value', slice) \<Rightarrow>
                Some (hit, value',
                      s\<lparr>hlfu_lfuSliceCaches :=
                          (hlfu_lfuSliceCaches s)[Hash key mod nat n := slice]\<rparr>))"
proof -
  have sn: "hlfu_sliceNum s = n" and len: "length (hlfu_lfuSliceCaches s) = nat n"
    using assms(1) by (simp_all add: hlfu_shape_def)
  have idx: "Hash key mod nat n < length (hlfu_lfuSliceCaches s)" using assms(2) len by simp
  show ?thesis
    using assms(2,3) sn idx by (simp add: hlfu_get_def Let_def size_t_of_int_small)
qed

lemma hlfu_put_then_get:
  assumes sh: "hlfu_shape n c hf" and n: "0 < n" "n < 2 ^ 31" and c: "c \<noteq> 0"
    and inv: "lfu_inv (hlfu_lfuSliceCaches hf ! (Hash key mod nat n))"
    and sm: "aging_small (hlfu_lfuSliceCaches hf ! (Hash key mod nat n))"
  shows "\<exists>hf1 hf2. hlfu_put walk Hash key v hf = Some hf1
           \<and> hlfu_get walk Hash key b hf1 = Some (True, v, hf2)"
proof -
  let ?i = "Hash key mod nat n"
  have sn: "hlfu_sliceNum hf = n" and len: "length (hlfu_lfuSliceCaches hf) = nat n"
    and caps: "\<forall>slice \<in> set (hlfu_lfuSliceCaches hf). lfu_capacity slice = c"
    using sh by (simp_all add: hlfu_shape_def)
  have i: "?i < length (hlfu_lfuSliceCaches hf)" using len n by simp
  have cap: "lfu_capacity (hlfu_lfuSliceCaches hf ! ?i) \<noteq> 0" using caps i c by simp
  obtain a1 a2 where a: "aging_put walk key v (hlfu_lfuSliceCaches hf ! ?i) = Some a1"
    "aging_get walk key b a1 = Some (True, v, a2)"
    using aging_put_then_get[OF inv sm cap, of walk key v b] by blast
  let ?hf1 = "hf\<lparr>hlfu_lfuSliceCaches := (hlfu_lfuSliceCaches hf)[?i := a1]\<rparr>"
  have p: "hlfu_put walk Hash key v hf = Some ?hf1"
    using hlfu_put_eq[OF sh n, of walk Hash key v] a(1) by simp
  have g: "hlfu_get walk Hash key b ?hf1 =
             Some (True, v, ?hf1\<lparr>hlfu_lfuSliceCaches := (hlfu_lfuSliceCaches ?hf1)[?i := a2]\<rparr>)"
    using sn len i n a(2)
    by (simp add: hlfu_get_def Let_def size_t_of_int_small)
  show ?thesis using p g by blast
qed

lemma hlru_put_zero:
  assumes sh: "hlru_shape n c hs" and n: "0 < n" "n < 2 ^ 31" and c: "c \<le> 0"
  shows "hlru_put Hash key v hs = Some hs"
proof -
  let ?i = "Hash key mod nat n"
  have len: "length (hlru_lruSliceCaches hs) = nat n"
    and caps: "\<forall>slice \<in> set (hlru_lruSliceCaches hs). lru_capacity slice = c"
    using sh by (simp_all add: hlru_shape_def)
  have i: "?i < length (hlru_lruSliceCaches hs)" using len n by simp
  have "lru_capacity (hlru_lruSliceCaches hs ! ?i) \<le> 0" using caps i c by simp
  then have "lru_put key v (hlru_lruSliceCaches hs ! ?i) = hlru_lruSliceCaches hs ! ?i"
    by (simp add: lru_put_def)
  then show ?thesis using hlru_put_shape(1)[OF sh n, of Hash key v] by simp
qed

lemma hlfu_put_zero:
  assumes sh: "hlfu_shape n 0 hf" and n: "0 < n" "n < 2 ^ 31"
  shows "hlfu_put walk Hash key v hf = Some hf"
proof -
  let ?i = "Hash key mod nat n"
  have len: "length (hlfu_lfuSliceCaches hf) = nat n"
    and caps: "\<forall>slice \<in> set (hlfu_lfuSliceCaches hf). lfu_capacity slice = 0"
    using sh by (simp_all add: hlfu_shape_def)
  have i: "?i < length (hlfu_lfuSliceCaches hf)" using len n by simp
  have "lfu_capacity (hlfu_lfuSliceCaches hf ! ?i) = 0" using caps i by simp
  then have "aging_put walk key v (hlfu_lfuSliceCaches hf ! ?i) = Some (hlfu_lfuSliceCaches hf ! ?i)"
    by (rule aging_put_zero)
  then show ?thesis using hlfu_put_eq[OF sh n, of walk Hash key v] by simp
qed


text \<open>
  Claim C8 at the total capacity 2^31 with one shard. The claim gives the shard the
  capacity \<open>ceil(2^31 / 1) = 2^31\<close>, and the constructors compute that number, as a
  \<open>size_t\<close>. They pass it to \<open>KLruCache(int capacity)\<close> and
  \<open>KLfuAgingCache(int capacity, int maxAverageNum)\<close>, where it arrives as \<open>-2^31\<close>: the shard
  is built with a negative capacity. The LRU shard then ignores every put, so that a get
  after a put is a miss.
\<close>

theorem sharded_capacity_narrowed_to_int:
  "\<lceil>real (2147483648::nat) / real_of_int 1\<rceil> = 2147483648
   \<and> hlru_sliceNum (KHashLruCaches 4 2147483648 1 :: (nat, nat) hash_lru_state) = 1
   \<and> hlru_lruSliceCaches (KHashLruCaches 4 2147483648 1 :: (nat, nat) hash_lru_state)
        = [KLruCache (- 2147483648)]
   \<and> hlfu_lfuSliceCaches (KHashLfuCache 4 2147483648 1 10 :: (nat, nat) hash_lfu_state)
        = [KLfuAgingCache (- 2147483648) 10]
   \<and> hlru_put (\<lambda>k. k) (7::nat) (70::nat) (KHashLruCaches 4 2147483648 1)
        = Some (KHashLruCaches 4 2147483648 1)
   \<and> map_option fst (hlru_get (\<lambda>k. k) (7::nat) (0::nat) (KHashLruCaches 4 2147483648 1))
        = Some False"
proof -
  have ss: "sliceSize 2147483648 1 = 2147483648" by (simp add: sliceSize_def)
  have i1: "int_of_size_t 2147483648 = - 2147483648" by (simp add: int_of_size_t_def)
  have k: "KHashLruCaches 4 2147483648 1 =
     (\<lparr>hlru_capacity = 2147483648, hlru_sliceNum = 1,
       hlru_lruSliceCaches = [KLruCache (- 2147483648)]\<rparr> :: (nat, nat) hash_lru_state)"
    by (simp add: KHashLruCaches_def ss i1)
  have f: "KHashLfuCache 4 2147483648 1 10 =
     (\<lparr>hlfu_capacity = 2147483648, hlfu_sliceNum = 1,
       hlfu_lfuSliceCaches = [KLfuAgingCache (- 2147483648) 10]\<rparr> :: (nat, nat) hash_lfu_state)"
    by (simp add: KHashLfuCache_def ss i1)
  have s1: "size_t_of_int 1 = 1" by (simp add: size_t_of_int_def)
  have c1: "\<lceil>real (2147483648::nat) / real_of_int 1\<rceil> = 2147483648" by simp
  have c5: "hlru_put (\<lambda>k. k) (7::nat) (70::nat) (KHashLruCaches 4 2147483648 1)
        = Some (KHashLruCaches 4 2147483648 1)"
    unfolding k by (simp add: hlru_put_def s1 lru_put_def KLruCache_def)
  have c6: "map_option fst (hlru_get (\<lambda>k. k) (7::nat) (0::nat) (KHashLruCaches 4 2147483648 1))
        = Some False"
    unfolding k by (simp add: hlru_get_def s1 lru_get_def KLruCache_def)
  show ?thesis
    using c1 c5 c6 by (simp add: k f)
qed

section \<open>Properties of the ARC cache\<close>



lemma map_of_butlast_None: "map_of xs k = None \<Longrightarrow> map_of (butlast xs) k = None"
  by (induction xs) (auto split: if_splits)

lemma alru_evict_main_absent:
  "map_of (alru_main p) key = None \<Longrightarrow> map_of (alru_main (alru_evictLeastRecent p)) key = None"
  by (simp add: alru_evictLeastRecent_def Let_def map_of_butlast_None)

lemma alru_evict_capacity [simp]:
  "alru_capacity (alru_evictLeastRecent p) = alru_capacity p"
  by (simp add: alru_evictLeastRecent_def Let_def)

lemma alru_evict_ghostCapacity [simp]:
  "alru_ghostCapacity (alru_evictLeastRecent p) = alru_ghostCapacity p"
  by (simp add: alru_evictLeastRecent_def Let_def)

lemma alru_decrease_main_absent:
  "map_of (alru_main p) key = None \<Longrightarrow>
   map_of (alru_main (snd (alru_decreaseCapacity p))) key = None"
  by (simp add: alru_decreaseCapacity_def Let_def alru_evict_main_absent)

lemma alru_checkGhost_main [simp]:
  "alru_main (snd (alru_checkGhost key p)) = alru_main p"
  by (simp add: alru_checkGhost_def split: option.splits)

lemma alru_checkGhost_capacity [simp]:
  "alru_capacity (snd (alru_checkGhost key p)) = alru_capacity p"
  by (simp add: alru_checkGhost_def split: option.splits)

lemma alru_checkGhost_fst:
  "fst (alru_checkGhost key p) = map_option an_value (map_of (alru_ghost p) key)"
  by (simp add: alru_checkGhost_def split: option.splits)

lemma alfu_evict_main_absent:
  "map_of (alfu_mainCache p) key = None \<Longrightarrow>
   map_of (alfu_mainCache (alfu_evictLeastFrequent p)) key = None"
  by (simp add: alfu_evictLeastFrequent_def Let_def delete_conv'
      split: option.splits list.splits)

lemma alfu_evict_capacity [simp]:
  "alfu_capacity (alfu_evictLeastFrequent p) = alfu_capacity p"
  by (simp add: alfu_evictLeastFrequent_def Let_def split: option.splits list.splits)

lemma alfu_evict_ghostCapacity [simp]:
  "alfu_ghostCapacity (alfu_evictLeastFrequent p) = alfu_ghostCapacity p"
  by (simp add: alfu_evictLeastFrequent_def Let_def split: option.splits list.splits)

lemma alfu_decrease_main_absent:
  "map_of (alfu_mainCache p) key = None \<Longrightarrow>
   map_of (alfu_mainCache (snd (alfu_decreaseCapacity p))) key = None"
  by (simp add: alfu_decreaseCapacity_def Let_def alfu_evict_main_absent)

lemma alfu_checkGhost_main [simp]:
  "alfu_mainCache (snd (alfu_checkGhost key p)) = alfu_mainCache p"
  by (simp add: alfu_checkGhost_def split: option.splits)

lemma alfu_checkGhost_capacity [simp]:
  "alfu_capacity (snd (alfu_checkGhost key p)) = alfu_capacity p"
  by (simp add: alfu_checkGhost_def split: option.splits)

lemma alfu_checkGhost_fst:
  "fst (alfu_checkGhost key p) = map_option an_value (map_of (alfu_ghost p) key)"
  by (simp add: alfu_checkGhost_def split: option.splits)

lemma alfu_evict_ghost_absent:
  assumes "map_of (alfu_mainCache p) key = None" "map_of (alfu_ghost p) key = None"
  shows "map_of (alfu_ghost (alfu_evictLeastFrequent p)) key = None"
proof -
  have t: "map_of (alfu_removeOldestGhost (alfu_ghost p)) key = None"
    using assms(2) by (cases "alfu_ghost p") (auto simp: alfu_removeOldestGhost_def split: if_splits)
  show ?thesis
    using assms t
    by (auto simp: alfu_evictLeastFrequent_def Let_def map_add_def
        split: option.splits list.splits)
qed

lemma alfu_decrease_ghost_absent:
  assumes "map_of (alfu_mainCache p) key = None" "map_of (alfu_ghost p) key = None"
  shows "map_of (alfu_ghost (snd (alfu_decreaseCapacity p))) key = None"
  using assms by (simp add: alfu_decreaseCapacity_def Let_def alfu_evict_ghost_absent)


lemma alru_increase_fields [simp]:
  "alru_main (alru_increaseCapacity p) = alru_main p"
  "alru_ghost (alru_increaseCapacity p) = alru_ghost p"
  "alru_ghostCapacity (alru_increaseCapacity p) = alru_ghostCapacity p"
  "alru_capacity (alru_increaseCapacity p) = alru_capacity p + 1"
  by (simp_all add: alru_increaseCapacity_def)

lemma alfu_increase_fields [simp]:
  "alfu_mainCache (alfu_increaseCapacity p) = alfu_mainCache p"
  "alfu_ghost (alfu_increaseCapacity p) = alfu_ghost p"
  "alfu_freqMap (alfu_increaseCapacity p) = alfu_freqMap p"
  "alfu_minFreq (alfu_increaseCapacity p) = alfu_minFreq p"
  "alfu_ghostCapacity (alfu_increaseCapacity p) = alfu_ghostCapacity p"
  "alfu_capacity (alfu_increaseCapacity p) = alfu_capacity p + 1"
  by (simp_all add: alfu_increaseCapacity_def)

lemma checkLruGhost_miss:
  "map_of (alru_ghost (arc_lruPart s)) key = None \<Longrightarrow> checkLruGhost key s = (None, s)"
  by (simp add: checkLruGhost_def alru_checkGhost_def)

lemma checkLfuGhost_miss:
  "map_of (alfu_ghost (arc_lfuPart s)) key = None \<Longrightarrow> checkLfuGhost key s = (None, s)"
  by (simp add: checkLfuGhost_def alfu_checkGhost_def)

lemma checkLruGhost_hit:
  assumes "map_of (alru_ghost (arc_lruPart s)) key = Some g"
  shows "checkLruGhost key s =
     (Some (an_value g),
      s\<lparr>arc_lruPart :=
           (if fst (alfu_decreaseCapacity (arc_lfuPart s))
            then alru_increaseCapacity (snd (alru_checkGhost key (arc_lruPart s)))
            else snd (alru_checkGhost key (arc_lruPart s))),
        arc_lfuPart := snd (alfu_decreaseCapacity (arc_lfuPart s))\<rparr>)"
  using assms by (simp add: checkLruGhost_def alru_checkGhost_def case_prod_beta)

lemma checkLfuGhost_hit:
  assumes "map_of (alfu_ghost (arc_lfuPart s)) key = Some g"
  shows "checkLfuGhost key s =
     (Some (an_value g),
      s\<lparr>arc_lruPart := snd (alru_decreaseCapacity (arc_lruPart s)),
        arc_lfuPart :=
           (if fst (alru_decreaseCapacity (arc_lruPart s))
            then alfu_increaseCapacity (snd (alfu_checkGhost key (arc_lfuPart s)))
            else snd (alfu_checkGhost key (arc_lfuPart s)))\<rparr>)"
  using assms by (simp add: checkLfuGhost_def alfu_checkGhost_def case_prod_beta)

lemma checkLruGhost_absent:
  assumes "map_of (alru_main (arc_lruPart s)) key' = None"
    and "map_of (alfu_mainCache (arc_lfuPart s)) key' = None"
  shows "map_of (alru_main (arc_lruPart (snd (checkLruGhost key s)))) key' = None"
    and "map_of (alfu_mainCache (arc_lfuPart (snd (checkLruGhost key s)))) key' = None"
  using assms
  by (cases "map_of (alru_ghost (arc_lruPart s)) key";
      simp add: checkLruGhost_miss checkLruGhost_hit alfu_decrease_main_absent)+

lemma checkLfuGhost_absent:
  assumes "map_of (alru_main (arc_lruPart s)) key' = None"
    and "map_of (alfu_mainCache (arc_lfuPart s)) key' = None"
  shows "map_of (alru_main (arc_lruPart (snd (checkLfuGhost key s)))) key' = None"
    and "map_of (alfu_mainCache (arc_lfuPart (snd (checkLfuGhost key s)))) key' = None"
  using assms
  by (cases "map_of (alfu_ghost (arc_lfuPart s)) key";
      simp add: checkLfuGhost_miss checkLfuGhost_hit alru_decrease_main_absent)+

lemma checkGhostCaches_snd:
  "snd (checkGhostCaches key s) = snd (checkLfuGhost key (snd (checkLruGhost key s)))"
  by (simp add: checkGhostCaches_def case_prod_beta)

lemma checkGhostCaches_fst:
  "fst (checkGhostCaches key s) =
     (if fst (checkLfuGhost key (snd (checkLruGhost key s))) \<noteq> None
      then fst (checkLfuGhost key (snd (checkLruGhost key s)))
      else fst (checkLruGhost key s))"
  by (simp add: checkGhostCaches_def case_prod_beta)

lemma checkGhostCaches_absent:
  assumes "map_of (alru_main (arc_lruPart s)) key' = None"
    and "map_of (alfu_mainCache (arc_lfuPart s)) key' = None"
  shows "map_of (alru_main (arc_lruPart (snd (checkGhostCaches key s)))) key' = None"
    and "map_of (alfu_mainCache (arc_lfuPart (snd (checkGhostCaches key s)))) key' = None"
  using checkLfuGhost_absent[OF checkLruGhost_absent[OF assms, of key], of key]
  by (simp_all add: checkGhostCaches_snd)

lemma checkGhostCaches_lru_ghost_only:
  assumes "map_of (alru_ghost (arc_lruPart s)) key = Some g"
    and "map_of (alfu_ghost (arc_lfuPart s)) key = None"
    and "map_of (alfu_mainCache (arc_lfuPart s)) key = None"
  shows "fst (checkGhostCaches key s) = Some (an_value g)"
  using assms alfu_decrease_ghost_absent[OF assms(3,2)]
  by (simp add: checkGhostCaches_fst checkLruGhost_hit checkLfuGhost_miss)

lemma checkGhostCaches_lfu_ghost_only:
  assumes "map_of (alru_ghost (arc_lruPart s)) key = None"
    and "map_of (alfu_ghost (arc_lfuPart s)) key = Some g"
  shows "fst (checkGhostCaches key s) = Some (an_value g)"
  using assms
  by (simp add: checkGhostCaches_fst checkLruGhost_miss checkLfuGhost_hit)

lemma alru_put_new:
  assumes "map_of (alru_main p) key = None" "alru_capacity p \<noteq> 0"
  shows "alru_main (snd (alru_put key v p)) =
           (key, \<lparr>an_value = v, an_accessCount = 1\<rparr>) #
           (if length (alru_main p) \<ge> alru_capacity p then butlast (alru_main p) else alru_main p)"
    and "alru_capacity (snd (alru_put key v p)) = alru_capacity p"
  using assms
  by (auto simp: alru_put_def alru_addNewNode_def alru_evictLeastRecent_def Let_def)

lemma alru_put_zero:
  "alru_capacity p = 0 \<Longrightarrow> alru_put key v p = (False, p)"
  by (simp add: alru_put_def)

lemma arc_get_miss_eq:
  assumes "map_of (alru_main (arc_lruPart s)) key = None"
    and "map_of (alfu_mainCache (arc_lfuPart s)) key = None"
  shows "arc_get key buf s =
     (False, buf,
      (case fst (checkGhostCaches key s) of
         Some ghostValue \<Rightarrow>
           (snd (checkGhostCaches key s))\<lparr>arc_lruPart :=
              snd (alru_put key ghostValue (arc_lruPart (snd (checkGhostCaches key s))))\<rparr>
       | None \<Rightarrow> snd (checkGhostCaches key s)))"
  using checkGhostCaches_absent[OF assms, of key]
  by (simp add: arc_get_def case_prod_beta Let_def alru_existsInMain_def alfu_existsInMain_def
      split: option.splits)

lemma arc_get_hit_only_if_resident:
  "fst (arc_get key buf s) \<Longrightarrow>
   alru_existsInMain key (arc_lruPart s) \<or> alfu_existsInMain key (arc_lfuPart s)"
proof (rule ccontr)
  assume hit: "fst (arc_get key buf s)"
  assume "\<not> (alru_existsInMain key (arc_lruPart s) \<or> alfu_existsInMain key (arc_lfuPart s))"
  then have "map_of (alru_main (arc_lruPart s)) key = None"
    and "map_of (alfu_mainCache (arc_lfuPart s)) key = None"
    by (simp_all add: alru_existsInMain_def alfu_existsInMain_def)
  then have "fst (arc_get key buf s) = False" by (simp add: arc_get_miss_eq)
  then show False using hit by simp
qed


text \<open>
  A key that is in neither main part and in one of the two ghost lists, with ghost
  node \<open>g\<close>: \<open>get(key, value)\<close> returns false and leaves
  \<open>value\<close> alone. If the LRU part's capacity after the call is not 0, the key is back in
  the LRU main part, at the front, with the ghost's value and access count 1. If it is
  0 (\<open>ArcLruPart::put\<close> returns at once for capacity 0), the key is in neither main
  part afterwards. And for every state and key, \<open>get\<close> returns true only if the key was
  in one of the two main parts before the call.
\<close>

lemma arc_get_ghost_readmission:
  assumes "\<not> alru_existsInMain key (arc_lruPart s)"
    and "\<not> alfu_existsInMain key (arc_lfuPart s)"
    and "(map_of (alru_ghost (arc_lruPart s)) key = Some g \<and>
          map_of (alfu_ghost (arc_lfuPart s)) key = None) \<or>
         (map_of (alru_ghost (arc_lruPart s)) key = None \<and>
          map_of (alfu_ghost (arc_lfuPart s)) key = Some g)"
    and "s' = snd (snd (arc_get key buf s))"
  shows "fst (arc_get key buf s) = False
       \<and> fst (snd (arc_get key buf s)) = buf
       \<and> (alru_capacity (arc_lruPart s') \<noteq> 0 \<longrightarrow>
            (\<exists>rest. alru_main (arc_lruPart s') =
               (key, \<lparr>an_value = an_value g, an_accessCount = 1\<rparr>) # rest))
       \<and> (alru_capacity (arc_lruPart s') = 0 \<longrightarrow>
            \<not> alru_existsInMain key (arc_lruPart s') \<and>
            \<not> alfu_existsInMain key (arc_lfuPart s'))
       \<and> (\<forall>k b t. fst (arc_get k b t) \<longrightarrow>
            alru_existsInMain k (arc_lruPart t) \<or> alfu_existsInMain k (arc_lfuPart t))"
proof -
  let ?s1 = "snd (checkGhostCaches key s)"
  have a1: "map_of (alru_main (arc_lruPart s)) key = None"
    and a2: "map_of (alfu_mainCache (arc_lfuPart s)) key = None"
    using assms(1,2) by (simp_all add: alru_existsInMain_def alfu_existsInMain_def)
  have gv: "fst (checkGhostCaches key s) = Some (an_value g)"
    using assms(3) a2 checkGhostCaches_lru_ghost_only[of s key g]
      checkGhostCaches_lfu_ghost_only[of s key g] by blast
  have eq: "arc_get key buf s =
      (False, buf, ?s1\<lparr>arc_lruPart := snd (alru_put key (an_value g) (arc_lruPart ?s1))\<rparr>)"
    using arc_get_miss_eq[OF a1 a2, of buf] gv by simp
  have s': "s' = ?s1\<lparr>arc_lruPart := snd (alru_put key (an_value g) (arc_lruPart ?s1))\<rparr>"
    using assms(4) eq by simp
  note absent1 = checkGhostCaches_absent[OF a1 a2, of key]
  have c3: "alru_capacity (arc_lruPart s') \<noteq> 0 \<longrightarrow>
            (\<exists>rest. alru_main (arc_lruPart s') =
               (key, \<lparr>an_value = an_value g, an_accessCount = 1\<rparr>) # rest)"
  proof
    assume nz: "alru_capacity (arc_lruPart s') \<noteq> 0"
    have nz1: "alru_capacity (arc_lruPart ?s1) \<noteq> 0"
    proof
      assume "alru_capacity (arc_lruPart ?s1) = 0"
      then show False using nz by (simp add: s' alru_put_zero)
    qed
    show "\<exists>rest. alru_main (arc_lruPart s') =
               (key, \<lparr>an_value = an_value g, an_accessCount = 1\<rparr>) # rest"
      using alru_put_new(1)[OF absent1(1) nz1, of "an_value g"] by (simp add: s')
  qed
  have c4: "alru_capacity (arc_lruPart s') = 0 \<longrightarrow>
            \<not> alru_existsInMain key (arc_lruPart s') \<and>
            \<not> alfu_existsInMain key (arc_lfuPart s')"
  proof
    assume z: "alru_capacity (arc_lruPart s') = 0"
    have z1: "alru_capacity (arc_lruPart ?s1) = 0"
    proof (rule ccontr)
      assume nz1: "alru_capacity (arc_lruPart ?s1) \<noteq> 0"
      then show False using alru_put_new(2)[OF absent1(1) nz1, of "an_value g"] z by (simp add: s')
    qed
    then have "s' = ?s1" by (simp add: s' alru_put_zero)
    then show "\<not> alru_existsInMain key (arc_lruPart s') \<and>
               \<not> alfu_existsInMain key (arc_lfuPart s')"
      using absent1 by (simp add: alru_existsInMain_def alfu_existsInMain_def)
  qed
  have c5: "\<forall>k b t. fst (arc_get k b t) \<longrightarrow>
            alru_existsInMain k (arc_lruPart t) \<or> alfu_existsInMain k (arc_lfuPart t)"
    using arc_get_hit_only_if_resident by blast
  show ?thesis using eq c3 c4 c5 by simp
qed

lemma arc_example_lfu_ghost:
  "arc_run 2 2 [CachePut (1::nat) (10::nat), CacheGet 1 0, CachePut 2 20, CacheGet 2 0] =
    \<lparr>arc_capacity = 2, arc_transformThreshold = 2,
     arc_lruPart = \<lparr>alru_capacity = 1, alru_ghostCapacity = 1, alru_transformThreshold = 2,
                    alru_main = [], alru_ghost = []\<rparr>,
     arc_lfuPart = \<lparr>alfu_capacity = 1, alfu_ghostCapacity = 1, alfu_transformThreshold = 2,
                    alfu_minFreq = 1,
                    alfu_mainCache = [(2, \<lparr>an_value = 20, an_accessCount = 1\<rparr>)],
                    alfu_freqMap = [(1, [2])],
                    alfu_ghost = [(1, \<lparr>an_value = 10, an_accessCount = 1\<rparr>)]\<rparr>\<rparr>"
  by code_simp

lemma arc_example_lru_ghost:
  "arc_run 2 2 [CachePut (1::nat) (10::nat), CachePut 2 20] =
    \<lparr>arc_capacity = 2, arc_transformThreshold = 2,
     arc_lruPart = \<lparr>alru_capacity = 1, alru_ghostCapacity = 1, alru_transformThreshold = 2,
                    alru_main = [(2, \<lparr>an_value = 20, an_accessCount = 1\<rparr>)],
                    alru_ghost = [(1, \<lparr>an_value = 10, an_accessCount = 1\<rparr>)]\<rparr>,
     arc_lfuPart = \<lparr>alfu_capacity = 1, alfu_ghostCapacity = 1, alfu_transformThreshold = 2,
                    alfu_minFreq = 0, alfu_mainCache = [], alfu_freqMap = [], alfu_ghost = []\<rparr>\<rparr>"
  by code_simp

text \<open>
  Claim C1 on a \<open>KArcCache\<close> of capacity 2 and threshold 2, after
  \<open>put(1, 10); get(1); put(2, 20); get(2)\<close>. Key 1 is in the LFU ghost list and in no main
  part, key 2 is in the LFU main part, and both parts have capacity 1. \<open>get(1, value)\<close>
  finds the ghost entry and removes it, and the LRU part gives its only unit of capacity
  to the LFU part. The claim, and the comment at the call, have the key added to the LRU
  main part now. \<open>lruPart_->put(key, ghostValue)\<close> returns false at once for capacity 0, the
  coordinator does not look at the result, and key 1 is in no main part and no ghost list
  after the call: its value is lost.
\<close>

theorem arc_get_drops_ghost_key:
  "arc_run 2 2 [CachePut (1::nat) (10::nat), CacheGet 1 0, CachePut 2 20, CacheGet 2 0] =
     \<lparr>arc_capacity = 2, arc_transformThreshold = 2,
      arc_lruPart = \<lparr>alru_capacity = 1, alru_ghostCapacity = 1, alru_transformThreshold = 2,
                     alru_main = [], alru_ghost = []\<rparr>,
      arc_lfuPart = \<lparr>alfu_capacity = 1, alfu_ghostCapacity = 1, alfu_transformThreshold = 2,
                     alfu_minFreq = 1,
                     alfu_mainCache = [(2, \<lparr>an_value = 20, an_accessCount = 1\<rparr>)],
                     alfu_freqMap = [(1, [2])],
                     alfu_ghost = [(1, \<lparr>an_value = 10, an_accessCount = 1\<rparr>)]\<rparr>\<rparr>
   \<and> arc_get (1::nat) (0::nat)
         (arc_run 2 2 [CachePut 1 10, CacheGet 1 0, CachePut 2 20, CacheGet 2 0]) =
       (False, 0,
        \<lparr>arc_capacity = 2, arc_transformThreshold = 2,
         arc_lruPart = \<lparr>alru_capacity = 0, alru_ghostCapacity = 1, alru_transformThreshold = 2,
                        alru_main = [], alru_ghost = []\<rparr>,
         arc_lfuPart = \<lparr>alfu_capacity = 2, alfu_ghostCapacity = 1, alfu_transformThreshold = 2,
                        alfu_minFreq = 1,
                        alfu_mainCache = [(2, \<lparr>an_value = 20, an_accessCount = 1\<rparr>)],
                        alfu_freqMap = [(1, [2])], alfu_ghost = []\<rparr>\<rparr>)"
  by code_simp


lemma arc_get_ghost_readmission_example:
  "\<not> alru_existsInMain 1 (arc_lruPart (arc_run 2 2 [CachePut (1::nat) (10::nat), CachePut 2 20]))
   \<and> \<not> alfu_existsInMain 1 (arc_lfuPart (arc_run 2 2 [CachePut (1::nat) (10::nat), CachePut 2 20]))
   \<and> map_of (alru_ghost (arc_lruPart (arc_run 2 2 [CachePut (1::nat) (10::nat), CachePut 2 20]))) 1
       = Some \<lparr>an_value = 10, an_accessCount = 1\<rparr>
   \<and> map_of (alfu_ghost (arc_lfuPart (arc_run 2 2 [CachePut (1::nat) (10::nat), CachePut 2 20]))) 1
       = None
   \<and> fst (arc_get 1 0 (arc_run 2 2 [CachePut (1::nat) (10::nat), CachePut 2 20])) = False
   \<and> alru_capacity (arc_lruPart (snd (snd (arc_get 1 0
         (arc_run 2 2 [CachePut (1::nat) (10::nat), CachePut 2 20]))))) = 2
   \<and> hd (alru_main (arc_lruPart (snd (snd (arc_get 1 0
         (arc_run 2 2 [CachePut (1::nat) (10::nat), CachePut 2 20]))))))
       = (1, \<lparr>an_value = 10, an_accessCount = 1\<rparr>)"
proof -
  let ?s = "arc_run 2 2 [CachePut (1::nat) (10::nat), CachePut 2 20]"
  have h1: "\<not> alru_existsInMain 1 (arc_lruPart ?s)"
    and h2: "\<not> alfu_existsInMain 1 (arc_lfuPart ?s)"
    and h3: "map_of (alru_ghost (arc_lruPart ?s)) 1 = Some \<lparr>an_value = 10, an_accessCount = 1\<rparr>"
    and h4: "map_of (alfu_ghost (arc_lfuPart ?s)) 1 = None"
    unfolding arc_example_lru_ghost
    by (simp_all add: alru_existsInMain_def alfu_existsInMain_def)
  have cap: "alru_capacity (arc_lruPart (snd (snd (arc_get 1 0 ?s)))) = 2"
    by code_simp
  from h3 h4 have h34:
    "(map_of (alru_ghost (arc_lruPart ?s)) 1 = Some \<lparr>an_value = 10, an_accessCount = 1\<rparr> \<and>
      map_of (alfu_ghost (arc_lfuPart ?s)) 1 = None) \<or>
     (map_of (alru_ghost (arc_lruPart ?s)) 1 = None \<and>
      map_of (alfu_ghost (arc_lfuPart ?s)) 1 = Some \<lparr>an_value = 10, an_accessCount = 1\<rparr>)"
    by blast
  note th = arc_get_ghost_readmission[OF h1 h2 h34 refl, of 0]
  have "fst (arc_get 1 0 ?s) = False" using th by blast
  moreover have ne: "alru_capacity (arc_lruPart (snd (snd (arc_get 1 0 ?s)))) \<noteq> 0"
    using cap by simp
  have "\<exists>rest. alru_main (arc_lruPart (snd (snd (arc_get 1 0 ?s)))) =
        (1, \<lparr>an_value = an_value \<lparr>an_value = 10::nat, an_accessCount = 1\<rparr>,
             an_accessCount = 1\<rparr>) # rest"
    using th ne by blast
  then have "\<exists>rest. alru_main (arc_lruPart (snd (snd (arc_get 1 0 ?s)))) =
        (1, \<lparr>an_value = 10, an_accessCount = 1\<rparr>) # rest"
    by simp
  then have "hd (alru_main (arc_lruPart (snd (snd (arc_get 1 0 ?s))))) =
        (1, \<lparr>an_value = 10, an_accessCount = 1\<rparr>)" by auto
  ultimately show ?thesis using h1 h2 h3 h4 cap by blast
qed


lemma alru_ghostCapacity_simps [simp]:
  "alru_ghostCapacity (snd (alru_checkGhost key p)) = alru_ghostCapacity p"
  "alru_ghostCapacity (snd (alru_decreaseCapacity p)) = alru_ghostCapacity p"
  "alru_ghostCapacity (snd (alru_put key v p)) = alru_ghostCapacity p"
  "alru_ghostCapacity (snd (snd (snd (alru_get key b t p)))) = alru_ghostCapacity p"
  "alru_ghostCapacity (alru_remove key p) = alru_ghostCapacity p"
  by (simp_all add: alru_checkGhost_def alru_decreaseCapacity_def alru_put_def alru_get_def
      alru_remove_def alru_addNewNode_def alru_updateNodeAccess_def Let_def
      split: option.splits)

lemma alfu_updateNodeFrequency_ghostCapacity [simp]:
  "alfu_ghostCapacity (alfu_updateNodeFrequency key node p) = alfu_ghostCapacity p"
  by (simp add: alfu_updateNodeFrequency_def Let_def)

lemma alfu_ghostCapacity_simps [simp]:
  "alfu_ghostCapacity (snd (alfu_checkGhost key p)) = alfu_ghostCapacity p"
  "alfu_ghostCapacity (snd (alfu_decreaseCapacity p)) = alfu_ghostCapacity p"
  "alfu_ghostCapacity (snd (alfu_put key v p)) = alfu_ghostCapacity p"
  "alfu_ghostCapacity (snd (snd (alfu_get key b p))) = alfu_ghostCapacity p"
  by (simp_all add: alfu_checkGhost_def alfu_decreaseCapacity_def alfu_put_def alfu_get_def
      alfu_addNewNode_def Let_def split: option.splits)

lemma checkLruGhost_ghostCapacity [simp]:
  "alru_ghostCapacity (arc_lruPart (snd (checkLruGhost key s))) = alru_ghostCapacity (arc_lruPart s)"
  "alfu_ghostCapacity (arc_lfuPart (snd (checkLruGhost key s))) = alfu_ghostCapacity (arc_lfuPart s)"
  by (cases "map_of (alru_ghost (arc_lruPart s)) key";
      simp add: checkLruGhost_miss checkLruGhost_hit)+

lemma checkLfuGhost_ghostCapacity [simp]:
  "alru_ghostCapacity (arc_lruPart (snd (checkLfuGhost key s))) = alru_ghostCapacity (arc_lruPart s)"
  "alfu_ghostCapacity (arc_lfuPart (snd (checkLfuGhost key s))) = alfu_ghostCapacity (arc_lfuPart s)"
  by (cases "map_of (alfu_ghost (arc_lfuPart s)) key";
      simp add: checkLfuGhost_miss checkLfuGhost_hit)+

lemma checkGhostCaches_ghostCapacity [simp]:
  "alru_ghostCapacity (arc_lruPart (snd (checkGhostCaches key s))) = alru_ghostCapacity (arc_lruPart s)"
  "alfu_ghostCapacity (arc_lfuPart (snd (checkGhostCaches key s))) = alfu_ghostCapacity (arc_lfuPart s)"
  by (simp_all add: checkGhostCaches_snd)

lemma arc_put_ghostCapacity [simp]:
  "alru_ghostCapacity (arc_lruPart (arc_put key v s)) = alru_ghostCapacity (arc_lruPart s)"
  "alfu_ghostCapacity (arc_lfuPart (arc_put key v s)) = alfu_ghostCapacity (arc_lfuPart s)"
  by (simp_all add: arc_put_def Let_def case_prod_beta)

lemma arc_get_ghostCapacity [simp]:
  "alru_ghostCapacity (arc_lruPart (snd (snd (arc_get key b s)))) = alru_ghostCapacity (arc_lruPart s)"
  "alfu_ghostCapacity (arc_lfuPart (snd (snd (arc_get key b s)))) = alfu_ghostCapacity (arc_lfuPart s)"
  by (simp_all add: arc_get_def Let_def case_prod_beta split: option.splits)

lemma arc_step_ghostCapacity [simp]:
  "alru_ghostCapacity (arc_lruPart (arc_step s op)) = alru_ghostCapacity (arc_lruPart s)"
  "alfu_ghostCapacity (arc_lfuPart (arc_step s op)) = alfu_ghostCapacity (arc_lfuPart s)"
  by (cases op; simp)+

lemma arc_foldl_ghostCapacity:
  "alru_ghostCapacity (arc_lruPart (foldl arc_step s ops)) = alru_ghostCapacity (arc_lruPart s) \<and>
   alfu_ghostCapacity (arc_lfuPart (foldl arc_step s ops)) = alfu_ghostCapacity (arc_lfuPart s)"
  by (induction ops arbitrary: s) simp_all

text \<open>
  Claim C10. Both ARC parts set \<open>ghostCapacity_\<close> to their initial capacity in the
  constructor; \<open>increaseCapacity\<close> and \<open>decreaseCapacity\<close> leave it as it is; and after any
  sequence of \<open>put\<close> and \<open>get\<close> on a \<open>KArcCache\<close> built with a capacity both ghost capacities
  are still half of it (rounded down), whatever has become of the main capacities.
\<close>

theorem arc_ghostCapacity_fixed:
  "alru_ghostCapacity (ArcLruPart c t) = c
   \<and> alfu_ghostCapacity (ArcLfuPart c t) = c
   \<and> alru_ghostCapacity (alru_increaseCapacity p) = alru_ghostCapacity p
   \<and> alru_ghostCapacity (snd (alru_decreaseCapacity p)) = alru_ghostCapacity p
   \<and> alfu_ghostCapacity (alfu_increaseCapacity q) = alfu_ghostCapacity q
   \<and> alfu_ghostCapacity (snd (alfu_decreaseCapacity q)) = alfu_ghostCapacity q
   \<and> alru_ghostCapacity (arc_lruPart (arc_run capacity threshold ops)) = capacity div 2
   \<and> alfu_ghostCapacity (arc_lfuPart (arc_run capacity threshold ops)) = capacity div 2"
  using arc_foldl_ghostCapacity[of "KArcCache capacity threshold" ops]
  by (simp add: arc_run_def KArcCache_def ArcLruPart_def ArcLfuPart_def)


lemma alru_capacity_simps [simp]:
  "alru_capacity (snd (alru_put key v p)) = alru_capacity p"
  "alru_capacity (snd (snd (snd (alru_get key b t p)))) = alru_capacity p"
  "alru_capacity (alru_remove key p) = alru_capacity p"
  by (simp_all add: alru_put_def alru_get_def alru_remove_def alru_addNewNode_def
      alru_updateNodeAccess_def Let_def split: option.splits)

lemma alfu_updateNodeFrequency_capacity [simp]:
  "alfu_capacity (alfu_updateNodeFrequency key node p) = alfu_capacity p"
  by (simp add: alfu_updateNodeFrequency_def Let_def)

lemma alfu_capacity_simps [simp]:
  "alfu_capacity (snd (alfu_put key v p)) = alfu_capacity p"
  "alfu_capacity (snd (snd (alfu_get key b p))) = alfu_capacity p"
  by (simp_all add: alfu_put_def alfu_get_def alfu_addNewNode_def Let_def split: option.splits)

lemma alru_decreaseCapacity_capacity:
  "alru_capacity (snd (alru_decreaseCapacity p)) =
     (if alru_capacity p = 0 then 0 else alru_capacity p - 1)"
  "fst (alru_decreaseCapacity p) \<longleftrightarrow> 0 < alru_capacity p"
  by (simp_all add: alru_decreaseCapacity_def Let_def)

lemma alfu_decreaseCapacity_capacity:
  "alfu_capacity (snd (alfu_decreaseCapacity p)) =
     (if alfu_capacity p = 0 then 0 else alfu_capacity p - 1)"
  "fst (alfu_decreaseCapacity p) \<longleftrightarrow> 0 < alfu_capacity p"
  by (simp_all add: alfu_decreaseCapacity_def Let_def)

lemma checkLruGhost_capacities:
  "alru_capacity (arc_lruPart (snd (checkLruGhost key s))) =
     (if map_of (alru_ghost (arc_lruPart s)) key \<noteq> None \<and> 0 < alfu_capacity (arc_lfuPart s)
      then alru_capacity (arc_lruPart s) + 1 else alru_capacity (arc_lruPart s))"
  "alfu_capacity (arc_lfuPart (snd (checkLruGhost key s))) =
     (if map_of (alru_ghost (arc_lruPart s)) key \<noteq> None \<and> 0 < alfu_capacity (arc_lfuPart s)
      then alfu_capacity (arc_lfuPart s) - 1 else alfu_capacity (arc_lfuPart s))"
  by (cases "map_of (alru_ghost (arc_lruPart s)) key";
      simp add: checkLruGhost_miss checkLruGhost_hit alfu_decreaseCapacity_capacity)+

lemma checkLfuGhost_capacities:
  "alfu_capacity (arc_lfuPart (snd (checkLfuGhost key s))) =
     (if map_of (alfu_ghost (arc_lfuPart s)) key \<noteq> None \<and> 0 < alru_capacity (arc_lruPart s)
      then alfu_capacity (arc_lfuPart s) + 1 else alfu_capacity (arc_lfuPart s))"
  "alru_capacity (arc_lruPart (snd (checkLfuGhost key s))) =
     (if map_of (alfu_ghost (arc_lfuPart s)) key \<noteq> None \<and> 0 < alru_capacity (arc_lruPart s)
      then alru_capacity (arc_lruPart s) - 1 else alru_capacity (arc_lruPart s))"
  by (cases "map_of (alfu_ghost (arc_lfuPart s)) key";
      simp add: checkLfuGhost_miss checkLfuGhost_hit alru_decreaseCapacity_capacity)+

lemma checkLruGhost_sum:
  "alru_capacity (arc_lruPart (snd (checkLruGhost key s))) +
   alfu_capacity (arc_lfuPart (snd (checkLruGhost key s))) =
   alru_capacity (arc_lruPart s) + alfu_capacity (arc_lfuPart s)"
  by (simp add: checkLruGhost_capacities)

lemma checkLfuGhost_sum:
  "alru_capacity (arc_lruPart (snd (checkLfuGhost key s))) +
   alfu_capacity (arc_lfuPart (snd (checkLfuGhost key s))) =
   alru_capacity (arc_lruPart s) + alfu_capacity (arc_lfuPart s)"
  by (simp add: checkLfuGhost_capacities)

lemma checkGhostCaches_sum:
  "alru_capacity (arc_lruPart (snd (checkGhostCaches key s))) +
   alfu_capacity (arc_lfuPart (snd (checkGhostCaches key s))) =
   alru_capacity (arc_lruPart s) + alfu_capacity (arc_lfuPart s)"
  by (simp only: checkGhostCaches_snd checkLfuGhost_sum checkLruGhost_sum)

lemma arc_put_capacities:
  "alru_capacity (arc_lruPart (arc_put key v s)) =
     alru_capacity (arc_lruPart (snd (checkGhostCaches key s)))"
  "alfu_capacity (arc_lfuPart (arc_put key v s)) =
     alfu_capacity (arc_lfuPart (snd (checkGhostCaches key s)))"
  by (simp_all add: arc_put_def Let_def case_prod_beta)

lemma arc_get_capacities:
  "alru_capacity (arc_lruPart (snd (snd (arc_get key b s)))) =
     alru_capacity (arc_lruPart (snd (checkGhostCaches key s)))"
  "alfu_capacity (arc_lfuPart (snd (snd (arc_get key b s)))) =
     alfu_capacity (arc_lfuPart (snd (checkGhostCaches key s)))"
  by (simp_all add: arc_get_def Let_def case_prod_beta split: option.splits)

lemma arc_step_sum:
  "alru_capacity (arc_lruPart (arc_step s op)) + alfu_capacity (arc_lfuPart (arc_step s op)) =
   alru_capacity (arc_lruPart s) + alfu_capacity (arc_lfuPart s)"
  by (cases op) (simp_all add: arc_put_capacities arc_get_capacities checkGhostCaches_sum)

lemma arc_foldl_sum:
  "alru_capacity (arc_lruPart (foldl arc_step s ops)) +
   alfu_capacity (arc_lfuPart (foldl arc_step s ops)) =
   alru_capacity (arc_lruPart s) + alfu_capacity (arc_lfuPart s)"
  by (induction ops arbitrary: s) (simp_all add: arc_step_sum)

lemma arc_run_sum:
  "alru_capacity (arc_lruPart (arc_run c t ops)) + alfu_capacity (arc_lfuPart (arc_run c t ops))
     = 2 * (c div 2)"
  by (simp add: arc_run_def arc_foldl_sum KArcCache_def ArcLruPart_def ArcLfuPart_def)


subsection \<open>The LRU part keeps its occupancy within its capacity\<close>

lemma length_delete_present_less:
  "map_of al k = Some v \<Longrightarrow> length (AList.delete k al) < length al"
proof (induction al)
  case Nil
  then show ?case by simp
next
  case (Cons a al)
  then show ?case using length_delete_le[of k al] by (auto simp: le_imp_less_Suc split: if_splits)
qed

lemma length_map_entry [simp]: "length (AList.map_entry k f al) = length al"
  by (induction al) auto

lemma alru_evict_length:
  "alru_main p \<noteq> [] \<Longrightarrow>
   Suc (length (alru_main (alru_evictLeastRecent p))) = length (alru_main p)"
  by (simp add: alru_evictLeastRecent_def Let_def)

lemma alru_evict_main:
  "alru_main (alru_evictLeastRecent p) = butlast (alru_main p)"
  by (simp add: alru_evictLeastRecent_def Let_def)

lemma alru_inv_put: "alru_inv p \<Longrightarrow> alru_inv (snd (alru_put key v p))"
proof (cases "map_of (alru_main p) key")
  case None
  assume inv: "alru_inv p"
  show ?thesis
  proof (cases "alru_capacity p = 0")
    case True
    then show ?thesis using inv by (simp add: alru_put_zero)
  next
    case False
    then show ?thesis
      using inv alru_put_new[OF None False, of v]
      by (auto simp: alru_inv_def)
  qed
next
  case (Some node)
  assume inv: "alru_inv p"
  show ?thesis
    using inv Some length_delete_present_less[OF Some]
    by (auto simp: alru_inv_def alru_put_def alru_updateNodeAccess_def Let_def)
qed

lemma alru_inv_get: "alru_inv p \<Longrightarrow> alru_inv (snd (snd (snd (alru_get key b t p))))"
proof (cases "map_of (alru_main p) key")
  case None
  assume "alru_inv p"
  then show ?thesis using None by (simp add: alru_get_def)
next
  case (Some node)
  assume inv: "alru_inv p"
  show ?thesis
    using inv Some length_delete_present_less[OF Some]
    by (auto simp: alru_inv_def alru_get_def alru_updateNodeAccess_def Let_def)
qed

lemma alru_inv_remove: "alru_inv p \<Longrightarrow> alru_inv (alru_remove key p)"
  using length_delete_le[of key "alru_main p"]
  by (auto simp: alru_inv_def alru_remove_def split: option.splits)

lemma alru_inv_checkGhost: "alru_inv p \<Longrightarrow> alru_inv (snd (alru_checkGhost key p))"
  by (simp add: alru_inv_def)

lemma alru_inv_increase: "alru_inv p \<Longrightarrow> alru_inv (alru_increaseCapacity p)"
  by (simp add: alru_inv_def)

lemma alru_inv_decrease: "alru_inv p \<Longrightarrow> alru_inv (snd (alru_decreaseCapacity p))"
  by (auto simp: alru_inv_def alru_decreaseCapacity_def Let_def alru_evict_main)

lemma alru_decrease_full:
  assumes "length (alru_main p) = alru_capacity p" "0 < alru_capacity p"
  shows "fst (alru_decreaseCapacity p)"
    and "alru_main (snd (alru_decreaseCapacity p)) = butlast (alru_main p)"
    and "alru_capacity (snd (alru_decreaseCapacity p)) + 1 = alru_capacity p"
    and "length (alru_main (snd (alru_decreaseCapacity p))) =
           alru_capacity (snd (alru_decreaseCapacity p))"
  using assms by (simp_all add: alru_decreaseCapacity_def Let_def alru_evict_main)


subsection \<open>The LFU part keeps its structure\<close>

lemma alfu_bucket_update:
  "alfu_bucket g (AList.update f b fm) = (if g = f then b else alfu_bucket g fm)"
  by (simp add: alfu_bucket_def update_conv')

lemma alfu_bucket_delete:
  "alfu_bucket g (AList.delete f fm) = (if g = f then [] else alfu_bucket g fm)"
  by (simp add: alfu_bucket_def delete_conv')

lemma alfu_bucket_key:
  assumes "\<forall>f b. map_of fm f = Some b \<longrightarrow> b \<noteq> []"
  shows "alfu_bucket f fm \<noteq> [] \<longleftrightarrow> f \<in> fst ` set fm"
proof
  assume "alfu_bucket f fm \<noteq> []"
  then have "map_of fm f \<noteq> None" by (cases "map_of fm f") (simp_all add: alfu_bucket_def)
  then show "f \<in> fst ` set fm" by (simp add: map_of_eq_None_iff)
next
  assume "f \<in> fst ` set fm"
  then obtain b where b: "map_of fm f = Some b"
    by (metis map_of_eq_None_iff not_None_eq)
  then have "b \<noteq> []" using assms by blast
  then show "alfu_bucket f fm \<noteq> []" using b by (simp add: alfu_bucket_def)
qed

lemma map_of_first_entry: "al \<noteq> [] \<Longrightarrow> \<exists>k v. map_of al k = Some v"
proof (cases al)
  case Nil
  assume "al \<noteq> []"
  then show ?thesis using Nil by simp
next
  case (Cons a rest)
  then have "map_of al (fst a) = Some (snd a)" by simp
  then show ?thesis by blast
qed

lemma length_update_present:
  "map_of al k = Some v \<Longrightarrow> length (AList.update k w al) = length al"
  by (induction al) (auto split: if_splits)

lemma length_update_absent:
  "map_of al k = None \<Longrightarrow> length (AList.update k w al) = Suc (length al)"
  by (induction al) (auto split: if_splits)

lemma length_delete_distinct:
  "distinct (map fst al) \<Longrightarrow> map_of al k = Some v \<Longrightarrow>
   Suc (length (AList.delete k al)) = length al"
  by (induction al) (auto simp: delete_id map_of_eq_None_iff[symmetric] split: if_splits)

text \<open>The effect of an eviction on a state with the invariant that holds a node.\<close>

lemma alfu_evict_effect:
  assumes st: "alfu_struct p" and ok: "alfu_minFreq_ok p"
  shows "\<exists>leastKey leastNode rest.
      alfu_bucket (alfu_minFreq p) (alfu_freqMap p) = leastKey # rest \<and>
      map_of (alfu_mainCache p) leastKey = Some leastNode \<and>
      an_accessCount leastNode = alfu_minFreq p \<and>
      alfu_evictLeastFrequent p =
        p\<lparr>alfu_freqMap := (if rest = [] then AList.delete (alfu_minFreq p) (alfu_freqMap p)
                            else AList.update (alfu_minFreq p) rest (alfu_freqMap p)),
          alfu_minFreq :=
            (if rest = [] \<and> AList.delete (alfu_minFreq p) (alfu_freqMap p) \<noteq> []
             then Min (fst ` set (AList.delete (alfu_minFreq p) (alfu_freqMap p)))
             else alfu_minFreq p),
          alfu_ghost := (if length (alfu_ghost p) \<ge> alfu_ghostCapacity p
                         then alfu_removeOldestGhost (alfu_ghost p) else alfu_ghost p)
                        @ [(leastKey, leastNode)],
          alfu_mainCache := AList.delete leastKey (alfu_mainCache p)\<rparr>"
proof -
  let ?F = "alfu_freqMap p"
  let ?m = "alfu_minFreq p"
  have mem: "\<And>f k. k \<in> set (alfu_bucket f ?F) \<longleftrightarrow>
        (\<exists>n. map_of (alfu_mainCache p) k = Some n \<and> an_accessCount n = f)"
    using st by (simp add: alfu_struct_def)
  have ne: "alfu_bucket ?m ?F \<noteq> []" using ok by (simp add: alfu_minFreq_ok_def)
  then obtain leastKey rest where b: "alfu_bucket ?m ?F = leastKey # rest"
    by (cases "alfu_bucket ?m ?F") auto
  then have mo: "map_of ?F ?m = Some (leastKey # rest)"
    by (cases "map_of ?F ?m") (simp_all add: alfu_bucket_def)
  then have Fne: "?F \<noteq> []" by auto
  have "leastKey \<in> set (alfu_bucket ?m ?F)" using b by simp
  then obtain leastNode where n: "map_of (alfu_mainCache p) leastKey = Some leastNode"
      "an_accessCount leastNode = ?m"
    using mem by blast
  have "alfu_evictLeastFrequent p =
        p\<lparr>alfu_freqMap := (if rest = [] then AList.delete ?m ?F else AList.update ?m rest ?F),
          alfu_minFreq :=
            (if rest = [] \<and> AList.delete ?m ?F \<noteq> []
             then Min (fst ` set (AList.delete ?m ?F)) else ?m),
          alfu_ghost := (if length (alfu_ghost p) \<ge> alfu_ghostCapacity p
                         then alfu_removeOldestGhost (alfu_ghost p) else alfu_ghost p)
                        @ [(leastKey, leastNode)],
          alfu_mainCache := AList.delete leastKey (alfu_mainCache p)\<rparr>"
    using Fne mo n(1) by (simp add: alfu_evictLeastFrequent_def Let_def)
  then show ?thesis using b n by blast
qed


lemma alfu_evict_inv:
  assumes st: "alfu_struct p" and ok: "alfu_minFreq_ok p"
  shows "alfu_struct (alfu_evictLeastFrequent p)"
    and "alfu_mainCache (alfu_evictLeastFrequent p) \<noteq> [] \<longrightarrow>
         alfu_minFreq_ok (alfu_evictLeastFrequent p)"
    and "Suc (length (alfu_mainCache (alfu_evictLeastFrequent p))) = length (alfu_mainCache p)"
proof -
  let ?F = "alfu_freqMap p"
  let ?N = "alfu_mainCache p"
  let ?m = "alfu_minFreq p"
  obtain k n rest where b: "alfu_bucket ?m ?F = k # rest"
    and n: "map_of ?N k = Some n" "an_accessCount n = ?m"
    and eq: "alfu_evictLeastFrequent p =
        p\<lparr>alfu_freqMap := (if rest = [] then AList.delete ?m ?F else AList.update ?m rest ?F),
          alfu_minFreq :=
            (if rest = [] \<and> AList.delete ?m ?F \<noteq> []
             then Min (fst ` set (AList.delete ?m ?F)) else ?m),
          alfu_ghost := (if length (alfu_ghost p) \<ge> alfu_ghostCapacity p
                         then alfu_removeOldestGhost (alfu_ghost p) else alfu_ghost p)
                        @ [(k, n)],
          alfu_mainCache := AList.delete k ?N\<rparr>"
    using alfu_evict_effect[OF st ok] by blast
  let ?F' = "if rest = [] then AList.delete ?m ?F else AList.update ?m rest ?F"
  let ?N' = "AList.delete k ?N"
  let ?m' = "if rest = [] \<and> AList.delete ?m ?F \<noteq> []
             then Min (fst ` set (AList.delete ?m ?F)) else ?m"
  have mem: "\<And>f k. k \<in> set (alfu_bucket f ?F) \<longleftrightarrow>
        (\<exists>n. map_of ?N k = Some n \<and> an_accessCount n = f)"
    using st by (simp add: alfu_struct_def)
  have dist: "\<And>f. distinct (alfu_bucket f ?F)" using st by (simp add: alfu_struct_def)
  have noEmpty: "\<And>f bk. map_of ?F f = Some bk \<Longrightarrow> bk \<noteq> []"
    using st by (simp add: alfu_struct_def)
  have ge1: "\<And>k n. map_of ?N k = Some n \<Longrightarrow> 1 \<le> an_accessCount n"
    using st by (simp add: alfu_struct_def)
  have dN: "distinct (map fst ?N)" and dF: "distinct (map fst ?F)"
    using st by (simp_all add: alfu_struct_def)
  have minle: "\<And>f. alfu_bucket f ?F \<noteq> [] \<Longrightarrow> ?m \<le> f"
    using ok by (simp add: alfu_minFreq_ok_def)
  have knot: "k \<notin> set rest" using dist[of ?m] b by simp
  have b': "\<And>g. alfu_bucket g ?F' = (if g = ?m then rest else alfu_bucket g ?F)"
    by (simp add: alfu_bucket_update alfu_bucket_delete)
  have c1: "distinct (map fst ?N')" using dN by (simp add: distinct_delete)
  have c2: "distinct (map fst ?F')" using dF by (simp add: distinct_delete distinct_update)
  have c3: "\<forall>f k'. k' \<in> set (alfu_bucket f ?F') \<longleftrightarrow>
        (\<exists>n'. map_of ?N' k' = Some n' \<and> an_accessCount n' = f)"
  proof (intro allI)
    fix f k'
    show "k' \<in> set (alfu_bucket f ?F') \<longleftrightarrow>
        (\<exists>n'. map_of ?N' k' = Some n' \<and> an_accessCount n' = f)"
    proof (cases "f = ?m")
      case True
      have "k' \<in> set rest \<longleftrightarrow> k' \<in> set (alfu_bucket ?m ?F) \<and> k' \<noteq> k"
        using b knot by auto
      then show ?thesis using True by (auto simp: b' mem delete_conv')
    next
      case False
      then show ?thesis using n by (auto simp: b' mem delete_conv')
    qed
  qed
  have c4: "\<forall>f. distinct (alfu_bucket f ?F')"
    using dist dist[of ?m] b by (simp add: b')
  have c5: "\<forall>f bk. map_of ?F' f = Some bk \<longrightarrow> bk \<noteq> []"
    using noEmpty by (auto simp: delete_conv' update_conv' split: if_splits)
  have c6: "\<forall>k' n'. map_of ?N' k' = Some n' \<longrightarrow> 1 \<le> an_accessCount n'"
    using ge1 by (auto simp: delete_conv' split: if_splits)
  have sel: "alfu_mainCache (alfu_evictLeastFrequent p) = ?N'"
    "alfu_freqMap (alfu_evictLeastFrequent p) = ?F'"
    "alfu_minFreq (alfu_evictLeastFrequent p) = ?m'"
    by (simp_all add: eq)
  show st': "alfu_struct (alfu_evictLeastFrequent p)"
    unfolding alfu_struct_def sel using c1 c2 c3 c4 c5 c6 by blast
  show "Suc (length (alfu_mainCache (alfu_evictLeastFrequent p))) = length ?N"
    using length_delete_distinct[OF dN n(1)] by (simp add: sel)
  show "alfu_mainCache (alfu_evictLeastFrequent p) \<noteq> [] \<longrightarrow>
         alfu_minFreq_ok (alfu_evictLeastFrequent p)"
  proof
    assume "alfu_mainCache (alfu_evictLeastFrequent p) \<noteq> []"
    then have N'ne: "?N' \<noteq> []" by (simp add: sel)
    show "alfu_minFreq_ok (alfu_evictLeastFrequent p)"
    proof (cases "rest = []")
      case False
      then have q1: "alfu_bucket ?m ?F' \<noteq> []" by (simp add: alfu_bucket_update)
      have q2: "\<forall>g. alfu_bucket g ?F' \<noteq> [] \<longrightarrow> ?m \<le> g"
        using minle by (auto simp: b')
      have "?m' = ?m" using False by simp
      then show ?thesis unfolding alfu_minFreq_ok_def sel using q1 q2 by simp
    next
      case True
      obtain k' n' where kn': "map_of ?N' k' = Some n'"
        using N'ne map_of_first_entry[of ?N'] by blast
      have "k' \<in> set (alfu_bucket (an_accessCount n') ?F')" using c3 kn' by blast
      then have "alfu_bucket (an_accessCount n') ?F' \<noteq> []" by auto
      then have F'ne: "?F' \<noteq> []" by (auto simp: alfu_bucket_def)
      have key: "\<And>g. alfu_bucket g ?F' \<noteq> [] \<longleftrightarrow> g \<in> fst ` set ?F'"
        using alfu_bucket_key[OF c5] by blast
      have fin: "finite (fst ` set ?F')" by simp
      have nonempty: "fst ` set ?F' \<noteq> {}" using F'ne by simp
      have m': "?m' = Min (fst ` set ?F')" using True F'ne by simp
      have "Min (fst ` set ?F') \<in> fst ` set ?F'" using fin nonempty by (rule Min_in)
      then have r1: "alfu_bucket (Min (fst ` set ?F')) ?F' \<noteq> []" using key by blast
      have r2: "\<forall>g. alfu_bucket g ?F' \<noteq> [] \<longrightarrow> Min (fst ` set ?F') \<le> g"
        using key fin by (auto intro: Min_le)
      show ?thesis
        unfolding alfu_minFreq_ok_def sel m' using r1 r2 by blast
    qed
  qed
qed


lemma alfu_update_inv:
  assumes inv: "alfu_inv p"
    and present: "map_of (alfu_mainCache p) key = Some node0"
    and same: "an_accessCount node = an_accessCount node0"
  shows "alfu_inv (alfu_updateNodeFrequency key node p)"
proof -
  let ?F = "alfu_freqMap p"
  let ?N = "alfu_mainCache p"
  let ?m = "alfu_minFreq p"
  define f where "f = an_accessCount node"
  define old where "old = removeAll key (alfu_bucket f ?F)"
  define F1 where "F1 = (if old = [] then AList.delete f ?F else AList.update f old ?F)"
  define F2 where "F2 = AList.update (f + 1) (alfu_bucket (f + 1) F1 @ [key]) F1"
  define N' where "N' = AList.update key (node\<lparr>an_accessCount := f + 1\<rparr>) ?N"
  define m' where "m' = (if old = [] \<and> f = ?m then f + 1 else ?m)"
  have sel: "alfu_mainCache (alfu_updateNodeFrequency key node p) = N'"
    "alfu_freqMap (alfu_updateNodeFrequency key node p) = F2"
    "alfu_minFreq (alfu_updateNodeFrequency key node p) = m'"
    "alfu_capacity (alfu_updateNodeFrequency key node p) = alfu_capacity p"
    by (auto simp: alfu_updateNodeFrequency_def Let_def N'_def F2_def F1_def old_def f_def m'_def)
  have st: "alfu_struct p" using inv by (simp add: alfu_inv_def)
  have Nne: "?N \<noteq> []" using present by auto
  have ok: "alfu_minFreq_ok p" using inv Nne by (simp add: alfu_inv_def)
  have mem: "\<And>g k. k \<in> set (alfu_bucket g ?F) \<longleftrightarrow>
        (\<exists>n. map_of ?N k = Some n \<and> an_accessCount n = g)"
    using st by (simp add: alfu_struct_def)
  have dist: "\<And>g. distinct (alfu_bucket g ?F)" using st by (simp add: alfu_struct_def)
  have noEmpty: "\<And>g bk. map_of ?F g = Some bk \<Longrightarrow> bk \<noteq> []"
    using st by (simp add: alfu_struct_def)
  have ge1: "\<And>k n. map_of ?N k = Some n \<Longrightarrow> 1 \<le> an_accessCount n"
    using st by (simp add: alfu_struct_def)
  have dN: "distinct (map fst ?N)" and dF: "distinct (map fst ?F)"
    using st by (simp_all add: alfu_struct_def)
  have minb: "alfu_bucket ?m ?F \<noteq> []"
    and minle: "\<And>g. alfu_bucket g ?F \<noteq> [] \<Longrightarrow> ?m \<le> g"
    using ok by (simp_all add: alfu_minFreq_ok_def)
  have f0: "an_accessCount node0 = f" using same by (simp add: f_def)
  have kin: "key \<in> set (alfu_bucket f ?F)" using present f0 by (simp add: mem)
  have knot: "key \<notin> set (alfu_bucket (f + 1) ?F)" using present f0 by (simp add: mem)
  have b1: "\<And>g. alfu_bucket g F1 = (if g = f then old else alfu_bucket g ?F)"
    by (simp add: F1_def alfu_bucket_update alfu_bucket_delete)
  have b2: "\<And>g. alfu_bucket g F2 =
      (if g = f + 1 then alfu_bucket (f + 1) ?F @ [key]
       else if g = f then old else alfu_bucket g ?F)"
    by (simp add: F2_def alfu_bucket_update b1)
  have mapN': "\<And>k. map_of N' k =
      (if k = key then Some (node\<lparr>an_accessCount := f + 1\<rparr>) else map_of ?N k)"
    by (simp add: N'_def update_conv')
  have c1: "distinct (map fst N')" using dN by (simp add: N'_def distinct_update)
  have dF1: "distinct (map fst F1)" using dF by (simp add: F1_def distinct_update distinct_delete)
  have c2: "distinct (map fst F2)" using dF1 by (simp add: F2_def distinct_update)
  have c3: "\<forall>g k. k \<in> set (alfu_bucket g F2) \<longleftrightarrow>
        (\<exists>n. map_of N' k = Some n \<and> an_accessCount n = g)"
    using present f0 by (auto simp: b2 mapN' mem old_def)
  have c4: "\<forall>g. distinct (alfu_bucket g F2)"
    using dist knot by (auto simp: b2 old_def distinct_removeAll)
  have ne1: "\<forall>g bk. map_of F1 g = Some bk \<longrightarrow> bk \<noteq> []"
    using noEmpty by (auto simp: F1_def delete_conv' update_conv' split: if_splits)
  have c5: "\<forall>g bk. map_of F2 g = Some bk \<longrightarrow> bk \<noteq> []"
    using ne1 by (auto simp: F2_def update_conv' split: if_splits)
  have c6: "\<forall>k n. map_of N' k = Some n \<longrightarrow> 1 \<le> an_accessCount n"
    using ge1 by (auto simp: mapN' split: if_splits)
  have st': "alfu_struct (alfu_updateNodeFrequency key node p)"
    unfolding alfu_struct_def sel using c1 c2 c3 c4 c5 c6 by blast
  have "alfu_bucket f ?F \<noteq> []" using kin by auto
  then have fge: "?m \<le> f" by (rule minle)
  have c7: "alfu_bucket m' F2 \<noteq> []"
    using minb fge by (auto simp: b2 m'_def)
  have c8: "\<forall>g. alfu_bucket g F2 \<noteq> [] \<longrightarrow> m' \<le> g"
  proof (intro allI impI)
    fix g assume g: "alfu_bucket g F2 \<noteq> []"
    have "?m \<le> g"
      using g minle[of g] fge by (auto simp: b2 split: if_splits)
    moreover have "old = [] \<Longrightarrow> g \<noteq> f" using g by (auto simp: b2 split: if_splits)
    ultimately show "m' \<le> g" by (auto simp: m'_def)
  qed
  have ok': "alfu_minFreq_ok (alfu_updateNodeFrequency key node p)"
    unfolding alfu_minFreq_ok_def sel using c7 c8 by blast
  have len: "length N' = length ?N" unfolding N'_def using present by (rule length_update_present)
  show ?thesis
    unfolding alfu_inv_def using st' ok' inv by (simp add: sel len alfu_inv_def)
qed


lemma alfu_insert_inv:
  assumes st: "alfu_struct p1"
    and absent: "map_of (alfu_mainCache p1) key = None"
    and room: "Suc (length (alfu_mainCache p1)) \<le> alfu_capacity p1"
  shows "alfu_inv (p1\<lparr>alfu_mainCache :=
                AList.update key \<lparr>an_value = v, an_accessCount = 1\<rparr> (alfu_mainCache p1),
              alfu_freqMap :=
                AList.update 1 (alfu_bucket 1 (alfu_freqMap p1) @ [key]) (alfu_freqMap p1),
              alfu_minFreq := 1\<rparr>)"
proof -
  let ?F = "alfu_freqMap p1"
  let ?N = "alfu_mainCache p1"
  define N' where "N' = AList.update key \<lparr>an_value = v, an_accessCount = 1\<rparr> ?N"
  define F' where "F' = AList.update 1 (alfu_bucket 1 ?F @ [key]) ?F"
  have mem: "\<And>g k. k \<in> set (alfu_bucket g ?F) \<longleftrightarrow>
        (\<exists>n. map_of ?N k = Some n \<and> an_accessCount n = g)"
    using st by (simp add: alfu_struct_def)
  have dist: "\<And>g. distinct (alfu_bucket g ?F)" using st by (simp add: alfu_struct_def)
  have noEmpty: "\<And>g bk. map_of ?F g = Some bk \<Longrightarrow> bk \<noteq> []"
    using st by (simp add: alfu_struct_def)
  have ge1: "\<And>k n. map_of ?N k = Some n \<Longrightarrow> 1 \<le> an_accessCount n"
    using st by (simp add: alfu_struct_def)
  have dN: "distinct (map fst ?N)" and dF: "distinct (map fst ?F)"
    using st by (simp_all add: alfu_struct_def)
  have knot: "key \<notin> set (alfu_bucket 1 ?F)" using absent by (simp add: mem)
  have b': "\<And>g. alfu_bucket g F' = (if g = 1 then alfu_bucket 1 ?F @ [key] else alfu_bucket g ?F)"
    by (simp add: F'_def alfu_bucket_update)
  have mapN': "\<And>k. map_of N' k =
      (if k = key then Some \<lparr>an_value = v, an_accessCount = 1\<rparr> else map_of ?N k)"
    by (simp add: N'_def update_conv')
  have c1: "distinct (map fst N')" using dN by (simp add: N'_def distinct_update)
  have c2: "distinct (map fst F')" using dF by (simp add: F'_def distinct_update)
  have c3: "\<forall>g k. k \<in> set (alfu_bucket g F') \<longleftrightarrow>
        (\<exists>n. map_of N' k = Some n \<and> an_accessCount n = g)"
    using absent by (auto simp: b' mapN' mem)
  have c4: "\<forall>g. distinct (alfu_bucket g F')"
    using dist knot by (auto simp: b')
  have c5: "\<forall>g bk. map_of F' g = Some bk \<longrightarrow> bk \<noteq> []"
    using noEmpty by (auto simp: F'_def update_conv' split: if_splits)
  have c6: "\<forall>k n. map_of N' k = Some n \<longrightarrow> 1 \<le> an_accessCount n"
    using ge1 by (auto simp: mapN' split: if_splits)
  have c7: "alfu_bucket 1 F' \<noteq> []" by (simp add: b')
  have c8: "\<forall>g. alfu_bucket g F' \<noteq> [] \<longrightarrow> 1 \<le> g"
  proof (intro allI impI)
    fix g assume "alfu_bucket g F' \<noteq> []"
    then obtain k where "k \<in> set (alfu_bucket g F')" by (cases "alfu_bucket g F'") auto
    then obtain n where "map_of N' k = Some n" "an_accessCount n = g" using c3 by blast
    then show "1 \<le> g" using c6 by blast
  qed
  have len: "length N' = Suc (length ?N)"
    unfolding N'_def using absent by (rule length_update_absent)
  let ?r = "p1\<lparr>alfu_mainCache :=
                AList.update key \<lparr>an_value = v, an_accessCount = 1\<rparr> (alfu_mainCache p1),
              alfu_freqMap :=
                AList.update 1 (alfu_bucket 1 (alfu_freqMap p1) @ [key]) (alfu_freqMap p1),
              alfu_minFreq := 1\<rparr>"
  have sel: "alfu_mainCache ?r = N'" "alfu_freqMap ?r = F'" "alfu_minFreq ?r = 1"
    "alfu_capacity ?r = alfu_capacity p1"
    by (simp_all add: N'_def F'_def)
  have st': "alfu_struct ?r"
    unfolding alfu_struct_def sel using c1 c2 c3 c4 c5 c6 by blast
  have ok': "alfu_minFreq_ok ?r"
    unfolding alfu_minFreq_ok_def sel using c7 c8 by blast
  have len': "length (alfu_mainCache ?r) \<le> alfu_capacity ?r"
    unfolding sel using room len by simp
  show ?thesis unfolding alfu_inv_def using st' ok' len' by blast
qed

lemma alfu_evict_fields [simp]:
  "alfu_transformThreshold (alfu_evictLeastFrequent p) = alfu_transformThreshold p"
  by (simp add: alfu_evictLeastFrequent_def Let_def split: option.splits list.splits)

lemma alfu_inv_addNewNode:
  assumes inv: "alfu_inv p" and absent: "map_of (alfu_mainCache p) key = None"
    and cap: "alfu_capacity p \<noteq> 0"
  shows "alfu_inv (snd (alfu_addNewNode key v p))"
proof -
  let ?p1 = "if length (alfu_mainCache p) \<ge> alfu_capacity p
             then alfu_evictLeastFrequent p else p"
  have st: "alfu_struct p" and le: "length (alfu_mainCache p) \<le> alfu_capacity p"
    using inv by (simp_all add: alfu_inv_def)
  have p1: "alfu_struct ?p1 \<and> map_of (alfu_mainCache ?p1) key = None \<and>
            Suc (length (alfu_mainCache ?p1)) \<le> alfu_capacity ?p1"
  proof (cases "length (alfu_mainCache p) \<ge> alfu_capacity p")
    case True
    then have "alfu_mainCache p \<noteq> []" using cap by auto
    then have ok: "alfu_minFreq_ok p" using inv by (simp add: alfu_inv_def)
    show ?thesis
      using True le alfu_evict_inv(1,3)[OF st ok] alfu_evict_main_absent[OF absent]
      by simp
  next
    case False
    then show ?thesis using st absent by simp
  qed
  have eq: "snd (alfu_addNewNode key v p) =
      ?p1\<lparr>alfu_mainCache :=
                AList.update key \<lparr>an_value = v, an_accessCount = 1\<rparr> (alfu_mainCache ?p1),
              alfu_freqMap :=
                AList.update 1 (alfu_bucket 1 (alfu_freqMap ?p1) @ [key]) (alfu_freqMap ?p1),
              alfu_minFreq := 1\<rparr>"
    by (simp add: alfu_addNewNode_def Let_def)
  show ?thesis unfolding eq using p1 by (intro alfu_insert_inv) simp_all
qed

lemma alfu_inv_put: "alfu_inv p \<Longrightarrow> alfu_inv (snd (alfu_put key v p))"
proof (cases "alfu_capacity p = 0")
  case True
  assume "alfu_inv p"
  then show ?thesis using True by (simp add: alfu_put_def)
next
  case False
  assume inv: "alfu_inv p"
  show ?thesis
  proof (cases "map_of (alfu_mainCache p) key")
    case None
    then show ?thesis using False alfu_inv_addNewNode[OF inv None False, of v]
      by (simp add: alfu_put_def)
  next
    case (Some node)
    have "alfu_inv (alfu_updateNodeFrequency key (node\<lparr>an_value := v\<rparr>) p)"
      using inv Some by (rule alfu_update_inv) simp
    then show ?thesis using False Some by (simp add: alfu_put_def)
  qed
qed

lemma alfu_inv_get: "alfu_inv p \<Longrightarrow> alfu_inv (snd (snd (alfu_get key b p)))"
proof (cases "map_of (alfu_mainCache p) key")
  case None
  assume "alfu_inv p"
  then show ?thesis using None by (simp add: alfu_get_def)
next
  case (Some node)
  assume inv: "alfu_inv p"
  have "alfu_inv (alfu_updateNodeFrequency key node p)"
    using inv Some by (rule alfu_update_inv) simp
  then show ?thesis using Some by (simp add: alfu_get_def)
qed

lemma alfu_inv_checkGhost: "alfu_inv p \<Longrightarrow> alfu_inv (snd (alfu_checkGhost key p))"
  by (simp add: alfu_inv_def alfu_struct_def alfu_minFreq_ok_def alfu_checkGhost_def
      split: option.splits)

lemma alfu_inv_increase: "alfu_inv p \<Longrightarrow> alfu_inv (alfu_increaseCapacity p)"
  by (simp add: alfu_inv_def alfu_struct_def alfu_minFreq_ok_def)

lemma alfu_inv_capacity_update:
  "alfu_struct (p\<lparr>alfu_capacity := c\<rparr>) = alfu_struct p"
  "alfu_minFreq_ok (p\<lparr>alfu_capacity := c\<rparr>) = alfu_minFreq_ok p"
  by (simp_all add: alfu_struct_def alfu_minFreq_ok_def)

lemma alfu_decrease_full:
  assumes inv: "alfu_inv p"
    and full: "length (alfu_mainCache p) = alfu_capacity p" and pos: "0 < alfu_capacity p"
  shows "fst (alfu_decreaseCapacity p)"
    and "Suc (length (alfu_mainCache (snd (alfu_decreaseCapacity p)))) = length (alfu_mainCache p)"
    and "alfu_capacity (snd (alfu_decreaseCapacity p)) + 1 = alfu_capacity p"
    and "length (alfu_mainCache (snd (alfu_decreaseCapacity p))) =
           alfu_capacity (snd (alfu_decreaseCapacity p))"
    and "alfu_inv (snd (alfu_decreaseCapacity p))"
proof -
  have st: "alfu_struct p" using inv by (simp add: alfu_inv_def)
  have "alfu_mainCache p \<noteq> []" using full pos by auto
  then have ok: "alfu_minFreq_ok p" using inv by (simp add: alfu_inv_def)
  note e = alfu_evict_inv[OF st ok]
  have eq: "alfu_decreaseCapacity p =
      (True, (alfu_evictLeastFrequent p)\<lparr>alfu_capacity := alfu_capacity p - 1\<rparr>)"
    using full pos by (simp add: alfu_decreaseCapacity_def Let_def)
  show "fst (alfu_decreaseCapacity p)" by (simp add: eq)
  show "Suc (length (alfu_mainCache (snd (alfu_decreaseCapacity p)))) = length (alfu_mainCache p)"
    using e(3) by (simp add: eq)
  show "alfu_capacity (snd (alfu_decreaseCapacity p)) + 1 = alfu_capacity p"
    using pos by (simp add: eq)
  show "length (alfu_mainCache (snd (alfu_decreaseCapacity p))) =
           alfu_capacity (snd (alfu_decreaseCapacity p))"
    using e(3) full by (simp add: eq)
  show "alfu_inv (snd (alfu_decreaseCapacity p))"
    using e full by (simp add: eq alfu_inv_def alfu_inv_capacity_update)
qed

lemma alfu_inv_decrease: "alfu_inv p \<Longrightarrow> alfu_inv (snd (alfu_decreaseCapacity p))"
proof (cases "0 < alfu_capacity p \<and> length (alfu_mainCache p) = alfu_capacity p")
  case True
  assume "alfu_inv p"
  then show ?thesis using True alfu_decrease_full(5) by blast
next
  case False
  assume inv: "alfu_inv p"
  then have "length (alfu_mainCache p) \<le> alfu_capacity p" by (simp add: alfu_inv_def)
  then show ?thesis
    using inv False
    by (auto simp: alfu_decreaseCapacity_def Let_def alfu_inv_def alfu_inv_capacity_update)
qed


subsection \<open>Every run of the coordinator keeps both parts well-formed\<close>

lemma arc_inv_init: "arc_inv (KArcCache c t)"
  by (simp add: arc_inv_def alru_inv_def alfu_inv_def alfu_struct_def KArcCache_def
      ArcLruPart_def ArcLfuPart_def alfu_bucket_def)

lemma arc_inv_checkLruGhost: "arc_inv s \<Longrightarrow> arc_inv (snd (checkLruGhost key s))"
  by (cases "map_of (alru_ghost (arc_lruPart s)) key")
     (simp_all add: checkLruGhost_miss checkLruGhost_hit arc_inv_def alru_inv_checkGhost
        alru_inv_increase alfu_inv_decrease)

lemma arc_inv_checkLfuGhost: "arc_inv s \<Longrightarrow> arc_inv (snd (checkLfuGhost key s))"
  by (cases "map_of (alfu_ghost (arc_lfuPart s)) key")
     (simp_all add: checkLfuGhost_miss checkLfuGhost_hit arc_inv_def alfu_inv_checkGhost
        alfu_inv_increase alru_inv_decrease)

lemma arc_inv_checkGhostCaches: "arc_inv s \<Longrightarrow> arc_inv (snd (checkGhostCaches key s))"
  by (simp add: checkGhostCaches_snd arc_inv_checkLruGhost arc_inv_checkLfuGhost)

lemma arc_inv_put: "arc_inv s \<Longrightarrow> arc_inv (arc_put key v s)"
  using arc_inv_checkGhostCaches[of s key]
  by (simp add: arc_put_def Let_def case_prod_beta arc_inv_def alru_inv_put alru_inv_remove
      alfu_inv_put)

lemma arc_inv_get: "arc_inv s \<Longrightarrow> arc_inv (snd (snd (arc_get key b s)))"
  using arc_inv_checkGhostCaches[of s key]
  by (simp add: arc_get_def Let_def case_prod_beta arc_inv_def alru_inv_put alru_inv_get
      alru_inv_remove alfu_inv_put alfu_inv_get split: option.splits)

lemma arc_inv_step: "arc_inv s \<Longrightarrow> arc_inv (arc_step s op)"
  by (cases op) (simp_all add: arc_inv_put arc_inv_get)

lemma arc_inv_foldl: "arc_inv s \<Longrightarrow> arc_inv (foldl arc_step s ops)"
  by (induction ops arbitrary: s) (simp_all add: arc_inv_step)

lemma arc_inv_run: "arc_inv (arc_run c t ops)"
  by (simp add: arc_run_def arc_inv_foldl arc_inv_init)

lemma checkGhostCaches_lru_hit_capacities:
  assumes "map_of (alru_ghost (arc_lruPart s)) key = Some g"
    and "map_of (alfu_ghost (arc_lfuPart s)) key = None"
    and "map_of (alfu_mainCache (arc_lfuPart s)) key = None"
  shows "alru_capacity (arc_lruPart (snd (checkGhostCaches key s))) =
           (if 0 < alfu_capacity (arc_lfuPart s) then alru_capacity (arc_lruPart s) + 1
            else alru_capacity (arc_lruPart s))"
    and "alfu_capacity (arc_lfuPart (snd (checkGhostCaches key s))) =
           (if 0 < alfu_capacity (arc_lfuPart s) then alfu_capacity (arc_lfuPart s) - 1
            else alfu_capacity (arc_lfuPart s))"
proof -
  have "map_of (alfu_ghost (arc_lfuPart (snd (checkLruGhost key s)))) key = None"
    using assms alfu_decrease_ghost_absent[OF assms(3,2)] by (simp add: checkLruGhost_hit)
  then have "checkLfuGhost key (snd (checkLruGhost key s)) = (None, snd (checkLruGhost key s))"
    by (rule checkLfuGhost_miss)
  then have eq: "snd (checkGhostCaches key s) = snd (checkLruGhost key s)"
    by (simp add: checkGhostCaches_snd)
  show "alru_capacity (arc_lruPart (snd (checkGhostCaches key s))) =
           (if 0 < alfu_capacity (arc_lfuPart s) then alru_capacity (arc_lruPart s) + 1
            else alru_capacity (arc_lruPart s))"
    using assms(1) by (simp add: eq checkLruGhost_capacities)
  show "alfu_capacity (arc_lfuPart (snd (checkGhostCaches key s))) =
           (if 0 < alfu_capacity (arc_lfuPart s) then alfu_capacity (arc_lfuPart s) - 1
            else alfu_capacity (arc_lfuPart s))"
    using assms(1) by (simp add: eq checkLruGhost_capacities)
qed

lemma checkGhostCaches_lfu_hit_capacities:
  assumes "map_of (alru_ghost (arc_lruPart s)) key = None"
    and "map_of (alfu_ghost (arc_lfuPart s)) key = Some g"
  shows "alfu_capacity (arc_lfuPart (snd (checkGhostCaches key s))) =
           (if 0 < alru_capacity (arc_lruPart s) then alfu_capacity (arc_lfuPart s) + 1
            else alfu_capacity (arc_lfuPart s))"
    and "alru_capacity (arc_lruPart (snd (checkGhostCaches key s))) =
           (if 0 < alru_capacity (arc_lruPart s) then alru_capacity (arc_lruPart s) - 1
            else alru_capacity (arc_lruPart s))"
  using assms by (simp_all add: checkGhostCaches_snd checkLruGhost_miss checkLfuGhost_capacities)


text \<open>
  Claim C2. Let \<open>s\<close> be the state of a \<open>KArcCache\<close> after any sequence of \<open>put\<close> and \<open>get\<close>,
  with LRU part \<open>p\<close> and LFU part \<open>q\<close>. The two capacities add up to twice the half of
  the constructor's capacity, and the next operation keeps the sum. Neither part holds
  more nodes than its capacity. A hit in one ghost list only (the ghost check being
  \<open>checkGhostCaches\<close>) takes exactly one unit from the other part and gives exactly one
  to the part with the hit when the other part's capacity is positive, and changes no
  capacity when it is 0; the capacities are natural numbers throughout, a decrement
  happening only from a positive value. \<open>decreaseCapacity\<close> succeeds exactly when the
  capacity is positive; on a full part it first evicts one node (the last of the LRU
  list, one node of the LFU index), so that the part is full again at the smaller
  capacity.
\<close>

theorem arc_capacity_conserved:
  assumes "s = arc_run capacity threshold ops"
    and "p = arc_lruPart s" and "q = arc_lfuPart s"
    and "s1 = snd (checkGhostCaches key s)"
  shows "alru_capacity p + alfu_capacity q = 2 * (capacity div 2)
       \<and> alru_capacity (arc_lruPart (arc_step s op)) + alfu_capacity (arc_lfuPart (arc_step s op))
           = alru_capacity p + alfu_capacity q
       \<and> length (alru_main p) \<le> alru_capacity p
       \<and> length (alfu_mainCache q) \<le> alfu_capacity q
       \<and> (map_of (alru_ghost p) key \<noteq> None \<and> map_of (alfu_ghost q) key = None \<and>
          map_of (alfu_mainCache q) key = None \<longrightarrow>
            (if 0 < alfu_capacity q
             then alfu_capacity (arc_lfuPart s1) + 1 = alfu_capacity q \<and>
                  alru_capacity (arc_lruPart s1) = alru_capacity p + 1
             else alfu_capacity (arc_lfuPart s1) = alfu_capacity q \<and>
                  alru_capacity (arc_lruPart s1) = alru_capacity p))
       \<and> (map_of (alru_ghost p) key = None \<and> map_of (alfu_ghost q) key \<noteq> None \<longrightarrow>
            (if 0 < alru_capacity p
             then alru_capacity (arc_lruPart s1) + 1 = alru_capacity p \<and>
                  alfu_capacity (arc_lfuPart s1) = alfu_capacity q + 1
             else alru_capacity (arc_lruPart s1) = alru_capacity p \<and>
                  alfu_capacity (arc_lfuPart s1) = alfu_capacity q))
       \<and> (fst (alru_decreaseCapacity p) \<longleftrightarrow> 0 < alru_capacity p)
       \<and> (fst (alfu_decreaseCapacity q) \<longleftrightarrow> 0 < alfu_capacity q)
       \<and> (0 < alru_capacity p \<and> length (alru_main p) = alru_capacity p \<longrightarrow>
            alru_main (snd (alru_decreaseCapacity p)) = butlast (alru_main p) \<and>
            alru_capacity (snd (alru_decreaseCapacity p)) + 1 = alru_capacity p \<and>
            length (alru_main (snd (alru_decreaseCapacity p)))
              = alru_capacity (snd (alru_decreaseCapacity p)))
       \<and> (0 < alfu_capacity q \<and> length (alfu_mainCache q) = alfu_capacity q \<longrightarrow>
            Suc (length (alfu_mainCache (snd (alfu_decreaseCapacity q))))
              = length (alfu_mainCache q) \<and>
            alfu_capacity (snd (alfu_decreaseCapacity q)) + 1 = alfu_capacity q \<and>
            length (alfu_mainCache (snd (alfu_decreaseCapacity q)))
              = alfu_capacity (snd (alfu_decreaseCapacity q)))"
proof -
  have inv: "arc_inv s" using assms(1) by (simp add: arc_inv_run)
  have pinv: "alru_inv p" and qinv: "alfu_inv q"
    using inv assms(2,3) by (simp_all add: arc_inv_def)
  have c1: "alru_capacity p + alfu_capacity q = 2 * (capacity div 2)"
    using arc_run_sum[of capacity threshold ops] assms(1,2,3) by simp
  have c2: "alru_capacity (arc_lruPart (arc_step s op)) + alfu_capacity (arc_lfuPart (arc_step s op))
           = alru_capacity p + alfu_capacity q"
    using arc_step_sum[of s op] assms(2,3) by simp
  have c3: "length (alru_main p) \<le> alru_capacity p" using pinv by (simp add: alru_inv_def)
  have c4: "length (alfu_mainCache q) \<le> alfu_capacity q" using qinv by (simp add: alfu_inv_def)
  have c5: "map_of (alru_ghost p) key \<noteq> None \<and> map_of (alfu_ghost q) key = None \<and>
          map_of (alfu_mainCache q) key = None \<longrightarrow>
            (if 0 < alfu_capacity q
             then alfu_capacity (arc_lfuPart s1) + 1 = alfu_capacity q \<and>
                  alru_capacity (arc_lruPart s1) = alru_capacity p + 1
             else alfu_capacity (arc_lfuPart s1) = alfu_capacity q \<and>
                  alru_capacity (arc_lruPart s1) = alru_capacity p)"
  proof
    assume h: "map_of (alru_ghost p) key \<noteq> None \<and> map_of (alfu_ghost q) key = None \<and>
          map_of (alfu_mainCache q) key = None"
    then obtain g where g: "map_of (alru_ghost (arc_lruPart s)) key = Some g"
      using assms(2) by auto
    have h2: "map_of (alfu_ghost (arc_lfuPart s)) key = None"
      and h3: "map_of (alfu_mainCache (arc_lfuPart s)) key = None"
      using h assms(3) by simp_all
    show "if 0 < alfu_capacity q
             then alfu_capacity (arc_lfuPart s1) + 1 = alfu_capacity q \<and>
                  alru_capacity (arc_lruPart s1) = alru_capacity p + 1
             else alfu_capacity (arc_lfuPart s1) = alfu_capacity q \<and>
                  alru_capacity (arc_lruPart s1) = alru_capacity p"
      using checkGhostCaches_lru_hit_capacities[OF g h2 h3] assms(2,3,4) by simp
  qed
  have c6: "map_of (alru_ghost p) key = None \<and> map_of (alfu_ghost q) key \<noteq> None \<longrightarrow>
            (if 0 < alru_capacity p
             then alru_capacity (arc_lruPart s1) + 1 = alru_capacity p \<and>
                  alfu_capacity (arc_lfuPart s1) = alfu_capacity q + 1
             else alru_capacity (arc_lruPart s1) = alru_capacity p \<and>
                  alfu_capacity (arc_lfuPart s1) = alfu_capacity q)"
  proof
    assume h: "map_of (alru_ghost p) key = None \<and> map_of (alfu_ghost q) key \<noteq> None"
    then obtain g where g: "map_of (alfu_ghost (arc_lfuPart s)) key = Some g"
      using assms(3) by auto
    have h1: "map_of (alru_ghost (arc_lruPart s)) key = None" using h assms(2) by simp
    show "if 0 < alru_capacity p
             then alru_capacity (arc_lruPart s1) + 1 = alru_capacity p \<and>
                  alfu_capacity (arc_lfuPart s1) = alfu_capacity q + 1
             else alru_capacity (arc_lruPart s1) = alru_capacity p \<and>
                  alfu_capacity (arc_lfuPart s1) = alfu_capacity q"
      using checkGhostCaches_lfu_hit_capacities[OF h1 g] assms(2,3,4) by simp
  qed
  have c7: "fst (alru_decreaseCapacity p) \<longleftrightarrow> 0 < alru_capacity p"
    by (rule alru_decreaseCapacity_capacity(2))
  have c8: "fst (alfu_decreaseCapacity q) \<longleftrightarrow> 0 < alfu_capacity q"
    by (rule alfu_decreaseCapacity_capacity(2))
  have c9: "0 < alru_capacity p \<and> length (alru_main p) = alru_capacity p \<longrightarrow>
            alru_main (snd (alru_decreaseCapacity p)) = butlast (alru_main p) \<and>
            alru_capacity (snd (alru_decreaseCapacity p)) + 1 = alru_capacity p \<and>
            length (alru_main (snd (alru_decreaseCapacity p)))
              = alru_capacity (snd (alru_decreaseCapacity p))"
    using alru_decrease_full(2,3,4)[of p] by blast
  have c10: "0 < alfu_capacity q \<and> length (alfu_mainCache q) = alfu_capacity q \<longrightarrow>
            Suc (length (alfu_mainCache (snd (alfu_decreaseCapacity q))))
              = length (alfu_mainCache q) \<and>
            alfu_capacity (snd (alfu_decreaseCapacity q)) + 1 = alfu_capacity q \<and>
            length (alfu_mainCache (snd (alfu_decreaseCapacity q)))
              = alfu_capacity (snd (alfu_decreaseCapacity q))"
    using alfu_decrease_full(2,3,4)[OF qinv] by blast
  show ?thesis using c1 c2 c3 c4 c5 c6 c7 c8 c9 c10 by blast
qed

theorem arc_capacity_conserved_witness:
  "map_of (alru_ghost (arc_lruPart (arc_run 2 2 [CachePut (1::nat) (10::nat), CachePut 2 20]))) 1
      \<noteq> None
   \<and> map_of (alfu_ghost (arc_lfuPart (arc_run 2 2 [CachePut (1::nat) (10::nat), CachePut 2 20]))) 1
      = None
   \<and> map_of (alfu_mainCache (arc_lfuPart (arc_run 2 2 [CachePut (1::nat) (10::nat), CachePut 2 20]))) 1
      = None
   \<and> 0 < alfu_capacity (arc_lfuPart (arc_run 2 2 [CachePut (1::nat) (10::nat), CachePut 2 20]))
   \<and> alfu_capacity (arc_lfuPart (snd (checkGhostCaches 1
        (arc_run 2 2 [CachePut (1::nat) (10::nat), CachePut 2 20])))) = 0
   \<and> alru_capacity (arc_lruPart (snd (checkGhostCaches 1
        (arc_run 2 2 [CachePut (1::nat) (10::nat), CachePut 2 20])))) = 2
   \<and> length (alru_main (arc_lruPart (arc_run 2 2 [CachePut (1::nat) (10::nat), CachePut 2 20])))
      = alru_capacity (arc_lruPart (arc_run 2 2 [CachePut (1::nat) (10::nat), CachePut 2 20]))
   \<and> alru_main (snd (alru_decreaseCapacity
        (arc_lruPart (arc_run 2 2 [CachePut (1::nat) (10::nat), CachePut 2 20])))) = []"
proof -
  let ?s = "arc_run 2 2 [CachePut (1::nat) (10::nat), CachePut 2 20]"
  note th = arc_capacity_conserved[OF refl refl refl refl,
      of 2 2 "[CachePut (1::nat) (10::nat), CachePut 2 20]" "CachePut 1 11" 1]
  have h1: "map_of (alru_ghost (arc_lruPart ?s)) 1 \<noteq> None"
    and h2: "map_of (alfu_ghost (arc_lfuPart ?s)) 1 = None"
    and h3: "map_of (alfu_mainCache (arc_lfuPart ?s)) 1 = None"
    and h4: "0 < alfu_capacity (arc_lfuPart ?s)"
    and h5: "0 < alru_capacity (arc_lruPart ?s)"
    and h6: "length (alru_main (arc_lruPart ?s)) = alru_capacity (arc_lruPart ?s)"
    and h7: "alfu_capacity (arc_lfuPart ?s) = 1" and h8: "alru_capacity (arc_lruPart ?s) = 1"
    and h9: "butlast (alru_main (arc_lruPart ?s)) = []"
    unfolding arc_example_lru_ghost by simp_all
  have a: "alfu_capacity (arc_lfuPart (snd (checkGhostCaches 1 ?s))) + 1
             = alfu_capacity (arc_lfuPart ?s)
         \<and> alru_capacity (arc_lruPart (snd (checkGhostCaches 1 ?s)))
             = alru_capacity (arc_lruPart ?s) + 1"
    using th h1 h2 h3 h4 by presburger
  have b: "alru_main (snd (alru_decreaseCapacity (arc_lruPart ?s)))
             = butlast (alru_main (arc_lruPart ?s))"
    using th h5 h6 by blast
  show ?thesis using a b h1 h2 h3 h4 h6 h7 h8 h9 by simp
qed



section \<open>Construction and non-positive capacities\<close>


lemma lru_run_nonpositive:
  assumes "c \<le> 0"
  shows "lru_run c ops = KLruCache c"
proof -
  have "\<And>s. lru_capacity s \<le> 0 \<Longrightarrow> lru_nodes s = [] \<Longrightarrow> foldl lru_step s ops = s"
  proof (induction ops)
    case Nil
    then show ?case by simp
  next
    case (Cons op ops)
    have "lru_step s op = s"
      using Cons.prems by (cases op) (simp_all add: lru_put_def lru_get_def lru_remove_def)
    then show ?case using Cons by simp
  qed
  then show ?thesis using assms by (simp add: lru_run_def KLruCache_def)
qed

lemma lfu_run_zero: "lfu_run 0 ops = (KLfuCache 0 :: ('k, 'v) lfu_state)"
proof -
  have "\<And>s::('k, 'v) lfu_state. lfu_capacity s = 0 \<Longrightarrow> lfu_nodeMap s = [] \<Longrightarrow>
          foldl lfu_step s ops = s"
  proof (induction ops)
    case Nil
    then show ?case by simp
  next
    case (Cons op ops)
    have "lfu_step s op = s"
      using Cons.prems
      by (cases op) (simp_all add: lfu_put_def KLfuCache_put_def lfu_get_def KLfuCache_get_def)
    then show ?case using Cons by simp
  qed
  then show ?thesis by (simp add: lfu_run_def KLfuCache_def)
qed

lemma lfu_put_negative_grows:
  assumes "lfu_capacity t < 0" "map_of (lfu_nodeMap t) key = None"
  shows "length (lfu_nodeMap (lfu_put key v t)) = Suc (length (lfu_nodeMap t))"
  using assms length_update_absent[OF assms(2)]
  by (simp add: lfu_put_def KLfuCache_put_def putInternal_def Let_def)

lemma arc_zero_state:
  assumes "alru_capacity (arc_lruPart s) = 0" "alfu_capacity (arc_lfuPart s) = 0"
    and "alru_main (arc_lruPart s) = []" "alfu_mainCache (arc_lfuPart s) = []"
    and "alru_ghost (arc_lruPart s) = []" "alfu_ghost (arc_lfuPart s) = []"
  shows "arc_step s op = s"
proof -
  have g: "checkGhostCaches k s = (None, s)" for k
    using assms by (simp add: checkGhostCaches_def checkLruGhost_miss checkLfuGhost_miss)
  show ?thesis
    using assms
    by (cases op)
       (simp_all add: arc_put_def arc_get_def g alru_existsInMain_def alfu_existsInMain_def
          alru_put_zero)
qed

lemma arc_run_zero: "arc_run 0 t ops = (KArcCache 0 t :: ('k, 'v) arc_state)"
proof -
  have "\<And>s::('k, 'v) arc_state. alru_capacity (arc_lruPart s) = 0 \<Longrightarrow>
      alfu_capacity (arc_lfuPart s) = 0 \<Longrightarrow>
      alru_main (arc_lruPart s) = [] \<Longrightarrow> alfu_mainCache (arc_lfuPart s) = [] \<Longrightarrow>
      alru_ghost (arc_lruPart s) = [] \<Longrightarrow> alfu_ghost (arc_lfuPart s) = [] \<Longrightarrow>
      foldl arc_step s ops = s"
  proof (induction ops)
    case Nil
    then show ?case by simp
  next
    case (Cons op ops)
    have "arc_step s op = s" using Cons.prems by (rule arc_zero_state)
    then show ?case using Cons by simp
  qed
  then show ?thesis by (simp add: arc_run_def KArcCache_def ArcLruPart_def ArcLfuPart_def)
qed

lemma lruk_put_main_nonpositive:
  "lru_capacity (lruk_main u) \<le> 0 \<Longrightarrow> lruk_main (lruk_put key v u) = lruk_main u"
  by (simp add: lruk_put_def lru_put_def Let_def case_prod_beta)


lemma aging_run_zero:
  "aging_run walk (KLfuAgingCache 0 m) ops = Some (KLfuAgingCache 0 m :: ('k, 'v) lfu_aging_state)"
proof -
  have "\<And>s::('k, 'v) lfu_aging_state. lfu_capacity s = 0 \<Longrightarrow> lfu_nodeMap s = [] \<Longrightarrow>
          aging_run walk s ops = Some s"
  proof (induction ops)
    case Nil
    then show ?case by simp
  next
    case (Cons op ops)
    have "aging_step walk s op = Some s"
      using Cons.prems by (cases op) (simp_all add: aging_put_def aging_get_def)
    then show ?case using Cons by simp
  qed
  then show ?thesis by (simp add: KLfuAgingCache_def)
qed

lemma aging_put_negative_stores:
  assumes "lfu_capacity a < 0" "lfu_inv a" "aging_small a"
  shows "\<exists>a'. aging_put walk key v a = Some a'
           \<and> map_option node_value (map_of (lfu_nodeMap a') key) = Some v"
proof -
  have r: "aging_range (INT_MAX - 2) 0 (INT_MAX - 2) a"
    using assms(3) by (simp add: aging_small_def)
  have c: "lfu_capacity a \<noteq> 0" using assms(1) by simp
  show ?thesis
    using aging_put_Some[OF r assms(2) c, of walk key v]
    by (auto simp: INT_MAX_def INT_MIN_def)
qed

lemma lruk_put_history_counts:
  assumes "\<not> lru_contains key (lruk_main u)"
    and "lruk_historyCount key u + 1 < lruk_k u"
    and "0 < lru_capacity (lruk_historyList u)"
  shows "lruk_historyCount key (lruk_put key v u) = lruk_historyCount key u + 1"
  using lruk_put_below(4)[OF assms] .

text \<open>
  Claim C7. No constructor reports an error: the four constructors that take an \<open>int\<close>
  capacity build an object for every capacity, negative ones included (the sharded caches
  and \<open>KArcCache\<close> take a \<open>size_t\<close>). What a capacity that is not positive then does
  depends on the guard of each \<open>put\<close>.
  \<^item> \<open>KLruCache::put\<close> returns at once when \<open>capacity_ <= 0\<close>: with a zero or negative
    capacity every put leaves the state unchanged, and after any sequence of operations
    the cache is still the freshly built, empty one.
  \<^item> \<open>KLfuCache::put\<close>, which the aging cache inherits, returns at once when
    \<open>capacity_ == 0\<close>: with capacity 0 every put leaves the state unchanged, and after
    any sequence of puts and gets both caches are still the freshly built, empty ones.
  \<^item> \<open>KArcCache\<close> of capacity 0 stays in its initial state under every put and get.
  \<^item> In a sharded LRU cache of \<open>n\<close> shards (\<open>0 < n < 2^31\<close>) that all have a capacity
    \<open>c \<le> 0\<close>, and in a sharded LFU cache of \<open>n\<close> shards that all have capacity 0, every put
    leaves the state unchanged.
  \<^item> With a negative capacity, \<open>KLfuCache::put\<close> of a key that is not in the cache adds
    a node (the map grows by one: nothing is evicted), and the put of the aging cache,
    in a state that satisfies the structural invariant and whose counters are away from
    the limits of \<open>int\<close>, stores the key with its value.
  \<^item> \<open>KLruKCache\<close> with a main capacity that is not positive never changes its main cache
    on a put. Its history list is a cache with a capacity of its own: when that capacity
    is positive and the key, which is not in the main cache, has an access count that
    stays below \<open>k\<close> after the put, the put raises the count the history holds for the
    key by one, so the state does change.
\<close>

theorem no_construction_error_and_zero_capacity:
  "construct_KLruCache c \<noteq> (ConfigurationError :: ('k, 'v) lru_state construction)
   \<and> construct_KLruKCache c h k \<noteq> (ConfigurationError :: ('k, 'v) lruk_state construction)
   \<and> construct_KLfuCache c \<noteq> (ConfigurationError :: ('k, 'v) lfu_state construction)
   \<and> construct_KLfuAgingCache c m
        \<noteq> (ConfigurationError :: ('k, 'v) lfu_aging_state construction)
   \<and> (lru_capacity (s :: ('k, 'v) lru_state) \<le> 0 \<longrightarrow> lru_put key v s = s)
   \<and> (c \<le> 0 \<longrightarrow> lru_run c lops = (KLruCache c :: ('k, 'v) lru_state))
   \<and> (lfu_capacity (tz :: ('k, 'v) lfu_state) = 0 \<longrightarrow> lfu_put key v tz = tz)
   \<and> lfu_run 0 ops = (KLfuCache 0 :: ('k, 'v) lfu_state)
   \<and> (lfu_capacity (az :: ('k, 'v) lfu_aging_state) = 0 \<longrightarrow>
        aging_put walk key v az = Some az)
   \<and> aging_run walk (KLfuAgingCache 0 m) ops
        = Some (KLfuAgingCache 0 m :: ('k, 'v) lfu_aging_state)
   \<and> arc_run 0 threshold ops = (KArcCache 0 threshold :: ('k, 'v) arc_state)
   \<and> (hlru_shape n cs (hs :: ('k, 'v) hash_lru_state) \<and> 0 < n \<and> n < 2 ^ 31 \<and> cs \<le> 0 \<longrightarrow>
        hlru_put Hash key v hs = Some hs)
   \<and> (hlfu_shape n 0 (hf :: ('k, 'v) hash_lfu_state) \<and> 0 < n \<and> n < 2 ^ 31 \<longrightarrow>
        hlfu_put walk Hash key v hf = Some hf)
   \<and> (lfu_capacity (tn :: ('k, 'v) lfu_state) < 0 \<and> map_of (lfu_nodeMap tn) key = None \<longrightarrow>
        length (lfu_nodeMap (lfu_put key v tn)) = Suc (length (lfu_nodeMap tn)))
   \<and> (lfu_capacity (an :: ('k, 'v) lfu_aging_state) < 0 \<and> lfu_inv an \<and> aging_small an \<longrightarrow>
        (\<exists>a'. aging_put walk key v an = Some a'
           \<and> map_option node_value (map_of (lfu_nodeMap a') key) = Some v))
   \<and> (lru_capacity (lruk_main (u :: ('k, 'v) lruk_state)) \<le> 0 \<longrightarrow>
        lruk_main (lruk_put key v u) = lruk_main u)
   \<and> (\<not> lru_contains key (lruk_main u) \<and> lruk_historyCount key u + 1 < lruk_k u
        \<and> 0 < lru_capacity (lruk_historyList u) \<longrightarrow>
        lruk_historyCount key (lruk_put key v u) = lruk_historyCount key u + 1)"
proof -
  have c1: "construct_KLruCache c \<noteq> (ConfigurationError :: ('k, 'v) lru_state construction)"
    and c2: "construct_KLruKCache c h k
               \<noteq> (ConfigurationError :: ('k, 'v) lruk_state construction)"
    and c3: "construct_KLfuCache c \<noteq> (ConfigurationError :: ('k, 'v) lfu_state construction)"
    and c4: "construct_KLfuAgingCache c m
               \<noteq> (ConfigurationError :: ('k, 'v) lfu_aging_state construction)"
    by (simp_all add: construct_KLruCache_def construct_KLruKCache_def construct_KLfuCache_def
        construct_KLfuAgingCache_def)
  have c5: "lru_capacity s \<le> 0 \<longrightarrow> lru_put key v s = s"
    by (simp add: lru_put_def)
  have c6: "c \<le> 0 \<longrightarrow> lru_run c lops = (KLruCache c :: ('k, 'v) lru_state)"
    using lru_run_nonpositive[of c lops] by simp
  have c7: "lfu_capacity tz = 0 \<longrightarrow> lfu_put key v tz = tz"
    by (simp add: lfu_put_def KLfuCache_put_def)
  have c9: "lfu_capacity az = 0 \<longrightarrow> aging_put walk key v az = Some az"
    by (simp add: aging_put_zero)
  have c12: "hlru_shape n cs hs \<and> 0 < n \<and> n < 2 ^ 31 \<and> cs \<le> 0 \<longrightarrow>
        hlru_put Hash key v hs = Some hs"
    using hlru_put_zero[of n cs hs Hash key v] by simp
  have c13: "hlfu_shape n 0 hf \<and> 0 < n \<and> n < 2 ^ 31 \<longrightarrow>
        hlfu_put walk Hash key v hf = Some hf"
    using hlfu_put_zero[of n hf walk Hash key v] by simp
  have c14: "lfu_capacity tn < 0 \<and> map_of (lfu_nodeMap tn) key = None \<longrightarrow>
        length (lfu_nodeMap (lfu_put key v tn)) = Suc (length (lfu_nodeMap tn))"
    using lfu_put_negative_grows[of tn key v] by simp
  have c15: "lfu_capacity an < 0 \<and> lfu_inv an \<and> aging_small an \<longrightarrow>
        (\<exists>a'. aging_put walk key v an = Some a'
           \<and> map_option node_value (map_of (lfu_nodeMap a') key) = Some v)"
    using aging_put_negative_stores[of an walk key v] by simp
  have c16: "lru_capacity (lruk_main u) \<le> 0 \<longrightarrow> lruk_main (lruk_put key v u) = lruk_main u"
    using lruk_put_main_nonpositive[of u key v] by simp
  have c17: "\<not> lru_contains key (lruk_main u) \<and> lruk_historyCount key u + 1 < lruk_k u
        \<and> 0 < lru_capacity (lruk_historyList u) \<longrightarrow>
        lruk_historyCount key (lruk_put key v u) = lruk_historyCount key u + 1"
    using lruk_put_history_counts[of key u v] by simp
  show ?thesis
    by (intro conjI c1 c2 c3 c4 c5 c6 c7 lfu_run_zero c9 aging_run_zero arc_run_zero
        c12 c13 c14 c15 c16 c17)
qed

text \<open>
  Constructing with capacity \<open>-1\<close> yields an ordinary object, and the LFU cache built that
  way accepts a put. An LRU-K cache with main capacity 0, history capacity 2 and \<open>k = 3\<close>
  is changed by a put: the history list records the access.
\<close>

theorem negative_capacity_constructs_counterexample:
  "construct_KLruCache (-1) = Constructed (\<lparr>lru_capacity = -1, lru_nodes = []\<rparr> :: (nat, nat) lru_state)
   \<and> construct_KLfuCache (-1)
       = Constructed (\<lparr>lfu_capacity = -1, lfu_minFreq = 127, lfu_nodeMap = [],
                        lfu_freqToFreqList = []\<rparr> :: (nat, nat) lfu_state)
   \<and> lfu_nodeMap (lfu_put (1::nat) (10::nat) (KLfuCache (-1)))
       = [(1, \<lparr>node_freq = 1, node_value = 10\<rparr>)]
   \<and> lruk_put (1::nat) (10::nat) (KLruKCache 0 2 3)
       = \<lparr>lruk_main = \<lparr>lru_capacity = 0, lru_nodes = []\<rparr>,
          lruk_historyList = \<lparr>lru_capacity = 2, lru_nodes = [(1, 1)]\<rparr>,
          lruk_k = 3\<rparr>
   \<and> lruk_put (1::nat) (10::nat) (KLruKCache 0 2 3) \<noteq> KLruKCache 0 2 3"
  by code_simp


text \<open>
  The statement at work on caches built with capacity \<open>-1\<close> and \<open>0\<close>, and on an LRU-K
  cache with main capacity 0, history capacity 2 and \<open>k = 3\<close>.
\<close>

theorem no_construction_error_and_zero_capacity_witness:
  "lru_capacity (KLruCache (-1) :: (nat, nat) lru_state) \<le> 0
   \<and> lru_put (1::nat) (10::nat) (KLruCache (-1)) = KLruCache (-1)
   \<and> (-1::int) \<le> 0
   \<and> lru_run (-1) [LruPut (1::nat) (10::nat), LruGet 1 0] = KLruCache (-1)
   \<and> lfu_capacity (KLfuCache 0 :: (nat, nat) lfu_state) = 0
   \<and> lfu_put (1::nat) (10::nat) (KLfuCache 0) = KLfuCache 0
   \<and> lfu_run 0 [CachePut (1::nat) (10::nat), CacheGet 1 0] = KLfuCache 0
   \<and> lfu_capacity (KLfuAgingCache 0 10 :: (nat, nat) lfu_aging_state) = 0
   \<and> aging_put (map fst) (1::nat) (10::nat) (KLfuAgingCache 0 10) = Some (KLfuAgingCache 0 10)
   \<and> aging_run (map fst) (KLfuAgingCache 0 10) [CachePut (1::nat) (10::nat), CacheGet 1 0]
        = Some (KLfuAgingCache 0 10)
   \<and> arc_run 0 2 [CachePut (1::nat) (10::nat), CacheGet 1 0] = KArcCache 0 2
   \<and> hlru_shape 2 0 (KHashLruCaches 4 0 2 :: (nat, nat) hash_lru_state)
   \<and> hlru_put (\<lambda>k. k) (1::nat) (10::nat) (KHashLruCaches 4 0 2) = Some (KHashLruCaches 4 0 2)
   \<and> hlfu_shape 2 0 (KHashLfuCache 4 0 2 10 :: (nat, nat) hash_lfu_state)
   \<and> hlfu_put (map fst) (\<lambda>k. k) (1::nat) (10::nat) (KHashLfuCache 4 0 2 10)
        = Some (KHashLfuCache 4 0 2 10)
   \<and> lfu_capacity (KLfuCache (-1) :: (nat, nat) lfu_state) < 0
   \<and> map_of (lfu_nodeMap (KLfuCache (-1) :: (nat, nat) lfu_state)) 1 = None
   \<and> length (lfu_nodeMap (lfu_put (1::nat) (10::nat) (KLfuCache (-1))))
        = Suc (length (lfu_nodeMap (KLfuCache (-1) :: (nat, nat) lfu_state)))
   \<and> lfu_capacity (KLfuAgingCache (-1) 10 :: (nat, nat) lfu_aging_state) < 0
   \<and> lfu_inv (KLfuAgingCache (-1) 10 :: (nat, nat) lfu_aging_state)
   \<and> aging_small (KLfuAgingCache (-1) 10 :: (nat, nat) lfu_aging_state)
   \<and> (\<exists>a'. aging_put (map fst) (1::nat) (10::nat) (KLfuAgingCache (-1) 10) = Some a'
         \<and> map_option node_value (map_of (lfu_nodeMap a') 1) = Some 10)
   \<and> lru_capacity (lruk_main (KLruKCache 0 2 3 :: (nat, nat) lruk_state)) \<le> 0
   \<and> lruk_main (lruk_put (1::nat) (10::nat) (KLruKCache 0 2 3)) = lruk_main (KLruKCache 0 2 3)
   \<and> \<not> lru_contains 1 (lruk_main (KLruKCache 0 2 3 :: (nat, nat) lruk_state))
   \<and> lruk_historyCount 1 (KLruKCache 0 2 3 :: (nat, nat) lruk_state) + 1
        < lruk_k (KLruKCache 0 2 3 :: (nat, nat) lruk_state)
   \<and> 0 < lru_capacity (lruk_historyList (KLruKCache 0 2 3 :: (nat, nat) lruk_state))
   \<and> lruk_historyCount 1 (lruk_put (1::nat) (10::nat) (KLruKCache 0 2 3))
        = lruk_historyCount 1 (KLruKCache 0 2 3 :: (nat, nat) lruk_state) + 1"
proof -
  note th = no_construction_error_and_zero_capacity[where
      c = "-1" and h = 2 and k = 3 and m = 10
      and s = "KLruCache (-1) :: (nat, nat) lru_state" and key = "1::nat" and v = "10::nat"
      and lops = "[LruPut (1::nat) (10::nat), LruGet 1 0]"
      and ops = "[CachePut (1::nat) (10::nat), CacheGet 1 0]"
      and tz = "KLfuCache 0 :: (nat, nat) lfu_state"
      and az = "KLfuAgingCache 0 10 :: (nat, nat) lfu_aging_state"
      and walk = "map fst" and threshold = 2 and n = 2 and cs = 0
      and hs = "KHashLruCaches 4 0 2 :: (nat, nat) hash_lru_state"
      and hf = "KHashLfuCache 4 0 2 10 :: (nat, nat) hash_lfu_state"
      and Hash = "\<lambda>k. k"
      and tn = "KLfuCache (-1) :: (nat, nat) lfu_state"
      and an = "KLfuAgingCache (-1) 10 :: (nat, nat) lfu_aging_state"
      and u = "KLruKCache 0 2 3 :: (nat, nat) lruk_state"]
  have h5: "lru_capacity (KLruCache (-1) :: (nat, nat) lru_state) \<le> 0"
    by (simp add: KLruCache_def)
  have h6: "(-1::int) \<le> 0" by simp
  have h7: "lfu_capacity (KLfuCache 0 :: (nat, nat) lfu_state) = 0"
    by (simp add: KLfuCache_def)
  have h9: "lfu_capacity (KLfuAgingCache 0 10 :: (nat, nat) lfu_aging_state) = 0"
    by (simp add: KLfuAgingCache_def)
  have ss: "sliceSize 0 2 = 0" by (simp add: sliceSize_def)
  have i0: "int_of_size_t 0 = 0" by (simp add: int_of_size_t_def)
  have h12: "hlru_shape 2 0 (KHashLruCaches 4 0 2 :: (nat, nat) hash_lru_state)"
    by (simp add: hlru_shape_def KHashLruCaches_def ss i0 KLruCache_def)
  have h13: "hlfu_shape 2 0 (KHashLfuCache 4 0 2 10 :: (nat, nat) hash_lfu_state)"
    by (simp add: hlfu_shape_def KHashLfuCache_def ss i0 KLfuAgingCache_def)
  have n1: "(0::int) < 2" and n2: "(2::int) < 2 ^ 31" by simp_all
  have z0: "(0::int) \<le> 0" by simp
  have h14a: "lfu_capacity (KLfuCache (-1) :: (nat, nat) lfu_state) < 0"
    and h14b: "map_of (lfu_nodeMap (KLfuCache (-1) :: (nat, nat) lfu_state)) 1 = None"
    by (simp_all add: KLfuCache_def)
  have h15a: "lfu_capacity (KLfuAgingCache (-1) 10 :: (nat, nat) lfu_aging_state) < 0"
    by (simp add: KLfuAgingCache_def)
  have h15b: "lfu_inv (KLfuAgingCache (-1) 10 :: (nat, nat) lfu_aging_state)"
    by (rule lfu_inv_aging_init)
  have h15c: "aging_small (KLfuAgingCache (-1) 10 :: (nat, nat) lfu_aging_state)"
    by (rule aging_small_init) (simp_all add: INT_MAX_def)
  have h16: "lru_capacity (lruk_main (KLruKCache 0 2 3 :: (nat, nat) lruk_state)) \<le> 0"
    by (simp add: KLruKCache_def KLruCache_def)
  have h17a: "\<not> lru_contains 1 (lruk_main (KLruKCache 0 2 3 :: (nat, nat) lruk_state))"
    by (simp add: KLruKCache_def KLruCache_def lru_contains_def)
  have h17b: "lruk_historyCount 1 (KLruKCache 0 2 3 :: (nat, nat) lruk_state) + 1
        < lruk_k (KLruKCache 0 2 3 :: (nat, nat) lruk_state)"
    by (simp add: lruk_historyCount_def KLruKCache_def KLruCache_def lru_get_value_def
        lru_get_def)
  have h17c: "0 < lru_capacity (lruk_historyList (KLruKCache 0 2 3 :: (nat, nat) lruk_state))"
    by (simp add: KLruKCache_def KLruCache_def)
  note k5 = th[THEN conjunct2, THEN conjunct2, THEN conjunct2, THEN conjunct2, THEN conjunct1, rule_format, OF h5]
  note k6 = th[THEN conjunct2, THEN conjunct2, THEN conjunct2, THEN conjunct2, THEN conjunct2, THEN conjunct1, rule_format, OF h6]
  note k7 = th[THEN conjunct2, THEN conjunct2, THEN conjunct2, THEN conjunct2, THEN conjunct2, THEN conjunct2, THEN conjunct1, rule_format, OF h7]
  note k8 = th[THEN conjunct2, THEN conjunct2, THEN conjunct2, THEN conjunct2, THEN conjunct2, THEN conjunct2, THEN conjunct2, THEN conjunct1]
  note k9 = th[THEN conjunct2, THEN conjunct2, THEN conjunct2, THEN conjunct2, THEN conjunct2, THEN conjunct2, THEN conjunct2, THEN conjunct2, THEN conjunct1, rule_format, OF h9]
  note k10 = th[THEN conjunct2, THEN conjunct2, THEN conjunct2, THEN conjunct2, THEN conjunct2, THEN conjunct2, THEN conjunct2, THEN conjunct2, THEN conjunct2, THEN conjunct1]
  note k11 = th[THEN conjunct2, THEN conjunct2, THEN conjunct2, THEN conjunct2, THEN conjunct2, THEN conjunct2, THEN conjunct2, THEN conjunct2, THEN conjunct2, THEN conjunct2, THEN conjunct1]
  note k12 = th[THEN conjunct2, THEN conjunct2, THEN conjunct2, THEN conjunct2, THEN conjunct2, THEN conjunct2, THEN conjunct2, THEN conjunct2, THEN conjunct2, THEN conjunct2, THEN conjunct2, THEN conjunct1, rule_format, OF conjI[OF h12 conjI[OF n1 conjI[OF n2 z0]]]]
  note k13 = th[THEN conjunct2, THEN conjunct2, THEN conjunct2, THEN conjunct2, THEN conjunct2, THEN conjunct2, THEN conjunct2, THEN conjunct2, THEN conjunct2, THEN conjunct2, THEN conjunct2, THEN conjunct2, THEN conjunct1, rule_format, OF conjI[OF h13 conjI[OF n1 n2]]]
  note k14 = th[THEN conjunct2, THEN conjunct2, THEN conjunct2, THEN conjunct2, THEN conjunct2, THEN conjunct2, THEN conjunct2, THEN conjunct2, THEN conjunct2, THEN conjunct2, THEN conjunct2, THEN conjunct2, THEN conjunct2, THEN conjunct1, rule_format, OF conjI[OF h14a h14b]]
  note k15 = th[THEN conjunct2, THEN conjunct2, THEN conjunct2, THEN conjunct2, THEN conjunct2, THEN conjunct2, THEN conjunct2, THEN conjunct2, THEN conjunct2, THEN conjunct2, THEN conjunct2, THEN conjunct2, THEN conjunct2, THEN conjunct2, THEN conjunct1, rule_format, OF conjI[OF h15a conjI[OF h15b h15c]]]
  note k16 = th[THEN conjunct2, THEN conjunct2, THEN conjunct2, THEN conjunct2, THEN conjunct2, THEN conjunct2, THEN conjunct2, THEN conjunct2, THEN conjunct2, THEN conjunct2, THEN conjunct2, THEN conjunct2, THEN conjunct2, THEN conjunct2, THEN conjunct2, THEN conjunct1, rule_format, OF h16]
  note k17 = th[THEN conjunct2, THEN conjunct2, THEN conjunct2, THEN conjunct2, THEN conjunct2, THEN conjunct2, THEN conjunct2, THEN conjunct2, THEN conjunct2, THEN conjunct2, THEN conjunct2, THEN conjunct2, THEN conjunct2, THEN conjunct2, THEN conjunct2, THEN conjunct2, rule_format, OF conjI[OF h17a conjI[OF h17b h17c]]]
  show ?thesis
    by (intro conjI h5 k5 h6 k6 h7 k7 k8 h9 k9 k10 k11 h12 k12 h13 k13 h14a h14b k14
        h15a h15b h15c k15 h16 k16 h17a h17b h17c k17)
qed

section \<open>Where a key is in the ARC cache\<close>


lemma keys_delete: "fst ` set (AList.delete k xs) = fst ` set xs - {k}"
  by (induction xs) auto

lemma keys_update: "fst ` set (AList.update k v xs) = insert k (fst ` set xs)"
  by (simp add: dom_update)

lemma keys_map_entry: "fst ` set (AList.map_entry k f xs) = fst ` set xs"
  by (simp add: dom_map_entry)

lemma map_of_None_keys: "map_of xs k = None \<longleftrightarrow> k \<notin> fst ` set xs"
  by (rule map_of_eq_None_iff)

lemma map_of_Some_keys: "map_of xs k = Some v \<Longrightarrow> k \<in> fst ` set xs"
  by (metis map_of_eq_None_iff option.distinct(1))

lemma alru_evict_keys:
  assumes "distinct (map fst (alru_main p))"
  shows "fst ` set (alru_main (alru_evictLeastRecent p)) \<subseteq> fst ` set (alru_main p)"
    and "fst ` set (alru_ghost (alru_evictLeastRecent p))
           \<subseteq> fst ` set (alru_ghost p) \<union>
              (fst ` set (alru_main p) - fst ` set (alru_main (alru_evictLeastRecent p)))"
    and "distinct (map fst (alru_main (alru_evictLeastRecent p)))"
proof -
  show "fst ` set (alru_main (alru_evictLeastRecent p)) \<subseteq> fst ` set (alru_main p)"
    by (auto simp: alru_evictLeastRecent_def Let_def dest: in_set_butlastD)
  show "distinct (map fst (alru_main (alru_evictLeastRecent p)))"
    using assms by (simp add: alru_evictLeastRecent_def Let_def map_butlast distinct_butlast)
  show "fst ` set (alru_ghost (alru_evictLeastRecent p))
           \<subseteq> fst ` set (alru_ghost p) \<union>
              (fst ` set (alru_main p) - fst ` set (alru_main (alru_evictLeastRecent p)))"
  proof (cases "alru_main p = []")
    case True
    then show ?thesis by (simp add: alru_evictLeastRecent_def)
  next
    case False
    then obtain xs x where m: "alru_main p = xs @ [x]" by (metis rev_exhaust)
    have nx: "fst x \<notin> fst ` set xs" using assms m by simp
    show ?thesis
      using m nx
      by (auto simp: alru_evictLeastRecent_def Let_def alru_removeOldestGhost_def
          dest: in_set_butlastD)
  qed
qed

lemma alru_decrease_keys:
  assumes "distinct (map fst (alru_main p))"
  shows "fst ` set (alru_main (snd (alru_decreaseCapacity p))) \<subseteq> fst ` set (alru_main p)"
    and "fst ` set (alru_ghost (snd (alru_decreaseCapacity p)))
           \<subseteq> fst ` set (alru_ghost p) \<union>
              (fst ` set (alru_main p) - fst ` set (alru_main (snd (alru_decreaseCapacity p))))"
    and "distinct (map fst (alru_main (snd (alru_decreaseCapacity p))))"
  using alru_evict_keys[OF assms] assms
  by (simp_all add: alru_decreaseCapacity_def Let_def)

lemma set_alfu_removeOldestGhost: "set (alfu_removeOldestGhost g) \<subseteq> set g"
  by (cases g) (simp_all add: alfu_removeOldestGhost_def subset_insertI)

lemma alfu_evict_keys:
  shows "fst ` set (alfu_mainCache (alfu_evictLeastFrequent p)) \<subseteq> fst ` set (alfu_mainCache p)"
    and "fst ` set (alfu_ghost (alfu_evictLeastFrequent p))
           \<subseteq> fst ` set (alfu_ghost p) \<union>
              (fst ` set (alfu_mainCache p) - fst ` set (alfu_mainCache (alfu_evictLeastFrequent p)))"
proof -
  show "fst ` set (alfu_mainCache (alfu_evictLeastFrequent p)) \<subseteq> fst ` set (alfu_mainCache p)"
    by (auto simp: alfu_evictLeastFrequent_def Let_def keys_delete
        split: option.splits list.splits)
  show "fst ` set (alfu_ghost (alfu_evictLeastFrequent p))
           \<subseteq> fst ` set (alfu_ghost p) \<union>
              (fst ` set (alfu_mainCache p) - fst ` set (alfu_mainCache (alfu_evictLeastFrequent p)))"
    using set_alfu_removeOldestGhost[of "alfu_ghost p"]
    by (auto simp: alfu_evictLeastFrequent_def Let_def keys_delete
        split: option.splits list.splits dest: map_of_Some_keys)
qed

lemma alfu_decrease_keys:
  shows "fst ` set (alfu_mainCache (snd (alfu_decreaseCapacity p))) \<subseteq> fst ` set (alfu_mainCache p)"
    and "fst ` set (alfu_ghost (snd (alfu_decreaseCapacity p)))
           \<subseteq> fst ` set (alfu_ghost p) \<union>
              (fst ` set (alfu_mainCache p)
                 - fst ` set (alfu_mainCache (snd (alfu_decreaseCapacity p))))"
  using alfu_evict_keys[of p]
  by (simp_all add: alfu_decreaseCapacity_def Let_def)


lemma checkLruGhost_keys:
  fixes s :: "('k, 'v) arc_state"
  shows "alru_main (arc_lruPart (snd (checkLruGhost key s))) = alru_main (arc_lruPart s)"
    and "fst ` set (alru_ghost (arc_lruPart (snd (checkLruGhost key s))))
           = fst ` set (alru_ghost (arc_lruPart s)) - {key}"
    and "fst ` set (alfu_mainCache (arc_lfuPart (snd (checkLruGhost key s))))
           \<subseteq> fst ` set (alfu_mainCache (arc_lfuPart s))"
    and "fst ` set (alfu_ghost (arc_lfuPart (snd (checkLruGhost key s))))
           \<subseteq> fst ` set (alfu_ghost (arc_lfuPart s)) \<union>
              (fst ` set (alfu_mainCache (arc_lfuPart s))
                 - fst ` set (alfu_mainCache (arc_lfuPart (snd (checkLruGhost key s)))))"
proof -
  let ?s1 = "snd (checkLruGhost key s)"
  have c: "(?s1 = s \<and> key \<notin> fst ` set (alru_ghost (arc_lruPart s))) \<or>
           (alru_main (arc_lruPart ?s1) = alru_main (arc_lruPart s) \<and>
            alru_ghost (arc_lruPart ?s1) = AList.delete key (alru_ghost (arc_lruPart s)) \<and>
            arc_lfuPart ?s1 = snd (alfu_decreaseCapacity (arc_lfuPart s)))"
  proof (cases "map_of (alru_ghost (arc_lruPart s)) key")
    case None
    then show ?thesis by (simp add: checkLruGhost_miss map_of_None_keys)
  next
    case (Some g)
    have g: "alru_ghost (snd (alru_checkGhost key (arc_lruPart s)))
               = AList.delete key (alru_ghost (arc_lruPart s))"
      using Some by (simp add: alru_checkGhost_def)
    show ?thesis using g by (simp add: checkLruGhost_hit[OF Some])
  qed
  show "alru_main (arc_lruPart ?s1) = alru_main (arc_lruPart s)"
    using c by auto
  show "fst ` set (alru_ghost (arc_lruPart ?s1)) = fst ` set (alru_ghost (arc_lruPart s)) - {key}"
    using c by (elim disjE conjE) (simp_all add: keys_delete)
  show "fst ` set (alfu_mainCache (arc_lfuPart ?s1)) \<subseteq> fst ` set (alfu_mainCache (arc_lfuPart s))"
    using c by (elim disjE conjE) (simp_all add: alfu_decrease_keys(1)[of "arc_lfuPart s"])
  show "fst ` set (alfu_ghost (arc_lfuPart ?s1))
           \<subseteq> fst ` set (alfu_ghost (arc_lfuPart s)) \<union>
              (fst ` set (alfu_mainCache (arc_lfuPart s))
                 - fst ` set (alfu_mainCache (arc_lfuPart ?s1)))"
    using c by (elim disjE conjE) (simp_all add: alfu_decrease_keys(2)[of "arc_lfuPart s"])
qed

lemma checkLfuGhost_keys:
  fixes s :: "('k, 'v) arc_state"
  assumes d: "distinct (map fst (alru_main (arc_lruPart s)))"
  shows "alfu_mainCache (arc_lfuPart (snd (checkLfuGhost key s))) = alfu_mainCache (arc_lfuPart s)"
    and "fst ` set (alfu_ghost (arc_lfuPart (snd (checkLfuGhost key s))))
           = fst ` set (alfu_ghost (arc_lfuPart s)) - {key}"
    and "fst ` set (alru_main (arc_lruPart (snd (checkLfuGhost key s))))
           \<subseteq> fst ` set (alru_main (arc_lruPart s))"
    and "fst ` set (alru_ghost (arc_lruPart (snd (checkLfuGhost key s))))
           \<subseteq> fst ` set (alru_ghost (arc_lruPart s)) \<union>
              (fst ` set (alru_main (arc_lruPart s))
                 - fst ` set (alru_main (arc_lruPart (snd (checkLfuGhost key s)))))"
    and "distinct (map fst (alru_main (arc_lruPart (snd (checkLfuGhost key s)))))"
    and "key \<notin> fst ` set (alfu_ghost (arc_lfuPart s)) \<Longrightarrow> snd (checkLfuGhost key s) = s"
proof -
  let ?s2 = "snd (checkLfuGhost key s)"
  have c: "(?s2 = s \<and> key \<notin> fst ` set (alfu_ghost (arc_lfuPart s))) \<or>
           (alfu_mainCache (arc_lfuPart ?s2) = alfu_mainCache (arc_lfuPart s) \<and>
            alfu_ghost (arc_lfuPart ?s2) = AList.delete key (alfu_ghost (arc_lfuPart s)) \<and>
            arc_lruPart ?s2 = snd (alru_decreaseCapacity (arc_lruPart s)))"
  proof (cases "map_of (alfu_ghost (arc_lfuPart s)) key")
    case None
    then show ?thesis by (simp add: checkLfuGhost_miss map_of_None_keys)
  next
    case (Some g)
    have g: "alfu_ghost (snd (alfu_checkGhost key (arc_lfuPart s)))
               = AList.delete key (alfu_ghost (arc_lfuPart s))"
      using Some by (simp add: alfu_checkGhost_def)
    show ?thesis using g by (simp add: checkLfuGhost_hit[OF Some])
  qed
  show "key \<notin> fst ` set (alfu_ghost (arc_lfuPart s)) \<Longrightarrow> ?s2 = s"
    by (simp add: checkLfuGhost_miss map_of_None_keys)
  show "alfu_mainCache (arc_lfuPart ?s2) = alfu_mainCache (arc_lfuPart s)"
    using c by auto
  show "fst ` set (alfu_ghost (arc_lfuPart ?s2)) = fst ` set (alfu_ghost (arc_lfuPart s)) - {key}"
    using c by (elim disjE conjE) (simp_all add: keys_delete)
  show "fst ` set (alru_main (arc_lruPart ?s2)) \<subseteq> fst ` set (alru_main (arc_lruPart s))"
    using c by (elim disjE conjE) (simp_all add: alru_decrease_keys(1)[OF d])
  show "fst ` set (alru_ghost (arc_lruPart ?s2))
           \<subseteq> fst ` set (alru_ghost (arc_lruPart s)) \<union>
              (fst ` set (alru_main (arc_lruPart s)) - fst ` set (alru_main (arc_lruPart ?s2)))"
    using c by (elim disjE conjE) (simp_all add: alru_decrease_keys(2)[OF d])
  show "distinct (map fst (alru_main (arc_lruPart ?s2)))"
    using c by (elim disjE conjE) (simp_all add: alru_decrease_keys(3)[OF d] d)
qed

lemma arc_excl_sets:
  "arc_excl s \<longleftrightarrow>
     distinct (map fst (alru_main (arc_lruPart s))) \<and>
     (\<forall>k. k \<in> fst ` set (alru_main (arc_lruPart s)) \<longrightarrow>
          k \<notin> fst ` set (alfu_mainCache (arc_lfuPart s)) \<and>
          k \<notin> fst ` set (alru_ghost (arc_lruPart s)) \<and>
          k \<notin> fst ` set (alfu_ghost (arc_lfuPart s))) \<and>
     (\<forall>k. k \<in> fst ` set (alfu_mainCache (arc_lfuPart s)) \<longrightarrow>
          k \<notin> fst ` set (alru_ghost (arc_lruPart s)) \<and>
          k \<notin> fst ` set (alfu_ghost (arc_lfuPart s)))"
  unfolding arc_excl_def by blast

lemma excl_ghost_check_sets:
  fixes LM :: "'k set"
  assumes "\<forall>k. k \<in> LM \<longrightarrow> k \<notin> FM \<and> k \<notin> LG \<and> k \<notin> FG"
    and "\<forall>k. k \<in> FM \<longrightarrow> k \<notin> LG \<and> k \<notin> FG"
    and "LG1 = LG - {key}" "FM1 \<subseteq> FM" "FG1 \<subseteq> FG \<union> (FM - FM1)"
    and "FG2 = FG1 - {key}" "LM2 \<subseteq> LM" "LG2 \<subseteq> LG1 \<union> (LM - LM2)"
  shows "(\<forall>k. k \<in> LM2 \<longrightarrow> k \<notin> FM1 \<and> k \<notin> LG2 \<and> k \<notin> FG2)
       \<and> (\<forall>k. k \<in> FM1 \<longrightarrow> k \<notin> LG2 \<and> k \<notin> FG2)"
  using assms by blast

lemma arc_excl_checkGhostCaches:
  fixes s :: "('k, 'v) arc_state"
  assumes "arc_excl s"
  shows "arc_excl (snd (checkGhostCaches key s))"
    and "arc_ghostFree key (snd (checkGhostCaches key s))"
proof -
  define s1 where "s1 = snd (checkLruGhost key s)"
  define s2 where "s2 = snd (checkLfuGhost key s1)"
  have e: "snd (checkGhostCaches key s) = s2"
    by (simp add: checkGhostCaches_snd s1_def s2_def)
  note a = checkLruGhost_keys[of key s, folded s1_def]
  have d0: "distinct (map fst (alru_main (arc_lruPart s)))"
    using assms by (simp add: arc_excl_def)
  have d1: "distinct (map fst (alru_main (arc_lruPart s1)))" using d0 a(1) by simp
  note b = checkLfuGhost_keys[OF d1, of key, folded s2_def]
  have x: "\<forall>k. k \<in> fst ` set (alru_main (arc_lruPart s)) \<longrightarrow>
          k \<notin> fst ` set (alfu_mainCache (arc_lfuPart s)) \<and>
          k \<notin> fst ` set (alru_ghost (arc_lruPart s)) \<and>
          k \<notin> fst ` set (alfu_ghost (arc_lfuPart s))"
     "\<forall>k. k \<in> fst ` set (alfu_mainCache (arc_lfuPart s)) \<longrightarrow>
          k \<notin> fst ` set (alru_ghost (arc_lruPart s)) \<and>
          k \<notin> fst ` set (alfu_ghost (arc_lfuPart s))"
    using assms by (simp_all add: arc_excl_sets)
  have b3: "fst ` set (alru_main (arc_lruPart s2)) \<subseteq> fst ` set (alru_main (arc_lruPart s))"
    using b(3) a(1) by simp
  have b4: "fst ` set (alru_ghost (arc_lruPart s2))
           \<subseteq> fst ` set (alru_ghost (arc_lruPart s1)) \<union>
              (fst ` set (alru_main (arc_lruPart s)) - fst ` set (alru_main (arc_lruPart s2)))"
    using b(4) a(1) by simp
  have y: "(\<forall>k. k \<in> fst ` set (alru_main (arc_lruPart s2)) \<longrightarrow>
          k \<notin> fst ` set (alfu_mainCache (arc_lfuPart s1)) \<and>
          k \<notin> fst ` set (alru_ghost (arc_lruPart s2)) \<and>
          k \<notin> fst ` set (alfu_ghost (arc_lfuPart s2)))
       \<and> (\<forall>k. k \<in> fst ` set (alfu_mainCache (arc_lfuPart s1)) \<longrightarrow>
          k \<notin> fst ` set (alru_ghost (arc_lruPart s2)) \<and>
          k \<notin> fst ` set (alfu_ghost (arc_lfuPart s2)))"
    by (rule excl_ghost_check_sets[OF x a(2) a(3) a(4) b(2) b3 b4])
  show "arc_excl (snd (checkGhostCaches key s))"
    unfolding e arc_excl_sets b(1) using b(5) y by simp
  have g2: "key \<notin> fst ` set (alfu_ghost (arc_lfuPart s2))" using b(2) by simp
  have g1: "key \<notin> fst ` set (alru_ghost (arc_lruPart s2))"
  proof (cases "key \<in> fst ` set (alfu_ghost (arc_lfuPart s1))")
    case False
    then have "s2 = s1" by (rule b(6))
    then show ?thesis using a(2) by simp
  next
    case True
    then have "key \<in> fst ` set (alfu_ghost (arc_lfuPart s)) \<or>
               key \<in> fst ` set (alfu_mainCache (arc_lfuPart s))" using a(4) by blast
    then have "key \<notin> fst ` set (alru_main (arc_lruPart s))" using x by blast
    moreover have "key \<notin> fst ` set (alru_ghost (arc_lruPart s1))" using a(2) by simp
    ultimately show ?thesis using b4 by (meson DiffD1 UnE subsetD)
  qed
  show "arc_ghostFree key (snd (checkGhostCaches key s))"
    unfolding e arc_ghostFree_def using g1 g2 by (simp add: map_of_None_keys)
qed


lemma alru_updateNodeAccess_keys:
  assumes "map_of (alru_main p) key = Some node"
  shows "fst ` set (alru_main (snd (alru_updateNodeAccess key node p))) = fst ` set (alru_main p)"
    and "alru_ghost (snd (alru_updateNodeAccess key node p)) = alru_ghost p"
    and "distinct (map fst (alru_main p)) \<Longrightarrow>
         distinct (map fst (alru_main (snd (alru_updateNodeAccess key node p))))"
proof -
  have k: "key \<in> fst ` set (alru_main p)" by (rule map_of_Some_keys[OF assms])
  have m: "alru_main (snd (alru_updateNodeAccess key node p))
             = (key, node\<lparr>an_accessCount := an_accessCount node + 1\<rparr>)
               # AList.delete key (alru_main p)"
    by (simp add: alru_updateNodeAccess_def Let_def)
  show "fst ` set (alru_main (snd (alru_updateNodeAccess key node p))) = fst ` set (alru_main p)"
    unfolding m using k by (simp add: keys_delete insert_absorb)
  show "alru_ghost (snd (alru_updateNodeAccess key node p)) = alru_ghost p"
    by (simp add: alru_updateNodeAccess_def Let_def)
  assume "distinct (map fst (alru_main p))"
  then show "distinct (map fst (alru_main (snd (alru_updateNodeAccess key node p))))"
    unfolding m by (simp add: keys_delete distinct_delete)
qed

lemma alru_put_keys:
  assumes d: "distinct (map fst (alru_main p))"
  shows "fst ` set (alru_main (snd (alru_put key v p))) \<subseteq> insert key (fst ` set (alru_main p))"
    and "fst ` set (alru_ghost (snd (alru_put key v p)))
           \<subseteq> fst ` set (alru_ghost p) \<union>
              (fst ` set (alru_main p) - fst ` set (alru_main (snd (alru_put key v p))) - {key})"
    and "distinct (map fst (alru_main (snd (alru_put key v p))))"
proof -
  let ?p' = "snd (alru_put key v p)"
  have "fst ` set (alru_main ?p') \<subseteq> insert key (fst ` set (alru_main p))
      \<and> fst ` set (alru_ghost ?p')
           \<subseteq> fst ` set (alru_ghost p) \<union>
              (fst ` set (alru_main p) - fst ` set (alru_main ?p') - {key})
      \<and> distinct (map fst (alru_main ?p'))"
  proof (cases "alru_capacity p = 0")
    case True
    then show ?thesis using d by (simp add: alru_put_def subset_insertI)
  next
    case False
    show ?thesis
    proof (cases "map_of (alru_main p) key")
      case None
      then have k: "key \<notin> fst ` set (alru_main p)" by (simp add: map_of_None_keys)
      define p1 where "p1 = (if length (alru_main p) \<ge> alru_capacity p
                             then alru_evictLeastRecent p else p)"
      have m: "alru_main ?p' = (key, \<lparr>an_value = v, an_accessCount = 1\<rparr>) # alru_main p1"
        and g: "alru_ghost ?p' = alru_ghost p1"
        using None False by (simp_all add: alru_put_def alru_addNewNode_def Let_def p1_def)
      have e: "fst ` set (alru_main p1) \<subseteq> fst ` set (alru_main p)"
        "fst ` set (alru_ghost p1)
           \<subseteq> fst ` set (alru_ghost p) \<union> (fst ` set (alru_main p) - fst ` set (alru_main p1))"
        "distinct (map fst (alru_main p1))"
        using alru_evict_keys[OF d] d by (simp_all add: p1_def)
      have m': "fst ` set (alru_main ?p') = insert key (fst ` set (alru_main p1))"
        by (simp add: m)
      have c1: "fst ` set (alru_main ?p') \<subseteq> insert key (fst ` set (alru_main p))"
        unfolding m' using e(1) by blast
      have c2: "fst ` set (alru_ghost ?p')
           \<subseteq> fst ` set (alru_ghost p) \<union>
              (fst ` set (alru_main p) - fst ` set (alru_main ?p') - {key})"
        unfolding m' g using e(2) k by blast
      have c3: "distinct (map fst (alru_main ?p'))"
        unfolding m using e(1,3) k by auto
      show ?thesis using c1 c2 c3 by simp
    next
      case (Some node)
      note u = alru_updateNodeAccess_keys[OF Some]
      have "fst ` set (alru_main ?p') = fst ` set (alru_main p)"
        and "alru_ghost ?p' = alru_ghost p"
        and "distinct (map fst (alru_main ?p'))"
        using False Some u(1,2) u(3)[OF d]
        by (simp_all add: alru_put_def case_prod_beta keys_map_entry distinct_map_entry)
      then show ?thesis by (simp add: subset_insertI)
    qed
  qed
  then show "fst ` set (alru_main ?p') \<subseteq> insert key (fst ` set (alru_main p))"
    and "fst ` set (alru_ghost ?p')
           \<subseteq> fst ` set (alru_ghost p) \<union>
              (fst ` set (alru_main p) - fst ` set (alru_main ?p') - {key})"
    and "distinct (map fst (alru_main ?p'))"
    by simp_all
qed

lemma alru_get_keys:
  shows "fst ` set (alru_main (snd (snd (snd (alru_get key b t p))))) = fst ` set (alru_main p)"
    and "alru_ghost (snd (snd (snd (alru_get key b t p)))) = alru_ghost p"
    and "distinct (map fst (alru_main p)) \<Longrightarrow>
         distinct (map fst (alru_main (snd (snd (snd (alru_get key b t p))))))"
proof -
  have c: "snd (snd (snd (alru_get key b t p))) = p \<or>
           (\<exists>node. map_of (alru_main p) key = Some node \<and>
              snd (snd (snd (alru_get key b t p))) = snd (alru_updateNodeAccess key node p))"
    by (cases "map_of (alru_main p) key") (simp_all add: alru_get_def case_prod_beta)
  from c show "fst ` set (alru_main (snd (snd (snd (alru_get key b t p))))) = fst ` set (alru_main p)"
    using alru_updateNodeAccess_keys(1)[of p key] by (elim disjE exE conjE) simp_all
  from c show "alru_ghost (snd (snd (snd (alru_get key b t p)))) = alru_ghost p"
    using alru_updateNodeAccess_keys(2)[of p key] by (elim disjE exE conjE) simp_all
  assume d: "distinct (map fst (alru_main p))"
  from c show "distinct (map fst (alru_main (snd (snd (snd (alru_get key b t p))))))"
    using alru_updateNodeAccess_keys(3)[of p key] d by (elim disjE exE conjE) simp_all
qed

lemma alru_remove_keys:
  shows "fst ` set (alru_main (alru_remove key p)) = fst ` set (alru_main p) - {key}"
    and "alru_ghost (alru_remove key p) = alru_ghost p"
    and "distinct (map fst (alru_main p)) \<Longrightarrow> distinct (map fst (alru_main (alru_remove key p)))"
proof -
  have c: "(alru_remove key p = p \<and> key \<notin> fst ` set (alru_main p)) \<or>
           alru_remove key p = p\<lparr>alru_main := AList.delete key (alru_main p)\<rparr>"
  proof (cases "map_of (alru_main p) key")
    case None
    then have "key \<notin> fst ` set (alru_main p)" by (simp add: map_of_None_keys)
    then show ?thesis using None by (simp add: alru_remove_def)
  next
    case (Some node)
    then show ?thesis by (simp add: alru_remove_def)
  qed
  from c show "fst ` set (alru_main (alru_remove key p)) = fst ` set (alru_main p) - {key}"
    by (elim disjE conjE) (simp_all add: keys_delete)
  from c show "alru_ghost (alru_remove key p) = alru_ghost p"
    by (elim disjE conjE) simp_all
  assume "distinct (map fst (alru_main p))"
  with c show "distinct (map fst (alru_main (alru_remove key p)))"
    by (elim disjE conjE) (simp_all add: distinct_delete)
qed

lemma alfu_updateNodeFrequency_keys:
  assumes "map_of (alfu_mainCache p) key = Some node0"
  shows "fst ` set (alfu_mainCache (alfu_updateNodeFrequency key node p))
           = fst ` set (alfu_mainCache p)"
    and "alfu_ghost (alfu_updateNodeFrequency key node p) = alfu_ghost p"
  using map_of_Some_keys[OF assms]
  by (simp_all add: alfu_updateNodeFrequency_def Let_def keys_update insert_absorb)

lemma alfu_put_keys:
  shows "fst ` set (alfu_mainCache (snd (alfu_put key v p)))
           \<subseteq> insert key (fst ` set (alfu_mainCache p))"
    and "fst ` set (alfu_ghost (snd (alfu_put key v p)))
           \<subseteq> fst ` set (alfu_ghost p) \<union>
              (fst ` set (alfu_mainCache p)
                 - fst ` set (alfu_mainCache (snd (alfu_put key v p))) - {key})"
proof -
  let ?p' = "snd (alfu_put key v p)"
  have "fst ` set (alfu_mainCache ?p') \<subseteq> insert key (fst ` set (alfu_mainCache p))
      \<and> fst ` set (alfu_ghost ?p')
           \<subseteq> fst ` set (alfu_ghost p) \<union>
              (fst ` set (alfu_mainCache p) - fst ` set (alfu_mainCache ?p') - {key})"
  proof (cases "alfu_capacity p = 0")
    case True
    then show ?thesis by (simp add: alfu_put_def subset_insertI)
  next
    case False
    show ?thesis
    proof (cases "map_of (alfu_mainCache p) key")
      case None
      then have k: "key \<notin> fst ` set (alfu_mainCache p)" by (simp add: map_of_None_keys)
      define p1 where "p1 = (if length (alfu_mainCache p) \<ge> alfu_capacity p
                             then alfu_evictLeastFrequent p else p)"
      have m': "fst ` set (alfu_mainCache ?p') = insert key (fst ` set (alfu_mainCache p1))"
        and g: "alfu_ghost ?p' = alfu_ghost p1"
        using None False
        by (simp_all add: alfu_put_def alfu_addNewNode_def Let_def p1_def keys_update)
      have e: "fst ` set (alfu_mainCache p1) \<subseteq> fst ` set (alfu_mainCache p)"
        "fst ` set (alfu_ghost p1)
           \<subseteq> fst ` set (alfu_ghost p) \<union>
              (fst ` set (alfu_mainCache p) - fst ` set (alfu_mainCache p1))"
        using alfu_evict_keys[of p] by (simp_all add: p1_def)
      have c1: "fst ` set (alfu_mainCache ?p') \<subseteq> insert key (fst ` set (alfu_mainCache p))"
        unfolding m' using e(1) by blast
      have c2: "fst ` set (alfu_ghost ?p')
           \<subseteq> fst ` set (alfu_ghost p) \<union>
              (fst ` set (alfu_mainCache p) - fst ` set (alfu_mainCache ?p') - {key})"
        unfolding m' g using e(2) k by blast
      show ?thesis using c1 c2 by simp
    next
      case (Some node)
      have "fst ` set (alfu_mainCache ?p') = fst ` set (alfu_mainCache p)"
        and "alfu_ghost ?p' = alfu_ghost p"
        using False Some alfu_updateNodeFrequency_keys[OF Some]
        by (simp_all add: alfu_put_def)
      then show ?thesis by (simp add: subset_insertI)
    qed
  qed
  then show "fst ` set (alfu_mainCache ?p') \<subseteq> insert key (fst ` set (alfu_mainCache p))"
    and "fst ` set (alfu_ghost ?p')
           \<subseteq> fst ` set (alfu_ghost p) \<union>
              (fst ` set (alfu_mainCache p) - fst ` set (alfu_mainCache ?p') - {key})"
    by simp_all
qed

lemma alfu_get_keys:
  shows "fst ` set (alfu_mainCache (snd (snd (alfu_get key b p)))) = fst ` set (alfu_mainCache p)"
    and "alfu_ghost (snd (snd (alfu_get key b p))) = alfu_ghost p"
proof -
  have c: "snd (snd (alfu_get key b p)) = p \<or>
           (\<exists>node. map_of (alfu_mainCache p) key = Some node \<and>
              snd (snd (alfu_get key b p)) = alfu_updateNodeFrequency key node p)"
    by (cases "map_of (alfu_mainCache p) key") (simp_all add: alfu_get_def)
  from c show "fst ` set (alfu_mainCache (snd (snd (alfu_get key b p)))) = fst ` set (alfu_mainCache p)"
    using alfu_updateNodeFrequency_keys(1)[of p key] by (elim disjE exE conjE) simp_all
  from c show "alfu_ghost (snd (snd (alfu_get key b p))) = alfu_ghost p"
    using alfu_updateNodeFrequency_keys(2)[of p key] by (elim disjE exE conjE) simp_all
qed


lemma excl_lru_put_sets:
  fixes LM :: "'k set"
  assumes "\<forall>k. k \<in> LM \<longrightarrow> k \<notin> FM \<and> k \<notin> LG \<and> k \<notin> FG"
    and "\<forall>k. k \<in> FM \<longrightarrow> k \<notin> LG \<and> k \<notin> FG"
    and "key \<notin> FM" "key \<notin> LG" "key \<notin> FG"
    and "LM' \<subseteq> insert key LM" "LG' \<subseteq> LG \<union> (LM - LM' - {key})"
  shows "(\<forall>k. k \<in> LM' \<longrightarrow> k \<notin> FM \<and> k \<notin> LG' \<and> k \<notin> FG)
       \<and> (\<forall>k. k \<in> FM \<longrightarrow> k \<notin> LG' \<and> k \<notin> FG) \<and> key \<notin> LG'"
  using assms by blast

lemma excl_lfu_put_sets:
  fixes LM :: "'k set"
  assumes "\<forall>k. k \<in> LM \<longrightarrow> k \<notin> FM \<and> k \<notin> LG \<and> k \<notin> FG"
    and "\<forall>k. k \<in> FM \<longrightarrow> k \<notin> LG \<and> k \<notin> FG"
    and "key \<notin> LM" "key \<notin> LG" "key \<notin> FG"
    and "FM' \<subseteq> insert key FM" "FG' \<subseteq> FG \<union> (FM - FM' - {key})"
  shows "(\<forall>k. k \<in> LM \<longrightarrow> k \<notin> FM' \<and> k \<notin> LG \<and> k \<notin> FG')
       \<and> (\<forall>k. k \<in> FM' \<longrightarrow> k \<notin> LG \<and> k \<notin> FG') \<and> key \<notin> FG'"
  using assms by blast

lemma arc_ghostFree_keys:
  "arc_ghostFree key s \<longleftrightarrow>
     key \<notin> fst ` set (alru_ghost (arc_lruPart s)) \<and> key \<notin> fst ` set (alfu_ghost (arc_lfuPart s))"
  by (simp add: arc_ghostFree_def map_of_None_keys)

lemma arc_excl_lru_put:
  fixes s :: "('k, 'v) arc_state"
  assumes x: "arc_excl s" and gf: "arc_ghostFree key s"
    and nf: "map_of (alfu_mainCache (arc_lfuPart s)) key = None"
  shows "arc_excl (s\<lparr>arc_lruPart := snd (alru_put key v (arc_lruPart s))\<rparr>)"
    and "arc_ghostFree key (s\<lparr>arc_lruPart := snd (alru_put key v (arc_lruPart s))\<rparr>)"
proof -
  have d: "distinct (map fst (alru_main (arc_lruPart s)))" using x by (simp add: arc_excl_def)
  note k = alru_put_keys[OF d, where key = key and v = v]
  have x1: "\<forall>k. k \<in> fst ` set (alru_main (arc_lruPart s)) \<longrightarrow>
          k \<notin> fst ` set (alfu_mainCache (arc_lfuPart s)) \<and>
          k \<notin> fst ` set (alru_ghost (arc_lruPart s)) \<and>
          k \<notin> fst ` set (alfu_ghost (arc_lfuPart s))"
    and x2: "\<forall>k. k \<in> fst ` set (alfu_mainCache (arc_lfuPart s)) \<longrightarrow>
          k \<notin> fst ` set (alru_ghost (arc_lruPart s)) \<and>
          k \<notin> fst ` set (alfu_ghost (arc_lfuPart s))"
    using x by (simp_all add: arc_excl_sets)
  have n1: "key \<notin> fst ` set (alfu_mainCache (arc_lfuPart s))"
    using nf by (simp add: map_of_None_keys)
  have n2: "key \<notin> fst ` set (alru_ghost (arc_lruPart s))"
    and n3: "key \<notin> fst ` set (alfu_ghost (arc_lfuPart s))"
    using gf by (simp_all add: arc_ghostFree_keys)
  note r = excl_lru_put_sets[OF x1 x2 n1 n2 n3 k(1) k(2)]
  show "arc_excl (s\<lparr>arc_lruPart := snd (alru_put key v (arc_lruPart s))\<rparr>)"
    unfolding arc_excl_sets using r k(3) by simp
  show "arc_ghostFree key (s\<lparr>arc_lruPart := snd (alru_put key v (arc_lruPart s))\<rparr>)"
    unfolding arc_ghostFree_keys using r n3 by simp
qed

lemma arc_excl_lfu_put:
  fixes s :: "('k, 'v) arc_state"
  assumes x: "arc_excl s" and gf: "arc_ghostFree key s"
    and nl: "map_of (alru_main (arc_lruPart s)) key = None"
  shows "arc_excl (s\<lparr>arc_lfuPart := snd (alfu_put key v (arc_lfuPart s))\<rparr>)"
    and "arc_ghostFree key (s\<lparr>arc_lfuPart := snd (alfu_put key v (arc_lfuPart s))\<rparr>)"
proof -
  have d: "distinct (map fst (alru_main (arc_lruPart s)))" using x by (simp add: arc_excl_def)
  note k = alfu_put_keys[where key = key and v = v and p = "arc_lfuPart s"]
  have x1: "\<forall>k. k \<in> fst ` set (alru_main (arc_lruPart s)) \<longrightarrow>
          k \<notin> fst ` set (alfu_mainCache (arc_lfuPart s)) \<and>
          k \<notin> fst ` set (alru_ghost (arc_lruPart s)) \<and>
          k \<notin> fst ` set (alfu_ghost (arc_lfuPart s))"
    and x2: "\<forall>k. k \<in> fst ` set (alfu_mainCache (arc_lfuPart s)) \<longrightarrow>
          k \<notin> fst ` set (alru_ghost (arc_lruPart s)) \<and>
          k \<notin> fst ` set (alfu_ghost (arc_lfuPart s))"
    using x by (simp_all add: arc_excl_sets)
  have n1: "key \<notin> fst ` set (alru_main (arc_lruPart s))"
    using nl by (simp add: map_of_None_keys)
  have n2: "key \<notin> fst ` set (alru_ghost (arc_lruPart s))"
    and n3: "key \<notin> fst ` set (alfu_ghost (arc_lfuPart s))"
    using gf by (simp_all add: arc_ghostFree_keys)
  note r = excl_lfu_put_sets[OF x1 x2 n1 n2 n3 k(1) k(2)]
  show "arc_excl (s\<lparr>arc_lfuPart := snd (alfu_put key v (arc_lfuPart s))\<rparr>)"
    unfolding arc_excl_sets using r d by simp
  show "arc_ghostFree key (s\<lparr>arc_lfuPart := snd (alfu_put key v (arc_lfuPart s))\<rparr>)"
    unfolding arc_ghostFree_keys using r n2 by simp
qed

lemma arc_excl_lru_remove:
  fixes s :: "('k, 'v) arc_state"
  assumes x: "arc_excl s"
  shows "arc_excl (s\<lparr>arc_lruPart := alru_remove key (arc_lruPart s)\<rparr>)"
    and "arc_ghostFree k' s \<Longrightarrow> arc_ghostFree k' (s\<lparr>arc_lruPart := alru_remove key (arc_lruPart s)\<rparr>)"
    and "map_of (alru_main (alru_remove key (arc_lruPart s))) key = None"
proof -
  note k = alru_remove_keys[where key = key and p = "arc_lruPart s"]
  have d: "distinct (map fst (alru_main (arc_lruPart s)))" using x by (simp add: arc_excl_def)
  show "arc_excl (s\<lparr>arc_lruPart := alru_remove key (arc_lruPart s)\<rparr>)"
    using x k(3)[OF d] unfolding arc_excl_sets by (simp add: k(1,2))
  show "arc_ghostFree k' s \<Longrightarrow> arc_ghostFree k' (s\<lparr>arc_lruPart := alru_remove key (arc_lruPart s)\<rparr>)"
    by (simp add: arc_ghostFree_def k(2))
  show "map_of (alru_main (alru_remove key (arc_lruPart s))) key = None"
    by (simp add: map_of_None_keys k(1))
qed

lemma arc_excl_lru_get:
  fixes s :: "('k, 'v) arc_state"
  assumes x: "arc_excl s"
  shows "arc_excl (s\<lparr>arc_lruPart := snd (snd (snd (alru_get key b t (arc_lruPart s))))\<rparr>)"
    and "arc_ghostFree k' s \<Longrightarrow>
         arc_ghostFree k' (s\<lparr>arc_lruPart := snd (snd (snd (alru_get key b t (arc_lruPart s))))\<rparr>)"
proof -
  note k = alru_get_keys[where key = key and b = b and t = t and p = "arc_lruPart s"]
  have d: "distinct (map fst (alru_main (arc_lruPart s)))" using x by (simp add: arc_excl_def)
  show "arc_excl (s\<lparr>arc_lruPart := snd (snd (snd (alru_get key b t (arc_lruPart s))))\<rparr>)"
    using x k(3)[OF d] unfolding arc_excl_sets by (simp add: k(1,2))
  show "arc_ghostFree k' s \<Longrightarrow>
         arc_ghostFree k' (s\<lparr>arc_lruPart := snd (snd (snd (alru_get key b t (arc_lruPart s))))\<rparr>)"
    by (simp add: arc_ghostFree_def k(2))
qed

lemma arc_excl_lfu_get:
  fixes s :: "('k, 'v) arc_state"
  assumes x: "arc_excl s"
  shows "arc_excl (s\<lparr>arc_lfuPart := snd (snd (alfu_get key b (arc_lfuPart s)))\<rparr>)"
    and "arc_ghostFree k' s \<Longrightarrow>
         arc_ghostFree k' (s\<lparr>arc_lfuPart := snd (snd (alfu_get key b (arc_lfuPart s)))\<rparr>)"
proof -
  note k = alfu_get_keys[where key = key and b = b and p = "arc_lfuPart s"]
  show "arc_excl (s\<lparr>arc_lfuPart := snd (snd (alfu_get key b (arc_lfuPart s)))\<rparr>)"
    using x unfolding arc_excl_sets by (simp add: k(1,2))
  show "arc_ghostFree k' s \<Longrightarrow>
         arc_ghostFree k' (s\<lparr>arc_lfuPart := snd (snd (alfu_get key b (arc_lfuPart s)))\<rparr>)"
    by (simp add: arc_ghostFree_def k(2))
qed

lemma arc_excl_not_both:
  assumes "arc_excl s" "map_of (alru_main (arc_lruPart s)) key = Some node"
  shows "map_of (alfu_mainCache (arc_lfuPart s)) key = None"
  using assms map_of_Some_keys[OF assms(2)] by (simp add: arc_excl_sets map_of_None_keys)


lemma arc_put_neither:
  assumes "map_of (alru_main (arc_lruPart (snd (checkGhostCaches key s)))) key = None"
    and "map_of (alfu_mainCache (arc_lfuPart (snd (checkGhostCaches key s)))) key = None"
  shows "arc_put key v s =
     (snd (checkGhostCaches key s))\<lparr>arc_lruPart :=
        snd (alru_put key v (arc_lruPart (snd (checkGhostCaches key s))))\<rparr>"
  using assms
  by (simp add: arc_put_def case_prod_beta Let_def alru_existsInMain_def alfu_existsInMain_def)

lemma arc_put_lfu:
  assumes "map_of (alru_main (arc_lruPart (snd (checkGhostCaches key s)))) key = None"
    and "map_of (alfu_mainCache (arc_lfuPart (snd (checkGhostCaches key s)))) key = Some n"
  shows "arc_put key v s =
     (snd (checkGhostCaches key s))\<lparr>arc_lfuPart :=
        snd (alfu_put key v (arc_lfuPart (snd (checkGhostCaches key s))))\<rparr>"
  using assms
  by (simp add: arc_put_def case_prod_beta Let_def alru_existsInMain_def alfu_existsInMain_def)

lemma arc_put_lru:
  assumes "map_of (alru_main (arc_lruPart (snd (checkGhostCaches key s)))) key = Some n"
    and "map_of (alfu_mainCache (arc_lfuPart (snd (checkGhostCaches key s)))) key = None"
  shows "arc_put key v s =
     (if fst (alru_put key v (arc_lruPart (snd (checkGhostCaches key s))))
      then (snd (checkGhostCaches key s))\<lparr>arc_lruPart :=
              alru_remove key (snd (alru_put key v (arc_lruPart (snd (checkGhostCaches key s))))),
            arc_lfuPart := snd (alfu_put key v (arc_lfuPart (snd (checkGhostCaches key s))))\<rparr>
      else (snd (checkGhostCaches key s))\<lparr>arc_lruPart :=
              snd (alru_put key v (arc_lruPart (snd (checkGhostCaches key s))))\<rparr>)"
  using assms
  by (simp add: arc_put_def case_prod_beta Let_def alru_existsInMain_def alfu_existsInMain_def)

lemma arc_get_neither:
  assumes "map_of (alru_main (arc_lruPart (snd (checkGhostCaches key s)))) key = None"
    and "map_of (alfu_mainCache (arc_lfuPart (snd (checkGhostCaches key s)))) key = None"
  shows "arc_get key b s =
     (False, b,
      (case fst (checkGhostCaches key s) of
         Some ghostValue \<Rightarrow>
           (snd (checkGhostCaches key s))\<lparr>arc_lruPart :=
              snd (alru_put key ghostValue (arc_lruPart (snd (checkGhostCaches key s))))\<rparr>
       | None \<Rightarrow> snd (checkGhostCaches key s)))"
  using assms
  by (simp add: arc_get_def case_prod_beta Let_def alru_existsInMain_def alfu_existsInMain_def
      split: option.splits)

lemma arc_get_lfu:
  assumes "map_of (alru_main (arc_lruPart (snd (checkGhostCaches key s)))) key = None"
    and "map_of (alfu_mainCache (arc_lfuPart (snd (checkGhostCaches key s)))) key = Some n"
  shows "arc_get key b s =
     (True, fst (snd (alfu_get key b (arc_lfuPart (snd (checkGhostCaches key s))))),
      (snd (checkGhostCaches key s))\<lparr>arc_lfuPart :=
         snd (snd (alfu_get key b (arc_lfuPart (snd (checkGhostCaches key s)))))\<rparr>)"
  using assms
  by (simp add: arc_get_def case_prod_beta Let_def alru_existsInMain_def alfu_existsInMain_def)

lemma arc_get_lru:
  assumes "map_of (alru_main (arc_lruPart (snd (checkGhostCaches key s)))) key = Some n"
    and "map_of (alfu_mainCache (arc_lfuPart (snd (checkGhostCaches key s)))) key = None"
  shows "arc_get key b s =
     (True, fst (snd (alru_get key b False (arc_lruPart (snd (checkGhostCaches key s))))),
      (if fst (snd (snd (alru_get key b False (arc_lruPart (snd (checkGhostCaches key s))))))
       then (snd (checkGhostCaches key s))\<lparr>arc_lruPart :=
               alru_remove key
                 (snd (snd (snd (alru_get key b False (arc_lruPart (snd (checkGhostCaches key s))))))),
             arc_lfuPart :=
               snd (alfu_put key
                      (fst (snd (alru_get key b False (arc_lruPart (snd (checkGhostCaches key s))))))
                      (arc_lfuPart (snd (checkGhostCaches key s))))\<rparr>
       else (snd (checkGhostCaches key s))\<lparr>arc_lruPart :=
               snd (snd (snd (alru_get key b False (arc_lruPart (snd (checkGhostCaches key s))))))\<rparr>))"
  using assms
  by (simp add: arc_get_def case_prod_beta Let_def alru_existsInMain_def alfu_existsInMain_def)

lemma arc_excl_promote:
  fixes s0 :: "('k, 'v) arc_state"
  assumes x: "arc_excl s0" and gf: "arc_ghostFree key s0"
  shows "arc_excl (s0\<lparr>arc_lruPart := alru_remove key (arc_lruPart s0),
                      arc_lfuPart := snd (alfu_put key v (arc_lfuPart s0))\<rparr>)"
    and "arc_ghostFree key (s0\<lparr>arc_lruPart := alru_remove key (arc_lruPart s0),
                      arc_lfuPart := snd (alfu_put key v (arc_lfuPart s0))\<rparr>)"
proof -
  define sB where "sB = s0\<lparr>arc_lruPart := alru_remove key (arc_lruPart s0)\<rparr>"
  have xB: "arc_excl sB" and gB: "arc_ghostFree key sB"
    and nB: "map_of (alru_main (arc_lruPart sB)) key = None"
    using arc_excl_lru_remove(1)[OF x, where key = key]
      arc_excl_lru_remove(2)[OF x, where key = key and k' = key]
      arc_excl_lru_remove(3)[OF x, where key = key] gf by (simp_all add: sB_def)
  have e: "s0\<lparr>arc_lruPart := alru_remove key (arc_lruPart s0),
              arc_lfuPart := snd (alfu_put key v (arc_lfuPart s0))\<rparr>
           = sB\<lparr>arc_lfuPart := snd (alfu_put key v (arc_lfuPart sB))\<rparr>"
    by (simp add: sB_def)
  show "arc_excl (s0\<lparr>arc_lruPart := alru_remove key (arc_lruPart s0),
                      arc_lfuPart := snd (alfu_put key v (arc_lfuPart s0))\<rparr>)"
    unfolding e by (rule arc_excl_lfu_put[OF xB gB nB])
  show "arc_ghostFree key (s0\<lparr>arc_lruPart := alru_remove key (arc_lruPart s0),
                      arc_lfuPart := snd (alfu_put key v (arc_lfuPart s0))\<rparr>)"
    unfolding e by (rule arc_excl_lfu_put[OF xB gB nB])
qed

lemma arc_excl_put:
  fixes s :: "('k, 'v) arc_state"
  assumes x: "arc_excl s"
  shows "arc_excl (arc_put key v s)" and "arc_ghostFree key (arc_put key v s)"
proof -
  define s0 where "s0 = snd (checkGhostCaches key s)"
  have x0: "arc_excl s0" and g0: "arc_ghostFree key s0"
    using arc_excl_checkGhostCaches[OF x, of key] by (simp_all add: s0_def)
  have "arc_excl (arc_put key v s) \<and> arc_ghostFree key (arc_put key v s)"
  proof (cases "map_of (alru_main (arc_lruPart s0)) key")
    case None
    show ?thesis
    proof (cases "map_of (alfu_mainCache (arc_lfuPart s0)) key")
      case None2: None
      have e: "arc_put key v s = s0\<lparr>arc_lruPart := snd (alru_put key v (arc_lruPart s0))\<rparr>"
        using None None2 unfolding s0_def by (rule arc_put_neither)
      show ?thesis unfolding e using arc_excl_lru_put[OF x0 g0 None2] by simp
    next
      case (Some n)
      have e: "arc_put key v s = s0\<lparr>arc_lfuPart := snd (alfu_put key v (arc_lfuPart s0))\<rparr>"
        using None Some unfolding s0_def by (rule arc_put_lfu)
      show ?thesis unfolding e using arc_excl_lfu_put[OF x0 g0 None] by simp
    qed
  next
    case (Some n)
    have nf: "map_of (alfu_mainCache (arc_lfuPart s0)) key = None"
      by (rule arc_excl_not_both[OF x0 Some])
    define sA where "sA = s0\<lparr>arc_lruPart := snd (alru_put key v (arc_lruPart s0))\<rparr>"
    have xA: "arc_excl sA" and gA: "arc_ghostFree key sA"
      using arc_excl_lru_put[OF x0 g0 nf, of v] by (simp_all add: sA_def)
    have e: "arc_put key v s =
       (if fst (alru_put key v (arc_lruPart s0))
        then sA\<lparr>arc_lruPart := alru_remove key (arc_lruPart sA),
                arc_lfuPart := snd (alfu_put key v (arc_lfuPart sA))\<rparr>
        else sA)"
      using arc_put_lru[OF Some[unfolded s0_def] nf[unfolded s0_def], of v]
      by (simp add: sA_def s0_def)
    show ?thesis
      unfolding e using xA gA arc_excl_promote[OF xA gA, of v] by simp
  qed
  then show "arc_excl (arc_put key v s)" and "arc_ghostFree key (arc_put key v s)" by simp_all
qed

lemma arc_excl_get:
  fixes s :: "('k, 'v) arc_state"
  assumes x: "arc_excl s"
  shows "arc_excl (snd (snd (arc_get key b s)))"
proof -
  define s0 where "s0 = snd (checkGhostCaches key s)"
  have x0: "arc_excl s0" and g0: "arc_ghostFree key s0"
    using arc_excl_checkGhostCaches[OF x, of key] by (simp_all add: s0_def)
  show ?thesis
  proof (cases "map_of (alru_main (arc_lruPart s0)) key")
    case None
    show ?thesis
    proof (cases "map_of (alfu_mainCache (arc_lfuPart s0)) key")
      case None2: None
      have e: "snd (snd (arc_get key b s)) =
                 (case fst (checkGhostCaches key s) of
                    Some g \<Rightarrow> s0\<lparr>arc_lruPart := snd (alru_put key g (arc_lruPart s0))\<rparr>
                  | None \<Rightarrow> s0)"
        unfolding s0_def
        using arc_get_neither[OF None[unfolded s0_def] None2[unfolded s0_def], of b]
        by simp
      show ?thesis unfolding e using x0 arc_excl_lru_put(1)[OF x0 g0 None2]
        by (simp split: option.splits)
    next
      case (Some n)
      have e: "snd (snd (arc_get key b s)) =
                 s0\<lparr>arc_lfuPart := snd (snd (alfu_get key b (arc_lfuPart s0)))\<rparr>"
        using arc_get_lfu[OF None[unfolded s0_def] Some[unfolded s0_def], of b]
        by (simp add: s0_def)
      show ?thesis unfolding e by (rule arc_excl_lfu_get(1)[OF x0])
    qed
  next
    case (Some n)
    have nf: "map_of (alfu_mainCache (arc_lfuPart s0)) key = None"
      by (rule arc_excl_not_both[OF x0 Some])
    define sA where
      "sA = s0\<lparr>arc_lruPart := snd (snd (snd (alru_get key b False (arc_lruPart s0))))\<rparr>"
    have xA: "arc_excl sA" and gA: "arc_ghostFree key sA"
      using arc_excl_lru_get(1)[OF x0, where key = key and b = b and t = False]
        arc_excl_lru_get(2)[OF x0, where key = key and b = b and t = False and k' = key] g0
      by (simp_all add: sA_def)
    have e: "snd (snd (arc_get key b s)) =
       (if fst (snd (snd (alru_get key b False (arc_lruPart s0))))
        then sA\<lparr>arc_lruPart := alru_remove key (arc_lruPart sA),
                arc_lfuPart := snd (alfu_put key
                   (fst (snd (alru_get key b False (arc_lruPart s0)))) (arc_lfuPart sA))\<rparr>
        else sA)"
      using arc_get_lru[OF Some[unfolded s0_def] nf[unfolded s0_def], of b]
      by (simp add: sA_def s0_def)
    show ?thesis
      unfolding e using xA arc_excl_promote(1)[OF xA gA] by simp
  qed
qed

lemma arc_excl_init: "arc_excl (KArcCache c t)"
  by (simp add: arc_excl_def KArcCache_def ArcLruPart_def ArcLfuPart_def)

lemma arc_excl_step: "arc_excl s \<Longrightarrow> arc_excl (arc_step s op)"
  by (cases op) (simp_all add: arc_excl_put arc_excl_get)

lemma arc_excl_foldl: "arc_excl s \<Longrightarrow> arc_excl (foldl arc_step s ops)"
  by (induction ops arbitrary: s) (simp_all add: arc_excl_step)

lemma arc_excl_run: "arc_excl (arc_run c t ops)"
  unfolding arc_run_def by (rule arc_excl_foldl[OF arc_excl_init])


lemma checkGhostCaches_ghostFree:
  "arc_ghostFree key s \<Longrightarrow> checkGhostCaches key s = (None, s)"
  by (simp add: arc_ghostFree_def checkGhostCaches_def checkLruGhost_miss checkLfuGhost_miss)

lemma arc_excl_resident_ghostFree:
  assumes "arc_excl s"
    and "map_of (alru_main (arc_lruPart s)) key \<noteq> None
         \<or> map_of (alfu_mainCache (arc_lfuPart s)) key \<noteq> None"
  shows "arc_ghostFree key s"
  using assms unfolding arc_excl_sets arc_ghostFree_keys map_of_None_keys by blast

lemma arc_get_ghostFree:
  assumes gf: "arc_ghostFree key s"
  shows "map_of (alru_main (arc_lruPart s)) key = Some n \<Longrightarrow>
           fst (arc_get key b s) = True \<and> fst (snd (arc_get key b s)) = an_value n"
    and "map_of (alru_main (arc_lruPart s)) key = None \<Longrightarrow>
         map_of (alfu_mainCache (arc_lfuPart s)) key = Some n \<Longrightarrow>
           fst (arc_get key b s) = True \<and> fst (snd (arc_get key b s)) = an_value n"
    and "map_of (alru_main (arc_lruPart s)) key = None \<Longrightarrow>
         map_of (alfu_mainCache (arc_lfuPart s)) key = None \<Longrightarrow>
           fst (arc_get key b s) = False \<and> fst (snd (arc_get key b s)) = b"
proof -
  note g = checkGhostCaches_ghostFree[OF gf]
  show "map_of (alru_main (arc_lruPart s)) key = Some n \<Longrightarrow>
           fst (arc_get key b s) = True \<and> fst (snd (arc_get key b s)) = an_value n"
    by (simp add: arc_get_def g alru_existsInMain_def alru_get_def case_prod_beta Let_def)
  show "map_of (alru_main (arc_lruPart s)) key = None \<Longrightarrow>
         map_of (alfu_mainCache (arc_lfuPart s)) key = Some n \<Longrightarrow>
           fst (arc_get key b s) = True \<and> fst (snd (arc_get key b s)) = an_value n"
    by (simp add: arc_get_def g alru_existsInMain_def alfu_existsInMain_def alfu_get_def
        case_prod_beta Let_def)
  show "map_of (alru_main (arc_lruPart s)) key = None \<Longrightarrow>
         map_of (alfu_mainCache (arc_lfuPart s)) key = None \<Longrightarrow>
           fst (arc_get key b s) = False \<and> fst (snd (arc_get key b s)) = b"
    by (simp add: arc_get_def g alru_existsInMain_def alfu_existsInMain_def)
qed

lemma map_of_map_entry_same:
  "map_of (AList.map_entry k f xs) k = map_option f (map_of xs k)"
  by (induction xs) auto

lemma alru_put_present:
  assumes "map_of (alru_main p) key = Some n" "alru_capacity p \<noteq> 0"
  shows "fst (alru_put key v p) \<longleftrightarrow> alru_transformThreshold p \<le> an_accessCount n + 1"
    and "map_option an_value (map_of (alru_main (snd (alru_put key v p))) key) = Some v"
  using assms
  by (simp_all add: alru_put_def alru_updateNodeAccess_def Let_def map_of_map_entry_same)

lemma alru_put_absent:
  assumes "map_of (alru_main p) key = None" "alru_capacity p \<noteq> 0"
  shows "map_option an_value (map_of (alru_main (snd (alru_put key v p))) key) = Some v"
  using alru_put_new(1)[OF assms, of v] by simp

lemma alfu_put_stores:
  assumes "alfu_capacity p \<noteq> 0"
  shows "map_option an_value (map_of (alfu_mainCache (snd (alfu_put key v p))) key) = Some v"
  using assms
  by (cases "map_of (alfu_mainCache p) key")
     (simp_all add: alfu_put_def alfu_addNewNode_def alfu_updateNodeFrequency_def Let_def
        update_conv')

lemma alru_inv_capacity:
  "alru_inv p \<Longrightarrow> map_of (alru_main p) key = Some n \<Longrightarrow> alru_capacity p \<noteq> 0"
  by (cases "alru_main p") (auto simp: alru_inv_def)

lemma alfu_inv_capacity:
  "alfu_inv p \<Longrightarrow> map_of (alfu_mainCache p) key = Some n \<Longrightarrow> alfu_capacity p \<noteq> 0"
  by (cases "alfu_mainCache p") (auto simp: alfu_inv_def)


lemma arc_get_after_value:
  assumes "arc_ghostFree key s"
    and "(map_option an_value (map_of (alru_main (arc_lruPart s)) key) = Some v)
         \<or> (map_of (alru_main (arc_lruPart s)) key = None \<and>
             map_option an_value (map_of (alfu_mainCache (arc_lfuPart s)) key) = Some v)"
  shows "fst (arc_get key b s) = True \<and> fst (snd (arc_get key b s)) = v"
  using assms(2)
proof
  assume "map_option an_value (map_of (alru_main (arc_lruPart s)) key) = Some v"
  then obtain n where "map_of (alru_main (arc_lruPart s)) key = Some n" "an_value n = v"
    by auto
  then show ?thesis using arc_get_ghostFree(1)[OF assms(1), of n b] by simp
next
  assume a: "map_of (alru_main (arc_lruPart s)) key = None \<and>
             map_option an_value (map_of (alfu_mainCache (arc_lfuPart s)) key) = Some v"
  then obtain n where "map_of (alfu_mainCache (arc_lfuPart s)) key = Some n" "an_value n = v"
    by auto
  then show ?thesis using a arc_get_ghostFree(2)[OF assms(1), of n b] by simp
qed

lemma arc_put_then_get_new:
  fixes s :: "('k, 'v) arc_state"
  assumes x: "arc_excl s"
    and nl: "map_of (alru_main (arc_lruPart s)) key = None"
    and nf: "map_of (alfu_mainCache (arc_lfuPart s)) key = None"
  shows "alru_capacity (arc_lruPart (snd (checkGhostCaches key s))) \<noteq> 0 \<Longrightarrow>
           fst (arc_get key b (arc_put key v s)) = True
           \<and> fst (snd (arc_get key b (arc_put key v s))) = v"
    and "alru_capacity (arc_lruPart (snd (checkGhostCaches key s))) = 0 \<Longrightarrow>
           fst (arc_get key b (arc_put key v s)) = False
           \<and> fst (snd (arc_get key b (arc_put key v s))) = b"
proof -
  define s0 where "s0 = snd (checkGhostCaches key s)"
  have nl0: "map_of (alru_main (arc_lruPart s0)) key = None"
    and nf0: "map_of (alfu_mainCache (arc_lfuPart s0)) key = None"
    using checkGhostCaches_absent[OF nl nf, of key] by (simp_all add: s0_def)
  have e: "arc_put key v s = s0\<lparr>arc_lruPart := snd (alru_put key v (arc_lruPart s0))\<rparr>"
    using nl0 nf0 unfolding s0_def by (rule arc_put_neither)
  note gf = arc_excl_put(2)[OF x, of key v]
  show "fst (arc_get key b (arc_put key v s)) = True
           \<and> fst (snd (arc_get key b (arc_put key v s))) = v"
    if "alru_capacity (arc_lruPart (snd (checkGhostCaches key s))) \<noteq> 0"
  proof -
    have c: "alru_capacity (arc_lruPart s0) \<noteq> 0" using that by (simp add: s0_def)
    have "map_option an_value (map_of (alru_main (arc_lruPart (arc_put key v s))) key) = Some v"
      unfolding e using alru_put_absent[OF nl0 c, of v] by simp
    then show ?thesis using arc_get_after_value[OF gf] by blast
  qed
  show "fst (arc_get key b (arc_put key v s)) = False
           \<and> fst (snd (arc_get key b (arc_put key v s))) = b"
    if "alru_capacity (arc_lruPart (snd (checkGhostCaches key s))) = 0"
  proof -
    have c: "alru_capacity (arc_lruPart s0) = 0" using that by (simp add: s0_def)
    have e': "arc_put key v s = s0" unfolding e by (simp add: alru_put_zero[OF c])
    show ?thesis
      using arc_get_ghostFree(3)[OF gf, of b] nl0 nf0 unfolding e' by simp
  qed
qed

lemma arc_put_then_get_lfu:
  fixes s :: "('k, 'v) arc_state"
  assumes inv: "arc_inv s" and x: "arc_excl s"
    and f: "map_of (alfu_mainCache (arc_lfuPart s)) key = Some n"
  shows "fst (arc_get key b (arc_put key v s)) = True
       \<and> fst (snd (arc_get key b (arc_put key v s))) = v"
proof -
  have nl: "map_of (alru_main (arc_lruPart s)) key = None"
  proof (cases "map_of (alru_main (arc_lruPart s)) key")
    case (Some m)
    then show ?thesis using arc_excl_not_both[OF x Some] f by simp
  qed simp
  have g: "checkGhostCaches key s = (None, s)"
    using arc_excl_resident_ghostFree[OF x, of key] f by (simp add: checkGhostCaches_ghostFree)
  have e: "arc_put key v s = s\<lparr>arc_lfuPart := snd (alfu_put key v (arc_lfuPart s))\<rparr>"
    using arc_put_lfu[of key s n v] nl f by (simp add: g)
  have c: "alfu_capacity (arc_lfuPart s) \<noteq> 0"
    using inv f alfu_inv_capacity[of "arc_lfuPart s" key n] by (simp add: arc_inv_def)
  note gf = arc_excl_put(2)[OF x, of key v]
  have "map_of (alru_main (arc_lruPart (arc_put key v s))) key = None \<and>
        map_option an_value (map_of (alfu_mainCache (arc_lfuPart (arc_put key v s))) key) = Some v"
    unfolding e using nl alfu_put_stores[OF c, of key v] by simp
  then show ?thesis using arc_get_after_value[OF gf] by blast
qed

lemma arc_put_then_get_lru:
  fixes s :: "('k, 'v) arc_state"
  assumes inv: "arc_inv s" and x: "arc_excl s"
    and l: "map_of (alru_main (arc_lruPart s)) key = Some n"
  shows "an_accessCount n + 1 < alru_transformThreshold (arc_lruPart s)
         \<or> alfu_capacity (arc_lfuPart s) \<noteq> 0 \<Longrightarrow>
           fst (arc_get key b (arc_put key v s)) = True
           \<and> fst (snd (arc_get key b (arc_put key v s))) = v"
    and "alru_transformThreshold (arc_lruPart s) \<le> an_accessCount n + 1 \<Longrightarrow>
         alfu_capacity (arc_lfuPart s) = 0 \<Longrightarrow>
           fst (arc_get key b (arc_put key v s)) = False
           \<and> fst (snd (arc_get key b (arc_put key v s))) = b"
proof -
  have nf: "map_of (alfu_mainCache (arc_lfuPart s)) key = None"
    by (rule arc_excl_not_both[OF x l])
  have g: "checkGhostCaches key s = (None, s)"
    using arc_excl_resident_ghostFree[OF x, of key] l by (simp add: checkGhostCaches_ghostFree)
  have c: "alru_capacity (arc_lruPart s) \<noteq> 0"
    using inv l alru_inv_capacity[of "arc_lruPart s" key n] by (simp add: arc_inv_def)
  note pp = alru_put_present[OF l c, of v]
  have e: "arc_put key v s =
     (if alru_transformThreshold (arc_lruPart s) \<le> an_accessCount n + 1
      then s\<lparr>arc_lruPart := alru_remove key (snd (alru_put key v (arc_lruPart s))),
             arc_lfuPart := snd (alfu_put key v (arc_lfuPart s))\<rparr>
      else s\<lparr>arc_lruPart := snd (alru_put key v (arc_lruPart s))\<rparr>)"
    using arc_put_lru[of key s n v] l nf pp(1) by (simp add: g)
  note gf = arc_excl_put(2)[OF x, of key v]
  have rm: "map_of (alru_main (alru_remove key p)) key = None" for p :: "('k, 'v) arc_lru_part"
    by (simp add: map_of_None_keys alru_remove_keys(1))
  show "fst (arc_get key b (arc_put key v s)) = True
           \<and> fst (snd (arc_get key b (arc_put key v s))) = v"
    if h: "an_accessCount n + 1 < alru_transformThreshold (arc_lruPart s)
         \<or> alfu_capacity (arc_lfuPart s) \<noteq> 0"
  proof (cases "alru_transformThreshold (arc_lruPart s) \<le> an_accessCount n + 1")
    case True
    then have c2: "alfu_capacity (arc_lfuPart s) \<noteq> 0" using h by auto
    have "map_of (alru_main (arc_lruPart (arc_put key v s))) key = None \<and>
        map_option an_value (map_of (alfu_mainCache (arc_lfuPart (arc_put key v s))) key) = Some v"
      unfolding e using True rm alfu_put_stores[OF c2, of key v] by simp
    then show ?thesis using arc_get_after_value[OF gf] by blast
  next
    case False
    have "map_option an_value (map_of (alru_main (arc_lruPart (arc_put key v s))) key) = Some v"
      unfolding e using False pp(2) by simp
    then show ?thesis using arc_get_after_value[OF gf] by blast
  qed
  show "fst (arc_get key b (arc_put key v s)) = False
           \<and> fst (snd (arc_get key b (arc_put key v s))) = b"
    if t: "alru_transformThreshold (arc_lruPart s) \<le> an_accessCount n + 1"
      and z: "alfu_capacity (arc_lfuPart s) = 0"
  proof -
    have "map_of (alru_main (arc_lruPart (arc_put key v s))) key = None"
      and "map_of (alfu_mainCache (arc_lfuPart (arc_put key v s))) key = None"
      unfolding e using t z rm nf by (simp_all add: alfu_put_def)
    then show ?thesis using arc_get_ghostFree(3)[OF gf, of b] by simp
  qed
qed


section \<open>A put followed by a get of the same key\<close>

lemma getInternal_hit_value:
  "map_of (lfu_nodeMap s) key = Some node \<Longrightarrow> fst (getInternal key b s) = node_value node"
  by (simp add: getInternal_def Let_def)

lemma getInternal_values:
  "map_option node_value (map_of (lfu_nodeMap (snd (getInternal key b s))) k)
     = map_option node_value (map_of (lfu_nodeMap s) k)"
  by (cases "map_of (lfu_nodeMap s) key") (simp_all add: getInternal_def Let_def update_conv')

lemma putInternal_stores:
  "map_of (lfu_nodeMap (putInternal evict key v s)) key = Some \<lparr>node_freq = 1, node_value = v\<rparr>"
  by (simp add: putInternal_def Let_def update_conv')

lemma lfu_put_stores:
  assumes "lfu_capacity s \<noteq> 0"
  shows "map_option node_value (map_of (lfu_nodeMap (lfu_put key v s)) key) = Some v"
proof (cases "map_of (lfu_nodeMap s) key")
  case None
  then show ?thesis using assms
    by (simp add: lfu_put_def KLfuCache_put_def putInternal_stores)
next
  case (Some node)
  then show ?thesis using assms
    by (simp add: lfu_put_def KLfuCache_put_def getInternal_values update_conv')
qed

lemma lfu_get_reads:
  assumes "map_option node_value (map_of (lfu_nodeMap s) key) = Some v"
  shows "fst (lfu_get key b s) = True" and "fst (snd (lfu_get key b s)) = v"
proof -
  obtain node where n: "map_of (lfu_nodeMap s) key = Some node" "node_value node = v"
    using assms by auto
  show "fst (lfu_get key b s) = True" "fst (snd (lfu_get key b s)) = v"
    using n getInternal_hit_value[OF n(1), of b]
    by (simp_all add: lfu_get_def KLfuCache_get_def case_prod_beta)
qed

lemma lfu_put_then_get:
  assumes "lfu_capacity s \<noteq> 0"
  shows "fst (lfu_get key b (lfu_put key v s)) = True
       \<and> fst (snd (lfu_get key b (lfu_put key v s))) = v"
  using lfu_get_reads[OF lfu_put_stores[OF assms]] by simp

lemma lruk_put_then_get_admitted:
  assumes "0 < lru_capacity (lruk_main u)"
    and "lru_contains key (lruk_main u) \<or> lruk_k u \<le> lruk_historyCount key u + 1"
  shows "fst (lruk_get key b (lruk_put key v u)) = True
       \<and> fst (snd (lruk_get key b (lruk_put key v u))) = v"
proof (cases "lru_contains key (lruk_main u)")
  case True
  then have "map_of (lru_nodes (lruk_main (lruk_put key v u))) key = Some v"
    using lru_put_map_of[OF assms(1), of key v] by (simp add: lruk_put_def)
  then show ?thesis using lruk_get_resident by metis
next
  case False
  then have "map_of (lru_nodes (lruk_main (lruk_put key v u))) key = Some v"
    using assms lruk_put_reaching[of key u v] by simp
  then show ?thesis using lruk_get_resident by metis
qed

lemma lruk_put_then_get_below:
  assumes "\<not> lru_contains key (lruk_main u)"
    and "lruk_historyCount key u + 1 < lruk_k u"
    and "0 < lru_capacity (lruk_historyList u)"
  shows "fst (snd (lruk_get key b (lruk_put key v u))) = b"
proof -
  let ?u1 = "lruk_put key v u"
  have m: "lruk_main ?u1 = lruk_main u" and k: "lruk_k ?u1 = lruk_k u"
    and hc: "0 < lru_capacity (lruk_historyList ?u1)"
    and cnt: "lruk_historyCount key ?u1 = lruk_historyCount key u + 1"
    using lruk_put_below[OF assms, of v] assms(3) by simp_all
  have nc: "\<not> lru_contains key (lruk_main ?u1)" using m assms(1) by simp
  have none: "map_of (lru_nodes (lruk_main ?u1)) key = None"
    using nc by (simp add: lru_contains_def)
  show ?thesis
  proof (cases "lruk_historyCount key ?u1 + 1 < lruk_k ?u1")
    case True
    obtain stored h1 where g: "lru_get_value 0 key (lruk_historyList ?u1) = (stored, h1)"
      by (cases "lru_get_value 0 key (lruk_historyList ?u1)")
    have st: "int stored = lruk_historyCount key ?u1"
      using g by (simp add: lruk_historyCount_def)
    show ?thesis
      using nc True g st none
      by (simp add: lruk_get_def[of key b ?u1] Let_def lru_get_miss)
  next
    case False
    obtain stored h1 where g: "lru_get_value 0 key (lruk_historyList ?u1) = (stored, h1)"
      by (cases "lru_get_value 0 key (lruk_historyList ?u1)")
    have st: "int stored = lruk_historyCount key ?u1"
      using g by (simp add: lruk_historyCount_def)
    have v: "fst (snd (lru_get key b (lru_put key b (lruk_main ?u1)))) = b"
    proof (cases "0 < lru_capacity (lruk_main ?u1)")
      case True
      then show ?thesis using lru_put_then_get by metis
    next
      case False
      then have "lru_put key b (lruk_main ?u1) = lruk_main ?u1" by (simp add: lru_put_def)
      then show ?thesis using none by (simp add: lru_get_miss)
    qed
    show ?thesis
      using nc False g st v
      by (simp add: lruk_get_def[of key b ?u1] Let_def case_prod_beta)
  qed
qed

lemma sharded_lru_put_then_get:
  assumes cap: "0 < capacity" "capacity < 2 ^ 31"
    and hw: "hw < 2 ^ 31" and sn: "sliceNum < 2 ^ 31" and pos: "0 < sliceNum \<or> 0 < hw"
  shows "\<exists>st st1 st2. hlru_run Hash (KHashLruCaches hw capacity sliceNum) ops = Some st
           \<and> hlru_put Hash key v st = Some st1
           \<and> hlru_get Hash key b st1 = Some (True, v, st2)"
proof -
  define n where "n = (if 0 < sliceNum then sliceNum else int hw)"
  let ?c = "\<lceil>real capacity / real_of_int n\<rceil>"
  have hw': "int_of_size_t hw = int hw" using hw by (rule int_of_size_t_small)
  have npos: "0 < n" using pos by (auto simp: n_def)
  have nlt: "n < 2 ^ 31"
  proof (cases "0 < sliceNum")
    case True
    then show ?thesis using sn by (simp add: n_def)
  next
    case False
    have "int hw < 2 ^ 31" using hw by (metis of_nat_less_iff of_nat_numeral of_nat_power)
    then show ?thesis using False by (simp add: n_def)
  qed
  have cpos: "0 < ?c" by (rule sliceSize_pos[OF npos cap(1)])
  have lru0: "KHashLruCaches hw capacity sliceNum =
      \<lparr>hlru_capacity = capacity, hlru_sliceNum = n,
       hlru_lruSliceCaches = replicate (nat n) (KLruCache (int_of_size_t (sliceSize capacity n)))\<rparr>"
    using hw' by (simp add: KHashLruCaches_def Let_def n_def)
  have sh1: "hlru_shape n ?c (KHashLruCaches hw capacity sliceNum)"
    unfolding lru0 using npos cap(2) by (rule hlru_shape_init)
  obtain st where st: "hlru_run Hash (KHashLruCaches hw capacity sliceNum) ops = Some st"
      "hlru_shape n ?c st"
    using hlru_run_shape[OF sh1 npos nlt] by blast
  show ?thesis
    using st(1) hlru_put_then_get[OF st(2) npos nlt cpos, where Hash = Hash and key = key
        and v = v and b = b] by blast
qed

text \<open>
  Claim C6, as the code has it, policy by policy: \<open>put(key, v)\<close> followed at once by
  \<open>get(key, value)\<close>, the caller's \<open>value\<close> holding \<open>b\<close>, or by \<open>get(key)\<close>, whose local
  holds \<open>dflt\<close>.
  \<^item> LRU with a positive capacity and LFU with a capacity other than 0, in every state:
    the get is a hit and returns \<open>v\<close>.
  \<^item> LFU aging with a capacity other than 0, in every state that satisfies the
    invariant of the LFU engine (\<open>lfu_inv\<close>) and whose counters are away from the limits
    of \<open>int\<close> (\<open>aging_small\<close>: ceiling and total not negative, total and frequencies at
    most \<open>INT_MAX - 2\<close>): both calls are defined, the get is a hit and returns \<open>v\<close>.
  \<^item> Sharded LRU built with a total capacity from 1 to 2^31 - 1 and a shard count that,
    after the fallback to the hardware concurrency, is from 1 to 2^31 - 1: in every
    state reached from the constructor both calls are defined, the get is a hit and
    returns \<open>v\<close>.
  \<^item> Sharded LFU in a state of \<open>n\<close> shards (\<open>0 < n < 2^31\<close>) that all have the same
    capacity other than 0, the shard of the key being in a state as for LFU aging: both
    calls are defined, the get is a hit and returns \<open>v\<close>.
  \<^item> LRU-K with a positive main capacity, with \<open>get(key, value)\<close>: the get is a hit and
    returns \<open>v\<close> when the key is already in the main cache or the put is the access that
    reaches \<open>k\<close>. For a key that is not in the main cache and whose count stays below \<open>k\<close>
    after the put (the history having a positive capacity), the put only counts the
    access and drops \<open>v\<close>: the get leaves the content \<open>b\<close> of the caller's \<open>value\<close>.
  \<^item> ARC, in every state \<open>r\<close> reached from the constructor: the get is a hit and returns
    \<open>v\<close> for a key in the LFU part; for a key in the LRU part whose access count stays
    below the threshold after the put, or whatever the count when the LFU part has a
    capacity other than 0; and for a key in neither part when the LRU part has a
    capacity other than 0 after the ghost check of the put.
\<close>

theorem put_then_get_per_policy:
  fixes s :: "('k, 'v) lru_state" and t :: "('k, 'v) lfu_state"
    and a :: "('k, 'v) lfu_aging_state" and u :: "('k, 'v) lruk_state"
    and r :: "('k, 'v) arc_state" and hf :: "('k, 'v) hash_lfu_state"
  assumes r: "r = arc_run arcCapacity threshold arcOps"
  shows
   "(0 < lru_capacity s \<longrightarrow>
       fst (lru_get key b (lru_put key v s)) = True
       \<and> fst (snd (lru_get key b (lru_put key v s))) = v
       \<and> fst (lru_get_value dflt key (lru_put key v s)) = v)
  \<and> (lfu_capacity t \<noteq> 0 \<longrightarrow>
       fst (lfu_get key b (lfu_put key v t)) = True
       \<and> fst (snd (lfu_get key b (lfu_put key v t))) = v
       \<and> fst (lfu_get_value dflt key (lfu_put key v t)) = v)
  \<and> (lfu_capacity a \<noteq> 0 \<and> lfu_inv a \<and> aging_small a \<longrightarrow>
       (\<exists>a1 a2 a3. aging_put walk key v a = Some a1
           \<and> aging_get walk key b a1 = Some (True, v, a2)
           \<and> aging_get_value walk dflt key a1 = Some (v, a3)))
  \<and> (0 < capacity \<and> capacity < 2 ^ 31 \<and> hw < 2 ^ 31 \<and> sliceNum < 2 ^ 31
       \<and> (0 < sliceNum \<or> 0 < hw) \<longrightarrow>
       (\<exists>st st1 st2 st3. hlru_run Hash (KHashLruCaches hw capacity sliceNum) ops = Some st
           \<and> hlru_put Hash key v st = Some st1
           \<and> hlru_get Hash key b st1 = Some (True, v, st2)
           \<and> hlru_get_value Hash dflt key st1 = Some (v, st3)))
  \<and> (hlfu_shape n cs hf \<and> 0 < n \<and> n < 2 ^ 31 \<and> cs \<noteq> 0
       \<and> lfu_inv (hlfu_lfuSliceCaches hf ! (Hash key mod nat n))
       \<and> aging_small (hlfu_lfuSliceCaches hf ! (Hash key mod nat n)) \<longrightarrow>
       (\<exists>hf1 hf2 hf3. hlfu_put walk Hash key v hf = Some hf1
           \<and> hlfu_get walk Hash key b hf1 = Some (True, v, hf2)
           \<and> hlfu_get_value walk Hash dflt key hf1 = Some (v, hf3)))
  \<and> (0 < lru_capacity (lruk_main u)
       \<and> (lru_contains key (lruk_main u) \<or> lruk_k u \<le> lruk_historyCount key u + 1) \<longrightarrow>
       fst (lruk_get key b (lruk_put key v u)) = True
       \<and> fst (snd (lruk_get key b (lruk_put key v u))) = v)
  \<and> (\<not> lru_contains key (lruk_main u) \<and> lruk_historyCount key u + 1 < lruk_k u
       \<and> 0 < lru_capacity (lruk_historyList u) \<longrightarrow>
       fst (snd (lruk_get key b (lruk_put key v u))) = b)
  \<and> (alfu_existsInMain key (arc_lfuPart r) \<longrightarrow>
       fst (arc_get key b (arc_put key v r)) = True
       \<and> fst (snd (arc_get key b (arc_put key v r))) = v
       \<and> fst (arc_get_value dflt key (arc_put key v r)) = v)
  \<and> (\<forall>nd. map_of (alru_main (arc_lruPart r)) key = Some nd
       \<and> (an_accessCount nd + 1 < alru_transformThreshold (arc_lruPart r)
          \<or> alfu_capacity (arc_lfuPart r) \<noteq> 0) \<longrightarrow>
       fst (arc_get key b (arc_put key v r)) = True
       \<and> fst (snd (arc_get key b (arc_put key v r))) = v
       \<and> fst (arc_get_value dflt key (arc_put key v r)) = v)
  \<and> (\<not> alru_existsInMain key (arc_lruPart r) \<and> \<not> alfu_existsInMain key (arc_lfuPart r)
       \<and> alru_capacity (arc_lruPart (snd (checkGhostCaches key r))) \<noteq> 0 \<longrightarrow>
       fst (arc_get key b (arc_put key v r)) = True
       \<and> fst (snd (arc_get key b (arc_put key v r))) = v
       \<and> fst (arc_get_value dflt key (arc_put key v r)) = v)"
proof -
  have inv: "arc_inv r" and x: "arc_excl r"
    unfolding r by (rule arc_inv_run, rule arc_excl_run)
  have c1: "0 < lru_capacity s \<longrightarrow>
       fst (lru_get key b (lru_put key v s)) = True
       \<and> fst (snd (lru_get key b (lru_put key v s))) = v
       \<and> fst (lru_get_value dflt key (lru_put key v s)) = v"
    using lru_put_then_get[where s = s and k = key and b = b and v = v]
      lru_put_then_get[where s = s and k = key and b = dflt and v = v]
    by (simp add: lru_get_value_def)
  have c2: "lfu_capacity t \<noteq> 0 \<longrightarrow>
       fst (lfu_get key b (lfu_put key v t)) = True
       \<and> fst (snd (lfu_get key b (lfu_put key v t))) = v
       \<and> fst (lfu_get_value dflt key (lfu_put key v t)) = v"
    using lfu_put_then_get[where s = t and key = key and b = b and v = v]
      lfu_put_then_get[where s = t and key = key and b = dflt and v = v]
    by (simp add: lfu_get_value_def)
  have c3: "lfu_capacity a \<noteq> 0 \<and> lfu_inv a \<and> aging_small a \<longrightarrow>
       (\<exists>a1 a2 a3. aging_put walk key v a = Some a1
           \<and> aging_get walk key b a1 = Some (True, v, a2)
           \<and> aging_get_value walk dflt key a1 = Some (v, a3))"
  proof (intro impI, elim conjE)
    assume h: "lfu_capacity a \<noteq> 0" "lfu_inv a" "aging_small a"
    obtain a1 a2 where p: "aging_put walk key v a = Some a1"
        "aging_get walk key b a1 = Some (True, v, a2)"
      using aging_put_then_get[OF h(2,3,1), of walk key v b] by blast
    obtain a1' a3 where q: "aging_put walk key v a = Some a1'"
        "aging_get walk key dflt a1' = Some (True, v, a3)"
      using aging_put_then_get[OF h(2,3,1), of walk key v dflt] by blast
    have "aging_get_value walk dflt key a1 = Some (v, a3)"
      using p(1) q by (simp add: aging_get_value_def)
    then show "\<exists>a1 a2 a3. aging_put walk key v a = Some a1
           \<and> aging_get walk key b a1 = Some (True, v, a2)
           \<and> aging_get_value walk dflt key a1 = Some (v, a3)"
      using p by blast
  qed
  have c4: "0 < capacity \<and> capacity < 2 ^ 31 \<and> hw < 2 ^ 31 \<and> sliceNum < 2 ^ 31
       \<and> (0 < sliceNum \<or> 0 < hw) \<longrightarrow>
       (\<exists>st st1 st2 st3. hlru_run Hash (KHashLruCaches hw capacity sliceNum) ops = Some st
           \<and> hlru_put Hash key v st = Some st1
           \<and> hlru_get Hash key b st1 = Some (True, v, st2)
           \<and> hlru_get_value Hash dflt key st1 = Some (v, st3))"
  proof (intro impI, elim conjE)
    assume h: "0 < capacity" "capacity < 2 ^ 31" "hw < 2 ^ 31" "sliceNum < 2 ^ 31"
      "0 < sliceNum \<or> 0 < hw"
    obtain st st1 st2 where p:
        "hlru_run Hash (KHashLruCaches hw capacity sliceNum) ops = Some st"
        "hlru_put Hash key v st = Some st1" "hlru_get Hash key b st1 = Some (True, v, st2)"
      using sharded_lru_put_then_get[OF h, of Hash ops key v b] by blast
    obtain st' st1' st3 where q:
        "hlru_run Hash (KHashLruCaches hw capacity sliceNum) ops = Some st'"
        "hlru_put Hash key v st' = Some st1'" "hlru_get Hash key dflt st1' = Some (True, v, st3)"
      using sharded_lru_put_then_get[OF h, of Hash ops key v dflt] by blast
    have "st' = st" using p(1) q(1) by simp
    then have "st1' = st1" using p(2) q(2) by simp
    then have "hlru_get_value Hash dflt key st1 = Some (v, st3)"
      using q(3) by (simp add: hlru_get_value_def)
    then show "\<exists>st st1 st2 st3. hlru_run Hash (KHashLruCaches hw capacity sliceNum) ops = Some st
           \<and> hlru_put Hash key v st = Some st1
           \<and> hlru_get Hash key b st1 = Some (True, v, st2)
           \<and> hlru_get_value Hash dflt key st1 = Some (v, st3)"
      using p by blast
  qed
  have c5: "hlfu_shape n cs hf \<and> 0 < n \<and> n < 2 ^ 31 \<and> cs \<noteq> 0
       \<and> lfu_inv (hlfu_lfuSliceCaches hf ! (Hash key mod nat n))
       \<and> aging_small (hlfu_lfuSliceCaches hf ! (Hash key mod nat n)) \<longrightarrow>
       (\<exists>hf1 hf2 hf3. hlfu_put walk Hash key v hf = Some hf1
           \<and> hlfu_get walk Hash key b hf1 = Some (True, v, hf2)
           \<and> hlfu_get_value walk Hash dflt key hf1 = Some (v, hf3))"
  proof (intro impI, elim conjE)
    assume h: "hlfu_shape n cs hf" "0 < n" "n < 2 ^ 31" "cs \<noteq> 0"
      "lfu_inv (hlfu_lfuSliceCaches hf ! (Hash key mod nat n))"
      "aging_small (hlfu_lfuSliceCaches hf ! (Hash key mod nat n))"
    obtain hf1 hf2 where p: "hlfu_put walk Hash key v hf = Some hf1"
        "hlfu_get walk Hash key b hf1 = Some (True, v, hf2)"
      using hlfu_put_then_get[where Hash = Hash and key = key and walk = walk and v = v
          and b = b, OF h] by blast
    obtain hf1' hf3 where q: "hlfu_put walk Hash key v hf = Some hf1'"
        "hlfu_get walk Hash key dflt hf1' = Some (True, v, hf3)"
      using hlfu_put_then_get[where Hash = Hash and key = key and walk = walk and v = v
          and b = dflt, OF h] by blast
    have "hlfu_get_value walk Hash dflt key hf1 = Some (v, hf3)"
      using p(1) q by (simp add: hlfu_get_value_def)
    then show "\<exists>hf1 hf2 hf3. hlfu_put walk Hash key v hf = Some hf1
           \<and> hlfu_get walk Hash key b hf1 = Some (True, v, hf2)
           \<and> hlfu_get_value walk Hash dflt key hf1 = Some (v, hf3)"
      using p by blast
  qed
  have c6: "0 < lru_capacity (lruk_main u)
       \<and> (lru_contains key (lruk_main u) \<or> lruk_k u \<le> lruk_historyCount key u + 1) \<longrightarrow>
       fst (lruk_get key b (lruk_put key v u)) = True
       \<and> fst (snd (lruk_get key b (lruk_put key v u))) = v"
    using lruk_put_then_get_admitted[where u = u and key = key and b = b and v = v] by blast
  have c7: "\<not> lru_contains key (lruk_main u) \<and> lruk_historyCount key u + 1 < lruk_k u
       \<and> 0 < lru_capacity (lruk_historyList u) \<longrightarrow>
       fst (snd (lruk_get key b (lruk_put key v u))) = b"
    using lruk_put_then_get_below[where u = u and key = key and b = b and v = v] by blast
  have c8: "alfu_existsInMain key (arc_lfuPart r) \<longrightarrow>
       fst (arc_get key b (arc_put key v r)) = True
       \<and> fst (snd (arc_get key b (arc_put key v r))) = v
       \<and> fst (arc_get_value dflt key (arc_put key v r)) = v"
  proof
    assume "alfu_existsInMain key (arc_lfuPart r)"
    then obtain nd where f: "map_of (alfu_mainCache (arc_lfuPart r)) key = Some nd"
      by (auto simp: alfu_existsInMain_def)
    show "fst (arc_get key b (arc_put key v r)) = True
       \<and> fst (snd (arc_get key b (arc_put key v r))) = v
       \<and> fst (arc_get_value dflt key (arc_put key v r)) = v"
      using arc_put_then_get_lfu[OF inv x f, where b = b and v = v]
        arc_put_then_get_lfu[OF inv x f, where b = dflt and v = v]
      by (simp add: arc_get_value_def)
  qed
  have c9: "\<forall>nd. map_of (alru_main (arc_lruPart r)) key = Some nd
       \<and> (an_accessCount nd + 1 < alru_transformThreshold (arc_lruPart r)
          \<or> alfu_capacity (arc_lfuPart r) \<noteq> 0) \<longrightarrow>
       fst (arc_get key b (arc_put key v r)) = True
       \<and> fst (snd (arc_get key b (arc_put key v r))) = v
       \<and> fst (arc_get_value dflt key (arc_put key v r)) = v"
  proof (intro allI impI, elim conjE)
    fix nd assume l: "map_of (alru_main (arc_lruPart r)) key = Some nd"
      and d: "an_accessCount nd + 1 < alru_transformThreshold (arc_lruPart r)
          \<or> alfu_capacity (arc_lfuPart r) \<noteq> 0"
    show "fst (arc_get key b (arc_put key v r)) = True
       \<and> fst (snd (arc_get key b (arc_put key v r))) = v
       \<and> fst (arc_get_value dflt key (arc_put key v r)) = v"
      using arc_put_then_get_lru(1)[OF inv x l d, where b = b and v = v]
        arc_put_then_get_lru(1)[OF inv x l d, where b = dflt and v = v]
      by (simp add: arc_get_value_def)
  qed
  have c10: "\<not> alru_existsInMain key (arc_lruPart r) \<and> \<not> alfu_existsInMain key (arc_lfuPart r)
       \<and> alru_capacity (arc_lruPart (snd (checkGhostCaches key r))) \<noteq> 0 \<longrightarrow>
       fst (arc_get key b (arc_put key v r)) = True
       \<and> fst (snd (arc_get key b (arc_put key v r))) = v
       \<and> fst (arc_get_value dflt key (arc_put key v r)) = v"
  proof (intro impI, elim conjE)
    assume "\<not> alru_existsInMain key (arc_lruPart r)" "\<not> alfu_existsInMain key (arc_lfuPart r)"
      and cz: "alru_capacity (arc_lruPart (snd (checkGhostCaches key r))) \<noteq> 0"
    then have nl: "map_of (alru_main (arc_lruPart r)) key = None"
      and nf: "map_of (alfu_mainCache (arc_lfuPart r)) key = None"
      by (simp_all add: alru_existsInMain_def alfu_existsInMain_def)
    show "fst (arc_get key b (arc_put key v r)) = True
       \<and> fst (snd (arc_get key b (arc_put key v r))) = v
       \<and> fst (arc_get_value dflt key (arc_put key v r)) = v"
      using arc_put_then_get_new(1)[OF x nl nf cz, where b = b and v = v]
        arc_put_then_get_new(1)[OF x nl nf cz, where b = dflt and v = v]
      by (simp add: arc_get_value_def)
  qed
  show ?thesis
    by (intro conjI c1 c2 c3 c4 c5 c6 c7 c8 c9 c10)
qed

text \<open>
  Two caches of positive capacity where the get after the put is a miss and does not
  return the value put: a fresh LRU-K cache with \<open>k = 3\<close>, and a fresh ARC cache of
  capacity 1, whose two parts have capacity 0.
\<close>

theorem put_then_get_misses_counterexample:
  "lruk_get (1::nat) (7::nat) (lruk_put 1 5 (KLruKCache 2 2 3)) =
     (False, 7,
      \<lparr>lruk_main = \<lparr>lru_capacity = 2, lru_nodes = []\<rparr>,
       lruk_historyList = \<lparr>lru_capacity = 2, lru_nodes = [(1, 2)]\<rparr>,
       lruk_k = 3\<rparr>)
   \<and> arc_get (1::nat) (0::nat) (arc_put 1 10 (KArcCache 1 2)) = (False, 0, KArcCache 1 2)
   \<and> fst (arc_get_value (0::nat) (1::nat) (arc_put 1 10 (KArcCache 1 2))) = 0
   \<and> alru_capacity (arc_lruPart (KArcCache 1 2 :: (nat, nat) arc_state)) = 0
   \<and> alfu_capacity (arc_lfuPart (KArcCache 1 2 :: (nat, nat) arc_state)) = 0"
  by code_simp


text \<open>
  The statement at work on fresh caches of capacity 2 (the sharded ones of capacity 4 in
  two shards), on an LRU-K cache with \<open>k = 1\<close> and one with \<open>k = 3\<close>, and on an ARC cache
  before and after a first put of the key, and after a put and a get of it.
\<close>

lemma arc_example_promoted:
  "arc_run 2 2 [CachePut (1::nat) (10::nat)] =
    \<lparr>arc_capacity = 2, arc_transformThreshold = 2,
     arc_lruPart = \<lparr>alru_capacity = 1, alru_ghostCapacity = 1, alru_transformThreshold = 2,
                    alru_main = [(1, \<lparr>an_value = 10, an_accessCount = 1\<rparr>)],
                    alru_ghost = []\<rparr>,
     arc_lfuPart = \<lparr>alfu_capacity = 1, alfu_ghostCapacity = 1, alfu_transformThreshold = 2,
                    alfu_minFreq = 0, alfu_mainCache = [], alfu_freqMap = [], alfu_ghost = []\<rparr>\<rparr>"
  by code_simp

lemma arc_example_fresh_capacity:
  "alru_capacity (arc_lruPart (snd (checkGhostCaches (1::nat) (arc_run 2 2 [] :: (nat, nat) arc_state)))) \<noteq> 0"
  by code_simp

lemma arc_example_in_lfu:
  "alfu_existsInMain (1::nat)
     (arc_lfuPart (arc_run 2 2 [CachePut (1::nat) (10::nat), CacheGet 1 0]))"
  by code_simp

lemma hlfu_example_state:
  "(KHashLfuCache 4 4 2 10 :: (nat, nat) hash_lfu_state) =
     \<lparr>hlfu_capacity = 4, hlfu_sliceNum = 2,
      hlfu_lfuSliceCaches = [KLfuAgingCache 2 10, KLfuAgingCache 2 10]\<rparr>"
proof -
  have ss: "sliceSize 4 2 = 2" by (simp add: sliceSize_def)
  have i2: "int_of_size_t 2 = 2" by (simp add: int_of_size_t_def)
  have r2: "replicate 2 x = [x, x]" for x :: "(nat, nat) lfu_aging_state"
    by (simp add: numeral_2_eq_2)
  show ?thesis by (simp add: KHashLfuCache_def ss i2 r2)
qed

theorem put_then_get_per_policy_witness:
  "0 < lru_capacity (KLruCache 2 :: (nat, nat) lru_state)
   \<and> fst (lru_get_value (0::nat) (1::nat) (lru_put 1 5 (KLruCache 2))) = 5
   \<and> lfu_capacity (KLfuCache 2 :: (nat, nat) lfu_state) \<noteq> 0
   \<and> fst (lfu_get_value (0::nat) (1::nat) (lfu_put 1 5 (KLfuCache 2))) = 5
   \<and> lfu_capacity (KLfuAgingCache 2 10 :: (nat, nat) lfu_aging_state) \<noteq> 0
   \<and> lfu_inv (KLfuAgingCache 2 10 :: (nat, nat) lfu_aging_state)
   \<and> aging_small (KLfuAgingCache 2 10 :: (nat, nat) lfu_aging_state)
   \<and> (\<exists>a1 a2 a3. aging_put (map fst) (1::nat) (5::nat) (KLfuAgingCache 2 10) = Some a1
           \<and> aging_get (map fst) 1 0 a1 = Some (True, 5, a2)
           \<and> aging_get_value (map fst) 0 1 a1 = Some (5, a3))
   \<and> (\<exists>st st1 st2 st3. hlru_run (\<lambda>k::nat. k) (KHashLruCaches 4 4 2) [] = Some st
           \<and> hlru_put (\<lambda>k. k) 1 (5::nat) st = Some st1
           \<and> hlru_get (\<lambda>k. k) 1 0 st1 = Some (True, 5, st2)
           \<and> hlru_get_value (\<lambda>k. k) 0 1 st1 = Some (5, st3))
   \<and> hlfu_shape 2 2 (KHashLfuCache 4 4 2 10 :: (nat, nat) hash_lfu_state)
   \<and> lfu_inv (hlfu_lfuSliceCaches (KHashLfuCache 4 4 2 10 :: (nat, nat) hash_lfu_state)
               ! (1 mod nat 2))
   \<and> aging_small (hlfu_lfuSliceCaches (KHashLfuCache 4 4 2 10 :: (nat, nat) hash_lfu_state)
               ! (1 mod nat 2))
   \<and> (\<exists>hf1 hf2 hf3.
         hlfu_put (map fst) (\<lambda>k::nat. k) 1 (5::nat) (KHashLfuCache 4 4 2 10) = Some hf1
           \<and> hlfu_get (map fst) (\<lambda>k. k) 1 0 hf1 = Some (True, 5, hf2)
           \<and> hlfu_get_value (map fst) (\<lambda>k. k) 0 1 hf1 = Some (5, hf3))
   \<and> 0 < lru_capacity (lruk_main (KLruKCache 2 2 1 :: (nat, nat) lruk_state))
   \<and> lruk_k (KLruKCache 2 2 1 :: (nat, nat) lruk_state)
        \<le> lruk_historyCount 1 (KLruKCache 2 2 1 :: (nat, nat) lruk_state) + 1
   \<and> fst (snd (lruk_get (1::nat) (0::nat) (lruk_put 1 5 (KLruKCache 2 2 1)))) = 5
   \<and> \<not> lru_contains 1 (lruk_main (KLruKCache 2 2 3 :: (nat, nat) lruk_state))
   \<and> lruk_historyCount 1 (KLruKCache 2 2 3 :: (nat, nat) lruk_state) + 1
        < lruk_k (KLruKCache 2 2 3 :: (nat, nat) lruk_state)
   \<and> 0 < lru_capacity (lruk_historyList (KLruKCache 2 2 3 :: (nat, nat) lruk_state))
   \<and> fst (snd (lruk_get (1::nat) (0::nat) (lruk_put 1 5 (KLruKCache 2 2 3)))) = 0
   \<and> \<not> alru_existsInMain (1::nat) (arc_lruPart (arc_run 2 2 [] :: (nat, nat) arc_state))
   \<and> \<not> alfu_existsInMain (1::nat) (arc_lfuPart (arc_run 2 2 [] :: (nat, nat) arc_state))
   \<and> alru_capacity (arc_lruPart (snd (checkGhostCaches (1::nat)
        (arc_run 2 2 [] :: (nat, nat) arc_state)))) \<noteq> 0
   \<and> fst (arc_get_value (0::nat) (1::nat) (arc_put 1 5 (arc_run 2 2 []))) = 5
   \<and> map_of (alru_main (arc_lruPart (arc_run 2 2 [CachePut (1::nat) (10::nat)]))) 1
        = Some \<lparr>an_value = 10, an_accessCount = 1\<rparr>
   \<and> alfu_capacity (arc_lfuPart (arc_run 2 2 [CachePut (1::nat) (10::nat)])) \<noteq> 0
   \<and> fst (arc_get_value (0::nat) (1::nat) (arc_put 1 5 (arc_run 2 2 [CachePut 1 10]))) = 5
   \<and> alfu_existsInMain (1::nat)
        (arc_lfuPart (arc_run 2 2 [CachePut (1::nat) (10::nat), CacheGet 1 0]))
   \<and> fst (arc_get_value (0::nat) (1::nat)
        (arc_put 1 5 (arc_run 2 2 [CachePut 1 10, CacheGet 1 0]))) = 5"
proof -
  note t1 = put_then_get_per_policy[where r = "arc_run 2 2 [] :: (nat, nat) arc_state"
      and arcCapacity = 2 and threshold = 2 and arcOps = "[]"
      and u = "KLruKCache 2 2 1 :: (nat, nat) lruk_state"
      and s = "KLruCache 2 :: (nat, nat) lru_state" and t = "KLfuCache 2 :: (nat, nat) lfu_state"
      and a = "KLfuAgingCache 2 10 :: (nat, nat) lfu_aging_state" and walk = "map fst"
      and key = 1 and v = 5 and b = 0 and dflt = 0 and capacity = 4 and hw = 4 and sliceNum = 2
      and Hash = "\<lambda>k::nat. k" and ops = "[]" and n = 2 and cs = 2
      and hf = "KHashLfuCache 4 4 2 10 :: (nat, nat) hash_lfu_state", OF refl]
  note t2 = put_then_get_per_policy[where r = "arc_run 2 2 [CachePut (1::nat) (10::nat)]"
      and arcCapacity = 2 and threshold = 2 and arcOps = "[CachePut (1::nat) (10::nat)]"
      and u = "KLruKCache 2 2 3 :: (nat, nat) lruk_state"
      and s = "KLruCache 2 :: (nat, nat) lru_state" and t = "KLfuCache 2 :: (nat, nat) lfu_state"
      and a = "KLfuAgingCache 2 10 :: (nat, nat) lfu_aging_state" and walk = "map fst"
      and key = 1 and v = 5 and b = 0 and dflt = 0 and capacity = 4 and hw = 4 and sliceNum = 2
      and Hash = "\<lambda>k::nat. k" and ops = "[]" and n = 2 and cs = 2
      and hf = "KHashLfuCache 4 4 2 10 :: (nat, nat) hash_lfu_state", OF refl]
  note t3 = put_then_get_per_policy[where
      r = "arc_run 2 2 [CachePut (1::nat) (10::nat), CacheGet 1 0]"
      and arcCapacity = 2 and threshold = 2
      and arcOps = "[CachePut (1::nat) (10::nat), CacheGet 1 0]"
      and u = "KLruKCache 2 2 3 :: (nat, nat) lruk_state"
      and s = "KLruCache 2 :: (nat, nat) lru_state" and t = "KLfuCache 2 :: (nat, nat) lfu_state"
      and a = "KLfuAgingCache 2 10 :: (nat, nat) lfu_aging_state" and walk = "map fst"
      and key = 1 and v = 5 and b = 0 and dflt = 0 and capacity = 4 and hw = 4 and sliceNum = 2
      and Hash = "\<lambda>k::nat. k" and ops = "[]" and n = 2 and cs = 2
      and hf = "KHashLfuCache 4 4 2 10 :: (nat, nat) hash_lfu_state", OF refl]
  have h1: "0 < lru_capacity (KLruCache 2 :: (nat, nat) lru_state)"
    by (simp add: KLruCache_def)
  have h2: "lfu_capacity (KLfuCache 2 :: (nat, nat) lfu_state) \<noteq> 0"
    by (simp add: KLfuCache_def)
  have h3a: "lfu_capacity (KLfuAgingCache 2 10 :: (nat, nat) lfu_aging_state) \<noteq> 0"
    by (simp add: KLfuAgingCache_def)
  have h3b: "lfu_inv (KLfuAgingCache 2 10 :: (nat, nat) lfu_aging_state)"
    by (rule lfu_inv_aging_init)
  have h3c: "aging_small (KLfuAgingCache 2 10 :: (nat, nat) lfu_aging_state)"
    by (rule aging_small_init) (simp_all add: INT_MAX_def)
  have h4: "0 < (4::nat) \<and> (4::nat) < 2 ^ 31 \<and> (4::nat) < 2 ^ 31 \<and> (2::int) < 2 ^ 31
       \<and> (0 < (2::int) \<or> 0 < (4::nat))" by simp
  have h5a: "hlfu_shape 2 2 (KHashLfuCache 4 4 2 10 :: (nat, nat) hash_lfu_state)"
    unfolding hlfu_example_state by (simp add: hlfu_shape_def KLfuAgingCache_def)
  have ix: "hlfu_lfuSliceCaches (KHashLfuCache 4 4 2 10 :: (nat, nat) hash_lfu_state)
               ! (1 mod nat 2) = KLfuAgingCache 2 10"
    unfolding hlfu_example_state by simp
  have h5b: "lfu_inv (hlfu_lfuSliceCaches (KHashLfuCache 4 4 2 10 :: (nat, nat) hash_lfu_state)
               ! (1 mod nat 2))"
    unfolding ix by (rule h3b)
  have h5c: "aging_small (hlfu_lfuSliceCaches (KHashLfuCache 4 4 2 10 :: (nat, nat) hash_lfu_state)
               ! (1 mod nat 2))"
    unfolding ix by (rule h3c)
  have n1: "(0::int) < 2" and n2: "(2::int) < 2 ^ 31" and n3: "(2::int) \<noteq> 0" by simp_all
  have h6a: "0 < lru_capacity (lruk_main (KLruKCache 2 2 1 :: (nat, nat) lruk_state))"
    by (simp add: KLruKCache_def KLruCache_def)
  have h6b: "lruk_k (KLruKCache 2 2 1 :: (nat, nat) lruk_state)
        \<le> lruk_historyCount 1 (KLruKCache 2 2 1 :: (nat, nat) lruk_state) + 1"
    by (simp add: KLruKCache_def KLruCache_def lruk_historyCount_def lru_get_value_def
        lru_get_def)
  have h7a: "\<not> lru_contains 1 (lruk_main (KLruKCache 2 2 3 :: (nat, nat) lruk_state))"
    by (simp add: KLruKCache_def KLruCache_def lru_contains_def)
  have h7b: "lruk_historyCount 1 (KLruKCache 2 2 3 :: (nat, nat) lruk_state) + 1
           < lruk_k (KLruKCache 2 2 3 :: (nat, nat) lruk_state)"
    by (simp add: KLruKCache_def KLruCache_def lruk_historyCount_def lru_get_value_def
        lru_get_def)
  have h7c: "0 < lru_capacity (lruk_historyList (KLruKCache 2 2 3 :: (nat, nat) lruk_state))"
    by (simp add: KLruKCache_def KLruCache_def)
  have h10a: "\<not> alru_existsInMain (1::nat) (arc_lruPart (arc_run 2 2 [] :: (nat, nat) arc_state))"
    and h10b: "\<not> alfu_existsInMain (1::nat) (arc_lfuPart (arc_run 2 2 [] :: (nat, nat) arc_state))"
    by (simp_all add: arc_run_def KArcCache_def ArcLruPart_def ArcLfuPart_def
        alru_existsInMain_def alfu_existsInMain_def)
  have h9a: "map_of (alru_main (arc_lruPart (arc_run 2 2 [CachePut (1::nat) (10::nat)]))) 1
        = Some \<lparr>an_value = 10, an_accessCount = 1\<rparr>"
    unfolding arc_example_promoted by simp
  have h9b: "alfu_capacity (arc_lfuPart (arc_run 2 2 [CachePut (1::nat) (10::nat)])) \<noteq> 0"
    unfolding arc_example_promoted by simp
  note k1 = t1[THEN conjunct1, rule_format, OF h1, THEN conjunct2, THEN conjunct2]
  note k2 = t1[THEN conjunct2, THEN conjunct1, rule_format, OF h2, THEN conjunct2, THEN conjunct2]
  note k3 = t1[THEN conjunct2, THEN conjunct2, THEN conjunct1, rule_format, OF conjI[OF h3a conjI[OF h3b h3c]]]
  note k4 = t1[THEN conjunct2, THEN conjunct2, THEN conjunct2, THEN conjunct1, rule_format, OF h4]
  note k5 = t1[THEN conjunct2, THEN conjunct2, THEN conjunct2, THEN conjunct2, THEN conjunct1, rule_format, OF conjI[OF h5a conjI[OF n1 conjI[OF n2 conjI[OF n3
      conjI[OF h5b h5c]]]]]]
  note k6 = t1[THEN conjunct2, THEN conjunct2, THEN conjunct2, THEN conjunct2, THEN conjunct2, THEN conjunct1, rule_format, OF conjI[OF h6a disjI2[OF h6b]], THEN conjunct2]
  note k7 = t2[THEN conjunct2, THEN conjunct2, THEN conjunct2, THEN conjunct2, THEN conjunct2, THEN conjunct2, THEN conjunct1, rule_format, OF conjI[OF h7a conjI[OF h7b h7c]]]
  note k8 = t3[THEN conjunct2, THEN conjunct2, THEN conjunct2, THEN conjunct2, THEN conjunct2, THEN conjunct2, THEN conjunct2, THEN conjunct1, rule_format, OF arc_example_in_lfu, THEN conjunct2, THEN conjunct2]
  note k9 = t2[THEN conjunct2, THEN conjunct2, THEN conjunct2, THEN conjunct2, THEN conjunct2, THEN conjunct2, THEN conjunct2, THEN conjunct2, THEN conjunct1, rule_format, OF conjI[OF h9a disjI2[OF h9b]], THEN conjunct2,
      THEN conjunct2]
  note k10 = t1[THEN conjunct2, THEN conjunct2, THEN conjunct2, THEN conjunct2, THEN conjunct2, THEN conjunct2, THEN conjunct2, THEN conjunct2, THEN conjunct2, rule_format, OF conjI[OF h10a conjI[OF h10b arc_example_fresh_capacity]],
      THEN conjunct2, THEN conjunct2]
  show ?thesis
    by (intro conjI h1 k1 h2 k2 h3a h3b h3c k3 k4 h5a h5b h5c k5 h6a h6b k6 h7a h7b h7c k7
        h10a h10b arc_example_fresh_capacity k10 h9a h9b k9 arc_example_in_lfu k8)
qed

end
